theory Spec2Isabelle
  imports Main "HOL-Library.Word" "HOL-Library.Numeral_Type"
begin

unbundle bit_operations_syntax

section \<open>BLS12-381 scalar field arithmetic of the GPU kernels (kzg\_kernels.metal)\<close>

type_synonym ulong = "64 word"
type_synonym uint = "32 word"

text \<open>The scalar field modulus \<open>r\<close>, as the four little-endian limbs of \<open>MODULUS\<close>.\<close>

definition MODULUS_x :: ulong where "MODULUS_x = 0xffffffff00000001"
definition MODULUS_y :: ulong where "MODULUS_y = 0x53bda402fffe5bfe"
definition MODULUS_z :: ulong where "MODULUS_z = 0x3339d80809a1d805"
definition MODULUS_w :: ulong where "MODULUS_w = 0x73eda753299d7d48"

text \<open>Montgomery constant: \<open>-r^(-1) mod 2^64\<close>.\<close>

definition INV :: ulong where "INV = 0xfffffffeffffffff"

text \<open>\<open>struct Fr { ulong l[4]; }\<close>: four limbs, least significant first.\<close>

record Fr =
  l0 :: ulong
  l1 :: ulong
  l2 :: ulong
  l3 :: ulong

text \<open>\<open>a.l[j]\<close>; the kernels only index with \<open>j\<close> in \<open>0..3\<close>.\<close>

definition l :: "Fr \<Rightarrow> nat \<Rightarrow> ulong" where
  "l a j = (if j = 0 then l0 a else if j = 1 then l1 a else if j = 2 then l2 a else l3 a)"

text \<open>The integer a field element stores, and the modulus as an integer.\<close>

definition fr_val :: "Fr \<Rightarrow> nat" where
  "fr_val a = unat (l0 a) + 2 ^ 64 * unat (l1 a) + 2 ^ 128 * unat (l2 a) + 2 ^ 192 * unat (l3 a)"

definition r_modulus :: nat where
  "r_modulus = 0x73eda753299d7d483339d80809a1d80553bda402fffe5bfeffffffff00000001"

text \<open>\<open>adc\<close>: the sum is returned, the carry is an in-out reference; the model returns both.\<close>

definition adc :: "ulong \<Rightarrow> ulong \<Rightarrow> ulong \<Rightarrow> ulong \<times> ulong" where
  "adc a b carry =
     (let sum = a + b + carry
      in (sum, if sum < a \<or> (carry \<noteq> 0 \<and> sum = a) then 1 else 0))"

text \<open>\<open>mul64\<close>: returns the low word; the high word is written through \<open>hi\<close>.\<close>

definition mul64 :: "ulong \<Rightarrow> ulong \<Rightarrow> ulong \<times> ulong" where
  "mul64 a b =
     (let a_lo = a AND 0xFFFFFFFF;
          a_hi = drop_bit 32 a;
          b_lo = b AND 0xFFFFFFFF;
          b_hi = drop_bit 32 b;
          p0 = a_lo * b_lo;
          p1 = a_lo * b_hi;
          p2 = a_hi * b_lo;
          p3 = a_hi * b_hi;
          mid = p1 + p2;
          mid_carry = (if mid < p1 then 1 else 0);
          lo = p0 + push_bit 32 mid;
          lo_carry = (if lo < p0 then 1 else 0);
          hi = p3 + drop_bit 32 mid + push_bit 32 mid_carry + lo_carry
      in (lo, hi))"

text \<open>\<open>mac\<close>: returns the low word of \<open>a * b + c\<close> and adds the high word to \<open>hi\<close>.\<close>

definition mac :: "ulong \<Rightarrow> ulong \<Rightarrow> ulong \<Rightarrow> ulong \<Rightarrow> ulong \<times> ulong" where
  "mac a b c hi =
     (let (prod_lo, prod_hi) = mul64 a b;
          sum = prod_lo + c;
          sum_carry = (if sum < prod_lo then 1 else 0)
      in (sum, hi + (prod_hi + sum_carry)))"

text \<open>\<open>fr_reduce\<close>: one conditional subtraction of the modulus.\<close>

definition fr_ge_modulus :: "Fr \<Rightarrow> bool" where
  "fr_ge_modulus a =
     (if l3 a > MODULUS_w then True
      else if l3 a = MODULUS_w then
        (if l2 a > MODULUS_z then True
         else if l2 a = MODULUS_z then
           (if l1 a > MODULUS_y then True
            else if l1 a = MODULUS_y then l0 a \<ge> MODULUS_x
            else False)
         else False)
      else False)"

definition fr_reduce :: "Fr \<Rightarrow> Fr" where
  "fr_reduce a =
     (if fr_ge_modulus a then
        (let borrow = 0;
             d0 = l0 a - MODULUS_x - borrow;
             borrow = (if l0 a < MODULUS_x + borrow then 1 else 0);
             d1 = l1 a - MODULUS_y - borrow;
             borrow = (if l1 a < MODULUS_y + borrow then 1 else 0);
             d2 = l2 a - MODULUS_z - borrow;
             borrow = (if l2 a < MODULUS_z + borrow then 1 else 0);
             d3 = l3 a - MODULUS_w - borrow
         in \<lparr>l0 = d0, l1 = d1, l2 = d2, l3 = d3\<rparr>)
      else a)"

definition fr_add :: "Fr \<Rightarrow> Fr \<Rightarrow> Fr" where
  "fr_add a b =
     (let carry = 0;
          (r0, carry) = adc (l0 a) (l0 b) carry;
          (r1, carry) = adc (l1 a) (l1 b) carry;
          (r2, carry) = adc (l2 a) (l2 b) carry;
          (r3, carry) = adc (l3 a) (l3 b) carry
      in fr_reduce \<lparr>l0 = r0, l1 = r1, l2 = r2, l3 = r3\<rparr>)"

definition fr_sub :: "Fr \<Rightarrow> Fr \<Rightarrow> Fr" where
  "fr_sub a b =
     (let diff0 = l0 a - l0 b;
          borrow = (if l0 a < l0 b then 1 else 0);
          diff1 = l1 a - l1 b - borrow;
          borrow = (if l1 a < l1 b + borrow then 1 else 0);
          diff2 = l2 a - l2 b - borrow;
          borrow = (if l2 a < l2 b + borrow then 1 else 0);
          diff3 = l3 a - l3 b - borrow;
          borrow = (if l3 a < l3 b + borrow then (1::ulong) else 0)
      in if borrow \<noteq> 0 then
           (let carry = 0;
                (r0, carry) = adc diff0 MODULUS_x carry;
                (r1, carry) = adc diff1 MODULUS_y carry;
                (r2, carry) = adc diff2 MODULUS_z carry;
                (r3, carry) = adc diff3 MODULUS_w carry
            in \<lparr>l0 = r0, l1 = r1, l2 = r2, l3 = r3\<rparr>)
         else \<lparr>l0 = diff0, l1 = diff1, l2 = diff2, l3 = diff3\<rparr>)"


text \<open>
  The idiom that \<open>fr_mul\<close> repeats for every limb:
  \<^verbatim>\<open>hi = 0; lo = mac(x, y, c, hi); lo += carry; if (lo < carry) hi++;\<close>
  It yields the low word and the new carry of \<open>x * y + c + carry\<close>.
\<close>

definition mac_carry :: "ulong \<Rightarrow> ulong \<Rightarrow> ulong \<Rightarrow> ulong \<Rightarrow> ulong \<times> ulong" where
  "mac_carry x y c carry =
     (let (lo, hi) = mac x y c 0;
          lo = lo + carry;
          hi = (if lo < carry then hi + 1 else hi)
      in (lo, hi))"

text \<open>The inner loop of \<open>fr_mul\<close>: \<open>for (j = 0; j < 4; j++)\<close>, adding \<open>a * b[i]\<close> to \<open>t\<close>.\<close>

function fr_mul_inner ::
  "Fr \<Rightarrow> Fr \<Rightarrow> nat \<Rightarrow> nat \<Rightarrow> ulong list \<Rightarrow> ulong \<Rightarrow> ulong list \<times> ulong" where
  "fr_mul_inner a b i j t carry =
     (if j < 4 then
        (let (lo, hi) = mac_carry (l a j) (l b i) (t ! (i + j)) carry
         in fr_mul_inner a b i (j + 1) (t[i + j := lo]) hi)
      else (t, carry))"
  by pat_completeness auto
termination
  by (relation "measure (\<lambda>(a, b, i, j, t, carry). 4 - j)") auto

declare fr_mul_inner.simps [simp del]

text \<open>One iteration of the outer loop: the multiplication row, then the Montgomery
  reduction step that adds \<open>m * MODULUS\<close> shifted by \<open>i\<close> limbs.\<close>

definition fr_mul_round :: "Fr \<Rightarrow> Fr \<Rightarrow> nat \<Rightarrow> ulong list \<Rightarrow> ulong list" where
  "fr_mul_round a b i t =
     (let (t, carry) = fr_mul_inner a b i 0 t 0;
          t = t[i + 4 := t ! (i + 4) + carry];
          m = t ! i * INV;
          (lo, hi) = mac m MODULUS_x (t ! i) 0;
          carry = hi;
          (lo, hi) = mac_carry m MODULUS_y (t ! (i + 1)) carry;
          t = t[i + 1 := lo];
          carry = hi;
          (lo, hi) = mac_carry m MODULUS_z (t ! (i + 2)) carry;
          t = t[i + 2 := lo];
          carry = hi;
          (lo, hi) = mac_carry m MODULUS_w (t ! (i + 3)) carry;
          t = t[i + 3 := lo];
          carry = hi;
          t = t[i + 4 := t ! (i + 4) + carry]
      in if t ! (i + 4) < carry \<and> i + 5 < 8 then t[i + 5 := t ! (i + 5) + 1] else t)"

function fr_mul_outer :: "Fr \<Rightarrow> Fr \<Rightarrow> nat \<Rightarrow> ulong list \<Rightarrow> ulong list" where
  "fr_mul_outer a b i t =
     (if i < 4 then fr_mul_outer a b (i + 1) (fr_mul_round a b i t) else t)"
  by pat_completeness auto
termination
  by (relation "measure (\<lambda>(a, b, i, t). 4 - i)") auto

declare fr_mul_outer.simps [simp del]

text \<open>Montgomery multiplication (CIOS): the result is read from \<open>t[4..7]\<close> and reduced once.\<close>

definition fr_mul :: "Fr \<Rightarrow> Fr \<Rightarrow> Fr" where
  "fr_mul a b =
     (let t = fr_mul_outer a b 0 [0, 0, 0, 0, 0, 0, 0, 0]
      in fr_reduce \<lparr>l0 = t ! 4, l1 = t ! 5, l2 = t ! 6, l3 = t ! 7\<rparr>)"

subsection \<open>Auxiliary notions for the correctness proof of \<open>fr_mul\<close>\<close>

text \<open>The integer held by the four limbs \<open>t[i..i+3]\<close>.\<close>

definition win :: "ulong list \<Rightarrow> nat \<Rightarrow> nat" where
  "win t i = unat (t ! i) + 2 ^ 64 * unat (t ! (i + 1)) + 2 ^ 128 * unat (t ! (i + 2))
     + 2 ^ 192 * unat (t ! (i + 3))"

text \<open>The integer held by the lowest \<open>i\<close> limbs of \<open>b\<close>.\<close>

fun bpre :: "Fr \<Rightarrow> nat \<Rightarrow> nat" where
  "bpre b 0 = 0"
| "bpre b (Suc i) = bpre b i + 2 ^ (64 * i) * unat (l b i)"

text \<open>The loop invariant of the outer loop of \<open>fr_mul\<close> before iteration \<open>i\<close>.\<close>

definition mul_inv :: "Fr \<Rightarrow> Fr \<Rightarrow> nat \<Rightarrow> ulong list \<Rightarrow> bool" where
  "mul_inv a b i t \<longleftrightarrow>
     length t = 8 \<and> (\<forall>k. i + 4 \<le> k \<longrightarrow> k < 8 \<longrightarrow> t ! k = 0) \<and>
     win t i < fr_val a + r_modulus \<and>
     (\<exists>M. 2 ^ (64 * i) * win t i = fr_val a * bpre b i + M * r_modulus)"

text \<open>\<open>2^(-256) mod r\<close>, the inverse of the Montgomery radix.\<close>

definition mont_R_inv :: nat where
  "mont_R_inv = 0x1bbe869330009d577204078a4f77266aab6fca8f09dc705f13f75b69fe75c040"

section \<open>The FFT kernels (kzg\_kernels.metal)\<close>

text \<open>
  The kernels work on a buffer of field elements through \<open>fr_mul\<close>, \<open>fr_add\<close> and
  \<open>fr_sub\<close>. The model takes the three operations as a record, so that the index
  structure of a kernel can be stated once; \<open>metal_ops\<close> is the record the shipped
  kernels use. \<open>inv_of_n\<close> stands for the host's \<open>fr_from_uint64\<close> followed by
  \<open>blst_fr_eucl_inverse\<close> (external library): the field element \<open>1/n\<close>.
\<close>

record 'a field_ops =
  mul :: "'a \<Rightarrow> 'a \<Rightarrow> 'a"
  add :: "'a \<Rightarrow> 'a \<Rightarrow> 'a"
  sub :: "'a \<Rightarrow> 'a \<Rightarrow> 'a"
  inv_of_n :: "nat \<Rightarrow> 'a"

definition metal_ops :: "(nat \<Rightarrow> Fr) \<Rightarrow> Fr field_ops" where
  "metal_ops inv_n = \<lparr>mul = fr_mul, add = fr_add, sub = fr_sub, inv_of_n = inv_n\<rparr>"

text \<open>
  A dispatch runs the kernel once for every thread position \<open>gid\<close> of the grid. The
  threads of one dispatch of these kernels read and write disjoint elements, so the
  model runs them one after the other in the order of their positions.
\<close>

definition dispatch :: "nat \<Rightarrow> (uint \<Rightarrow> 'a list \<Rightarrow> 'a list) \<Rightarrow> 'a list \<Rightarrow> 'a list" where
  "dispatch grid kern data = fold (\<lambda>g. kern (of_nat g)) [0..<grid] data"

text \<open>The loop of \<open>bit_reversal\<close>: \<open>for (uint i = 0; i < log_n; i++)\<close>.\<close>

function bit_reverse_loop :: "nat \<Rightarrow> nat \<Rightarrow> uint \<Rightarrow> uint \<Rightarrow> uint" where
  "bit_reverse_loop log_n i rev_acc val =
     (if i < log_n
      then bit_reverse_loop log_n (i + 1) (push_bit 1 rev_acc OR (val AND 1)) (drop_bit 1 val)
      else rev_acc)"
  by pat_completeness auto
termination
  by (relation "measure (\<lambda>(log_n, i, rev_acc, val). log_n - i)") auto

declare bit_reverse_loop.simps [simp del]

text \<open>The index that the loop computes for the thread at position \<open>i\<close>, as a number.\<close>

definition reverse_bits :: "nat \<Rightarrow> nat \<Rightarrow> nat" where
  "reverse_bits i log_n = unat (bit_reverse_loop log_n 0 0 (of_nat i))"

text \<open>The kernel \<open>bit_reversal\<close>, for the thread at \<open>gid\<close>.\<close>

definition bit_reversal :: "uint \<Rightarrow> uint \<Rightarrow> uint \<Rightarrow> 'a list \<Rightarrow> 'a list" where
  "bit_reversal n log_n gid data =
     (if gid \<ge> n then data
      else
        (let rev_idx = bit_reverse_loop (unat log_n) 0 0 gid
         in if gid < rev_idx \<and> rev_idx < n
            then data[unat gid := data ! unat rev_idx, unat rev_idx := data ! unat gid]
            else data))"

text \<open>The kernel \<open>scale_elements\<close>.\<close>

definition scale_elements :: "'a field_ops \<Rightarrow> 'a \<Rightarrow> uint \<Rightarrow> uint \<Rightarrow> 'a list \<Rightarrow> 'a list" where
  "scale_elements ops scale n gid data =
     (if gid \<ge> n then data
      else data[unat gid := mul ops (data ! unat gid) scale])"

text \<open>
  The kernel \<open>fft_radix2_stage\<close>. \<open>1u << stage\<close> and \<open>roots_stride_base >> stage\<close> are
  shifts of 32-bit values; the host only passes \<open>stage < log_n \<le> 31\<close>.
\<close>

definition fft_radix2_stage ::
  "'a field_ops \<Rightarrow> 'a list \<Rightarrow> uint \<Rightarrow> uint \<Rightarrow> uint \<Rightarrow> uint \<Rightarrow> 'a list \<Rightarrow> 'a list" where
  "fft_radix2_stage ops roots n stage roots_stride_base gid data =
     (let half_n = push_bit (unat stage) (1 :: uint);
          block_size = half_n * 2;
          num_butterflies = n div 2
      in if gid \<ge> num_butterflies then data
         else
           (let block_idx = gid div half_n;
                idx_in_block = gid mod half_n;
                i = block_idx * block_size + idx_in_block;
                j = i + half_n;
                roots_stride = drop_bit (unat stage) roots_stride_base;
                root_idx = idx_in_block * roots_stride;
                w = roots ! unat root_idx;
                a = data ! unat i;
                b = data ! unat j;
                wb = mul ops w b
            in data[unat i := add ops a wb, unat j := sub ops a wb]))"

section \<open>The host side (metal\_runtime.m)\<close>

datatype C_KZG_RET = C_KZG_OK | C_KZG_BADARGS | C_KZG_ERROR | C_KZG_MALLOC

definition MIN_GPU_FFT_SIZE :: nat where "MIN_GPU_FFT_SIZE = 256"

text \<open>\<open>log2_uint\<close>: \<open>while (n > 1) { n >>= 1; result++; }\<close>.\<close>

function log2_uint_loop :: "uint \<Rightarrow> uint \<Rightarrow> uint" where
  "log2_uint_loop n result =
     (if n > 1 then log2_uint_loop (drop_bit 1 n) (result + 1) else result)"
  by pat_completeness auto
termination
proof (relation "measure (\<lambda>(n, result). unat n)")
  show "wf (measure (\<lambda>(n :: uint, result :: uint). unat n))" by simp
next
  fix n result :: uint
  assume "1 < n"
  then have "0 < unat n" by (simp add: word_less_nat_alt)
  then have "unat n div 2 < unat n" by simp
  then show "((drop_bit 1 n, result + 1), (n, result)) \<in> measure (\<lambda>(n, result). unat n)"
    by (simp add: unat_drop_bit_eq) (simp add: drop_bit_eq_div)
qed

declare log2_uint_loop.simps [simp del]

definition log2_uint :: "uint \<Rightarrow> uint" where
  "log2_uint n = log2_uint_loop n 0"

text \<open>
  What the Metal runtime answers to the requests of one call: whether the two buffers,
  the temporary array and the command buffer could be created, and whether the command
  buffer completed without error. A \<open>NULL\<close> context is \<open>None\<close>.
\<close>

record MetalContext =
  data_buffer_ok :: bool
  roots_malloc_ok :: bool
  roots_buffer_ok :: bool
  command_buffer_ok :: bool
  command_status_ok :: bool

text \<open>The stages \<open>stage, stage + 1, ..., log_n - 1\<close>, each one dispatch of \<open>n / 2\<close> threads.\<close>

function fft_stages ::
  "'a field_ops \<Rightarrow> 'a list \<Rightarrow> nat \<Rightarrow> uint \<Rightarrow> uint \<Rightarrow> 'a list \<Rightarrow> 'a list" where
  "fft_stages ops roots n log_n stage data =
     (if stage < log_n
      then fft_stages ops roots n log_n (stage + 1)
             (dispatch (n div 2)
                (fft_radix2_stage ops roots (of_nat n) stage (of_nat (n div 2))) data)
      else data)"
  by pat_completeness auto
termination
proof (relation "measure (\<lambda>(ops, roots, n, log_n, stage, data). unat log_n - unat stage)")
  show "wf (measure (\<lambda>(ops :: 'a field_ops, roots :: 'a list, n :: nat, log_n :: uint,
      stage :: uint, data :: 'a list). unat log_n - unat stage))" by simp
next
  fix ops :: "'a field_ops" and roots data :: "'a list" and n :: nat and log_n stage :: uint
  assume lt: "stage < log_n"
  then have "unat stage < unat log_n" by (simp add: word_less_nat_alt)
  moreover have "unat log_n < 2 ^ 32"
    using unsigned_less [of log_n, where ?'a = nat] by simp
  ultimately have "unat (stage + 1) = unat stage + 1"
    by (simp add: unat_word_ariths)
  with \<open>unat stage < unat log_n\<close>
  show "((ops, roots, n, log_n, stage + 1,
          dispatch (n div 2) (fft_radix2_stage ops roots (of_nat n) stage (of_nat (n div 2))) data),
         (ops, roots, n, log_n, stage, data))
        \<in> measure (\<lambda>(ops, roots, n, log_n, stage, data). unat log_n - unat stage)"
    by simp
qed

declare fft_stages.simps [simp del]

text \<open>
  The command buffer of \<open>metal_fr_fft\<close>: the bit-reversal dispatch (\<open>n\<close> threads), the
  \<open>log_n\<close> stage dispatches, and for the inverse transform the scaling dispatch.
  \<open>n_uint = (uint32_t)n\<close> is what the kernels receive.
\<close>

definition metal_fft_commands :: "'a field_ops \<Rightarrow> 'a list \<Rightarrow> nat \<Rightarrow> bool \<Rightarrow> 'a list \<Rightarrow> 'a list" where
  "metal_fft_commands ops roots_contiguous n inv_fft data =
     (let log_n = log2_uint (of_nat n);
          data = dispatch n (bit_reversal (of_nat n) log_n) data;
          data = fft_stages ops roots_contiguous n log_n 0 data
      in if inv_fft
         then dispatch n (scale_elements ops (inv_of_n ops n) (of_nat n)) data
         else data)"

text \<open>
  \<open>metal_fr_fft\<close>. The pointers \<open>ctx\<close>, \<open>in\<close> and \<open>roots\<close> are \<open>None\<close> when \<open>NULL\<close>, and
  \<open>out_null\<close> says whether \<open>out\<close> is; \<open>inv_fft\<close> is the flag \<open>inverse\<close>. The result is the returned code, or on
  \<open>C_KZG_OK\<close> the \<open>n\<close> elements copied to \<open>out\<close>; \<open>out\<close> is written in no other case.
  The caller has to supply \<open>n\<close> input elements and the roots at \<open>i * roots_stride\<close> for
  \<open>i < n\<close>; the code reads them without a check.
\<close>

definition metal_fr_fft ::
  "'a field_ops \<Rightarrow> MetalContext option \<Rightarrow> bool \<Rightarrow> 'a list option \<Rightarrow> nat \<Rightarrow> 'a list option
     \<Rightarrow> nat \<Rightarrow> bool \<Rightarrow> C_KZG_RET + 'a list" where
  "metal_fr_fft ops ctx out_null inp n roots roots_stride inv_fft =
     (case (ctx, inp, roots) of
        (Some c, Some input, Some rts) \<Rightarrow>
          if out_null then Inl C_KZG_BADARGS
          else if n < MIN_GPU_FFT_SIZE then Inl C_KZG_ERROR
          else if \<not> data_buffer_ok c then Inl C_KZG_MALLOC
          else if \<not> roots_malloc_ok c then Inl C_KZG_MALLOC
          else
            (let roots_contiguous = map (\<lambda>i. rts ! (i * roots_stride)) [0..<n]
             in if \<not> roots_buffer_ok c then Inl C_KZG_MALLOC
                else if \<not> command_buffer_ok c then Inl C_KZG_ERROR
                else if \<not> command_status_ok c then Inl C_KZG_ERROR
                else Inr (metal_fft_commands ops roots_contiguous n inv_fft (take n input)))
      | _ \<Rightarrow> Inl C_KZG_BADARGS)"

section \<open>Serialization of the trusted-setup settings (settings.c)\<close>

subsection \<open>Platform and memory\<close>

type_synonym byte = "8 word"

text \<open>A pointer is an address, or \<open>None\<close> for \<open>NULL\<close>.\<close>

type_synonym ptr = "nat option"

text \<open>
  What the code depends on but does not define: the platform (byte order, the sizes of
  pointers and of \<open>size_t\<close>) and the constants and element sizes that come from headers
  outside this file. They are parameters of the model.
\<close>

record platform =
  little_endian :: bool
  sizeof_ptr :: nat
  sizeof_size_t :: nat
  FIELD_ELEMENTS_PER_EXT_BLOB :: nat
  FIELD_ELEMENTS_PER_BLOB :: nat
  CELLS_PER_EXT_BLOB :: nat
  FIELD_ELEMENTS_PER_CELL :: nat
  sizeof_fr_t :: nat
  sizeof_g1_t :: nat
  sizeof_g2_t :: nat

definition ENDIANNESS_BIG :: byte where "ENDIANNESS_BIG = 1"
definition ENDIANNESS_LITTLE :: byte where "ENDIANNESS_LITTLE = 2"

definition FEPEB0 :: "platform \<Rightarrow> nat" where
  "FEPEB0 p = FIELD_ELEMENTS_PER_EXT_BLOB p + 0"

definition FEPEB1 :: "platform \<Rightarrow> nat" where
  "FEPEB1 p = FIELD_ELEMENTS_PER_EXT_BLOB p + 1"

definition NUM_G1_POINTS :: "platform \<Rightarrow> nat" where
  "NUM_G1_POINTS p = FIELD_ELEMENTS_PER_BLOB p"

definition NUM_G2_POINTS :: nat where "NUM_G2_POINTS = 65"

text \<open>
  The heap: every live block is an array of bytes or an array of pointers. \<open>next_addr\<close>
  is the address the next allocation gets (addresses are not reused), and \<open>avail\<close> is the
  number of allocations that will still succeed, so that an allocation can fail at any
  point of a call.
\<close>

datatype block = Bytes "byte list" | Ptrs "ptr list"

record heap =
  cells :: "nat \<Rightarrow> block option"
  next_addr :: nat
  avail :: nat

text \<open>Reading \<open>n\<close> bytes at \<open>p + off\<close>; \<open>None\<close> is a read outside a live byte block.\<close>

definition read_bytes :: "heap \<Rightarrow> ptr \<Rightarrow> nat \<Rightarrow> nat \<Rightarrow> byte list option" where
  "read_bytes h p off n =
     (case p of
        None \<Rightarrow> None
      | Some a \<Rightarrow>
          (case cells h a of
             Some (Bytes bs) \<Rightarrow> if off + n \<le> length bs then Some (take n (drop off bs)) else None
           | _ \<Rightarrow> None))"

text \<open>\<open>memcpy(p, bs, length bs)\<close> into a live byte block.\<close>

definition write_bytes :: "heap \<Rightarrow> ptr \<Rightarrow> byte list \<Rightarrow> heap option" where
  "write_bytes h p bs =
     (case p of
        None \<Rightarrow> None
      | Some a \<Rightarrow>
          (case cells h a of
             Some (Bytes old) \<Rightarrow>
               if length bs \<le> length old
               then Some (h\<lparr>cells := (cells h)(a \<mapsto> Bytes (bs @ drop (length bs) old))\<rparr>)
               else None
           | _ \<Rightarrow> None))"

text \<open>Reading and writing the element \<open>arr[i]\<close> of an array of pointers.\<close>

definition load_ptr :: "heap \<Rightarrow> ptr \<Rightarrow> nat \<Rightarrow> ptr option" where
  "load_ptr h arr i =
     (case arr of
        None \<Rightarrow> None
      | Some a \<Rightarrow>
          (case cells h a of
             Some (Ptrs ps) \<Rightarrow> if i < length ps then Some (ps ! i) else None
           | _ \<Rightarrow> None))"

definition store_ptr :: "heap \<Rightarrow> ptr \<Rightarrow> nat \<Rightarrow> ptr \<Rightarrow> heap option" where
  "store_ptr h arr i p =
     (case arr of
        None \<Rightarrow> None
      | Some a \<Rightarrow>
          (case cells h a of
             Some (Ptrs ps) \<Rightarrow>
               if i < length ps then Some (h\<lparr>cells := (cells h)(a \<mapsto> Ptrs (ps[i := p]))\<rparr>)
               else None
           | _ \<Rightarrow> None))"

text \<open>
  Modelled from the spec: the allocation helpers \<open>c_kzg_malloc\<close>, \<open>c_kzg_calloc\<close>,
  \<open>new_fr_array\<close>, \<open>new_g1_array\<close>, \<open>new_g2_array\<close> and the macro \<open>c_kzg_free\<close> are not
  among the sources. An allocation returns \<open>C_KZG_OK\<close> and a fresh block, or leaves the
  pointer \<open>NULL\<close> and returns \<open>C_KZG_MALLOC\<close> when the allocation fails (the spec's
  return code for "allocation failed"); a request for zero bytes is rejected as
  \<open>C_KZG_BADARGS\<close>. \<open>c_kzg_free\<close> releases the block and resets the pointer it is given
  to \<open>NULL\<close>; on \<open>NULL\<close> it does nothing (the cleanup "tolerates null sub-pointers").
  Freeing an address that is not live is undefined and modelled as \<open>None\<close>.
\<close>

definition alloc_block :: "heap \<Rightarrow> block \<Rightarrow> C_KZG_RET \<times> ptr \<times> heap" where
  "alloc_block h b =
     (if avail h = 0 then (C_KZG_MALLOC, None, h)
      else (C_KZG_OK, Some (next_addr h),
            h\<lparr>cells := (cells h)(next_addr h \<mapsto> b),
              next_addr := next_addr h + 1,
              avail := avail h - 1\<rparr>))"

definition c_kzg_malloc :: "heap \<Rightarrow> nat \<Rightarrow> C_KZG_RET \<times> ptr \<times> heap" where
  "c_kzg_malloc h sz =
     (if sz = 0 then (C_KZG_BADARGS, None, h)
      else alloc_block h (Bytes (replicate sz 0)))"

definition c_kzg_calloc :: "heap \<Rightarrow> nat \<Rightarrow> nat \<Rightarrow> C_KZG_RET \<times> ptr \<times> heap" where
  "c_kzg_calloc h cnt sz =
     (if cnt = 0 \<or> sz = 0 then (C_KZG_BADARGS, None, h)
      else alloc_block h (Bytes (replicate (cnt * sz) 0)))"

text \<open>\<open>c_kzg_calloc\<close> for an array of \<open>cnt\<close> pointers: zeroed memory reads as \<open>NULL\<close>.\<close>

definition c_kzg_calloc_ptrs :: "heap \<Rightarrow> nat \<Rightarrow> nat \<Rightarrow> C_KZG_RET \<times> ptr \<times> heap" where
  "c_kzg_calloc_ptrs h cnt sz =
     (if cnt = 0 \<or> sz = 0 then (C_KZG_BADARGS, None, h)
      else alloc_block h (Ptrs (replicate cnt None)))"

definition new_fr_array :: "platform \<Rightarrow> heap \<Rightarrow> nat \<Rightarrow> C_KZG_RET \<times> ptr \<times> heap" where
  "new_fr_array p h n = c_kzg_calloc h n (sizeof_fr_t p)"

definition new_g1_array :: "platform \<Rightarrow> heap \<Rightarrow> nat \<Rightarrow> C_KZG_RET \<times> ptr \<times> heap" where
  "new_g1_array p h n = c_kzg_calloc h n (sizeof_g1_t p)"

definition new_g2_array :: "platform \<Rightarrow> heap \<Rightarrow> nat \<Rightarrow> C_KZG_RET \<times> ptr \<times> heap" where
  "new_g2_array p h n = c_kzg_calloc h n (sizeof_g2_t p)"

definition c_kzg_free :: "heap \<Rightarrow> ptr \<Rightarrow> heap option" where
  "c_kzg_free h p =
     (case p of
        None \<Rightarrow> Some h
      | Some a \<Rightarrow>
          (case cells h a of
             None \<Rightarrow> None
           | Some b \<Rightarrow> Some (h\<lparr>cells := (cells h)(a := None)\<rparr>)))"

subsection \<open>The header and the encoding of \<open>size_t\<close>\<close>

record header_t =
  magic :: "byte list"
  version :: byte
  endianness :: byte
  wordsize :: byte

definition sizeof_header_t :: nat where "sizeof_header_t = 7"

text \<open>The bytes of a header in memory, and the header that seven bytes of memory hold.\<close>

definition header_bytes :: "header_t \<Rightarrow> byte list" where
  "header_bytes hdr = take 4 (magic hdr) @ [version hdr, endianness hdr, wordsize hdr]"

definition header_of_bytes :: "byte list \<Rightarrow> header_t" where
  "header_of_bytes bs =
     \<lparr>magic = take 4 bs, version = bs ! 4, endianness = bs ! 5, wordsize = bs ! 6\<rparr>"

text \<open>The string \<open>"KZG\\0"\<close>.\<close>

definition KZG_MAGIC :: "byte list" where
  "KZG_MAGIC = [0x4B, 0x5A, 0x47, 0x00]"

definition get_endianness :: "platform \<Rightarrow> byte" where
  "get_endianness p = (if little_endian p then ENDIANNESS_LITTLE else ENDIANNESS_BIG)"

definition get_wordsize :: "platform \<Rightarrow> byte" where
  "get_wordsize p = of_nat (sizeof_ptr p)"

text \<open>A \<open>size_t\<close> in memory: \<open>sizeof_size_t\<close> bytes in the byte order of the platform.\<close>

definition le_bytes :: "nat \<Rightarrow> nat \<Rightarrow> byte list" where
  "le_bytes w v = map (\<lambda>i. of_nat (v div 256 ^ i)) [0..<w]"

definition le_value :: "byte list \<Rightarrow> nat" where
  "le_value bs = foldr (\<lambda>b acc. unat b + 256 * acc) bs 0"

definition size_t_bytes :: "platform \<Rightarrow> nat \<Rightarrow> byte list" where
  "size_t_bytes p v =
     (if little_endian p then le_bytes (sizeof_size_t p) v
      else rev (le_bytes (sizeof_size_t p) v))"

definition size_t_of_bytes :: "platform \<Rightarrow> byte list \<Rightarrow> nat" where
  "size_t_of_bytes p bs = le_value (if little_endian p then bs else rev bs)"

subsection \<open>The settings object\<close>

record KZGSettings =
  roots_of_unity :: ptr
  brp_roots_of_unity :: ptr
  reverse_roots_of_unity :: ptr
  g1_values_monomial :: ptr
  g1_values_lagrange_brp :: ptr
  g2_values_monomial :: ptr
  x_ext_fft_columns :: ptr
  tables :: ptr
  wbits :: nat
  scratch_size :: nat
  table_size :: nat

text \<open>\<open>init_settings\<close> writes every field; the model returns the initialized object.\<close>

definition init_settings :: KZGSettings where
  "init_settings =
     \<lparr>roots_of_unity = None, brp_roots_of_unity = None, reverse_roots_of_unity = None,
      g1_values_monomial = None, g1_values_lagrange_brp = None, g2_values_monomial = None,
      x_ext_fft_columns = None, tables = None, wbits = 0, scratch_size = 0, table_size = 0\<rparr>"

text \<open>
  \<open>compute_serialized_size\<close>. The sizes are \<open>size_t\<close> values; the model computes in
  \<open>nat\<close>, as the sum is the size of memory that the settings occupy.
\<close>

definition compute_serialized_size :: "platform \<Rightarrow> KZGSettings \<Rightarrow> nat" where
  "compute_serialized_size p s =
     sizeof_header_t
     + sizeof_size_t p
     + sizeof_size_t p
     + sizeof_size_t p
     + FEPEB1 p * sizeof_fr_t p
     + FEPEB0 p * sizeof_fr_t p
     + FEPEB1 p * sizeof_fr_t p
     + NUM_G1_POINTS p * sizeof_g1_t p
     + NUM_G1_POINTS p * sizeof_g1_t p
     + NUM_G2_POINTS * sizeof_g2_t p
     + CELLS_PER_EXT_BLOB p * FIELD_ELEMENTS_PER_CELL p * sizeof_g1_t p
     + (if wbits s \<noteq> 0 \<and> tables s \<noteq> None then CELLS_PER_EXT_BLOB p * table_size s else 0)"

subsection \<open>\<open>free_settings\<close>\<close>

text \<open>
  The loops \<open>for (i = 0; i < CELLS_PER_EXT_BLOB; i++) c_kzg_free(arr[i]);\<close> of
  \<open>free_settings\<close>: the element is released and reset to \<open>NULL\<close>.
\<close>

function free_rows :: "heap \<Rightarrow> ptr \<Rightarrow> nat \<Rightarrow> nat \<Rightarrow> heap option" where
  "free_rows h arr n i =
     (if i < n then
        (case load_ptr h arr i of
           None \<Rightarrow> None
         | Some q \<Rightarrow>
             (case c_kzg_free h q of
                None \<Rightarrow> None
              | Some h1 \<Rightarrow>
                  (case store_ptr h1 arr i None of
                     None \<Rightarrow> None
                   | Some h2 \<Rightarrow> free_rows h2 arr n (i + 1))))
      else Some h)"
  by pat_completeness auto
termination
  by (relation "measure (\<lambda>(h, arr, n, i). n - i)") auto

declare free_rows.simps [simp del]

text \<open>
  \<open>free_settings\<close> on a settings object (the \<open>NULL\<close> object, for which it returns at
  once, is not a value of the model). \<open>None\<close> is an invalid \<open>free\<close> or read; the calls are
  chained with \<open>Option.bind\<close>, so the first invalid one ends the run.
\<close>

definition free_settings :: "platform \<Rightarrow> heap \<Rightarrow> KZGSettings \<Rightarrow> (KZGSettings \<times> heap) option" where
  "free_settings p h s =
     Option.bind (c_kzg_free h (brp_roots_of_unity s)) (\<lambda>h.
     Option.bind (c_kzg_free h (roots_of_unity s)) (\<lambda>h.
     Option.bind (c_kzg_free h (reverse_roots_of_unity s)) (\<lambda>h.
     Option.bind (c_kzg_free h (g1_values_monomial s)) (\<lambda>h.
     Option.bind (c_kzg_free h (g1_values_lagrange_brp s)) (\<lambda>h.
     Option.bind (c_kzg_free h (g2_values_monomial s)) (\<lambda>h.
     Option.bind (if x_ext_fft_columns s \<noteq> None
                  then free_rows h (x_ext_fft_columns s) (CELLS_PER_EXT_BLOB p) 0
                  else Some h) (\<lambda>h.
     Option.bind (if tables s \<noteq> None
                  then free_rows h (tables s) (CELLS_PER_EXT_BLOB p) 0
                  else Some h) (\<lambda>h.
     Option.bind (c_kzg_free h (x_ext_fft_columns s)) (\<lambda>h.
     Option.bind (c_kzg_free h (tables s)) (\<lambda>h.
       Some (s\<lparr>brp_roots_of_unity := None, roots_of_unity := None,
               reverse_roots_of_unity := None, g1_values_monomial := None,
               g1_values_lagrange_brp := None, g2_values_monomial := None,
               x_ext_fft_columns := None, tables := None,
               wbits := 0, scratch_size := 0, table_size := 0\<rparr>, h)))))))))))"

subsection \<open>\<open>serialize_settings\<close>\<close>

text \<open>The contents of the rows \<open>arr[0], ..., arr[n - 1]\<close>, each of \<open>nbytes\<close> bytes.\<close>

definition read_rows :: "heap \<Rightarrow> ptr \<Rightarrow> nat \<Rightarrow> nat \<Rightarrow> byte list option list" where
  "read_rows h arr n nbytes =
     map (\<lambda>i. case load_ptr h arr i of None \<Rightarrow> None | Some q \<Rightarrow> read_bytes h q 0 nbytes) [0..<n]"

text \<open>
  The sources of the \<open>WRITE\<close>s of \<open>serialize_settings\<close>, in their order: the header, the
  three sizes, the six flat arrays, the columns and, under the guard
  \<open>s->wbits != 0 && s->tables\<close>, the tables. An entry \<open>None\<close> is an invalid read.
\<close>

definition serialize_fields :: "platform \<Rightarrow> heap \<Rightarrow> KZGSettings \<Rightarrow> byte list option list" where
  "serialize_fields p h s =
     [Some (header_bytes \<lparr>magic = KZG_MAGIC, version = 1,
                          endianness = get_endianness p, wordsize = get_wordsize p\<rparr>),
      Some (size_t_bytes p (wbits s)),
      Some (size_t_bytes p (scratch_size s)),
      Some (size_t_bytes p (table_size s)),
      read_bytes h (roots_of_unity s) 0 (FEPEB1 p * sizeof_fr_t p),
      read_bytes h (brp_roots_of_unity s) 0 (FEPEB0 p * sizeof_fr_t p),
      read_bytes h (reverse_roots_of_unity s) 0 (FEPEB1 p * sizeof_fr_t p),
      read_bytes h (g1_values_monomial s) 0 (NUM_G1_POINTS p * sizeof_g1_t p),
      read_bytes h (g1_values_lagrange_brp s) 0 (NUM_G1_POINTS p * sizeof_g1_t p),
      read_bytes h (g2_values_monomial s) 0 (NUM_G2_POINTS * sizeof_g2_t p)]
     @ read_rows h (x_ext_fft_columns s) (CELLS_PER_EXT_BLOB p)
         (FIELD_ELEMENTS_PER_CELL p * sizeof_g1_t p)
     @ (if wbits s \<noteq> 0 \<and> tables s \<noteq> None
        then read_rows h (tables s) (CELLS_PER_EXT_BLOB p) (table_size s)
        else [])"

text \<open>
  \<open>serialize_settings\<close> returns the code, \<open>*out\<close>, \<open>*out_len\<close> and the heap. \<open>None\<close> is an
  invalid read or a failed \<open>assert(total_size == offset)\<close>.
\<close>

definition serialize_settings ::
  "platform \<Rightarrow> heap \<Rightarrow> KZGSettings \<Rightarrow> (C_KZG_RET \<times> ptr \<times> nat \<times> heap) option" where
  "serialize_settings p h s =
     (let out_len = 0;
          total_size = compute_serialized_size p s;
          (ret, out, h1) = c_kzg_malloc h total_size
      in if ret \<noteq> C_KZG_OK then Some (ret, out, out_len, h1)
         else
           (case those (serialize_fields p h1 s) of
              None \<Rightarrow> None
            | Some fs \<Rightarrow>
                if length (concat fs) \<noteq> total_size then None
                else
                  (case write_bytes h1 out (concat fs) of
                     None \<Rightarrow> None
                   | Some h2 \<Rightarrow> Some (C_KZG_OK, out, total_size, h2))))"

subsection \<open>\<open>deserialize_settings\<close>\<close>

text \<open>
  After each step the function goes on with the settings built so far, the heap and
  the read offset, jumps to \<open>out_error\<close> with a code, or has read outside the input.
\<close>

datatype flow = Cont KZGSettings heap nat | Goto_error C_KZG_RET KZGSettings heap | Fault

text \<open>\<open>memcpy(&out->field, data + offset, sizeof(size_t)); offset += sizeof(size_t);\<close>\<close>

definition load_size_t ::
  "platform \<Rightarrow> ptr \<Rightarrow> (nat \<Rightarrow> KZGSettings \<Rightarrow> KZGSettings) \<Rightarrow> KZGSettings \<Rightarrow> heap \<Rightarrow> nat \<Rightarrow> flow" where
  "load_size_t p data upd out h offset =
     (case read_bytes h data offset (sizeof_size_t p) of
        None \<Rightarrow> Fault
      | Some bs \<Rightarrow> Cont (upd (size_t_of_bytes p bs) out) h (offset + sizeof_size_t p))"

text \<open>
  \<open>ret = new_..._array(&out->field, n); if (ret != C_KZG_OK) goto out_error;
  memcpy(out->field, data + offset, nbytes); offset += nbytes;\<close>
\<close>

definition load_array ::
  "ptr \<Rightarrow> (heap \<Rightarrow> C_KZG_RET \<times> ptr \<times> heap) \<Rightarrow> nat \<Rightarrow> (ptr \<Rightarrow> KZGSettings \<Rightarrow> KZGSettings)
     \<Rightarrow> KZGSettings \<Rightarrow> heap \<Rightarrow> nat \<Rightarrow> flow" where
  "load_array data alloc nbytes upd out h offset =
     (case alloc h of
        (ret, q, h1) \<Rightarrow>
          if ret \<noteq> C_KZG_OK then Goto_error ret (upd q out) h1
          else
            (case read_bytes h1 data offset nbytes of
               None \<Rightarrow> Fault
             | Some bs \<Rightarrow>
                 (case write_bytes h1 q bs of
                    None \<Rightarrow> Fault
                  | Some h2 \<Rightarrow> Cont (upd q out) h2 (offset + nbytes))))"

text \<open>
  The loops over the rows \<open>arr[i]\<close> of the columns and of the tables: allocate the row,
  copy \<open>nbytes\<close> bytes into it, advance the offset.
\<close>

function load_rows ::
  "ptr \<Rightarrow> (heap \<Rightarrow> C_KZG_RET \<times> ptr \<times> heap) \<Rightarrow> nat \<Rightarrow> ptr \<Rightarrow> nat \<Rightarrow> nat
     \<Rightarrow> KZGSettings \<Rightarrow> heap \<Rightarrow> nat \<Rightarrow> flow" where
  "load_rows data alloc nbytes arr n i out h offset =
     (if i < n then
        (case alloc h of
           (ret, q, h1) \<Rightarrow>
             (case store_ptr h1 arr i q of
                None \<Rightarrow> Fault
              | Some h2 \<Rightarrow>
                  if ret \<noteq> C_KZG_OK then Goto_error ret out h2
                  else
                    (case read_bytes h2 data offset nbytes of
                       None \<Rightarrow> Fault
                     | Some bs \<Rightarrow>
                         (case write_bytes h2 q bs of
                            None \<Rightarrow> Fault
                          | Some h3 \<Rightarrow>
                              load_rows data alloc nbytes arr n (i + 1) out h3 (offset + nbytes)))))
      else Cont out h offset)"
  by pat_completeness auto
termination
  by (relation "measure (\<lambda>(data, alloc, nbytes, arr, n, i, out, h, offset). n - i)") auto

declare load_rows.simps [simp del]

definition load_columns :: "platform \<Rightarrow> ptr \<Rightarrow> KZGSettings \<Rightarrow> heap \<Rightarrow> nat \<Rightarrow> flow" where
  "load_columns p data out h offset =
     (case c_kzg_calloc_ptrs h (CELLS_PER_EXT_BLOB p) (sizeof_ptr p) of
        (ret, q, h1) \<Rightarrow>
          if ret \<noteq> C_KZG_OK then Goto_error ret (out\<lparr>x_ext_fft_columns := q\<rparr>) h1
          else load_rows data (\<lambda>h. new_g1_array p h (FIELD_ELEMENTS_PER_CELL p))
                 (FIELD_ELEMENTS_PER_CELL p * sizeof_g1_t p) q (CELLS_PER_EXT_BLOB p) 0
                 (out\<lparr>x_ext_fft_columns := q\<rparr>) h1 offset)"

definition load_tables :: "platform \<Rightarrow> ptr \<Rightarrow> KZGSettings \<Rightarrow> heap \<Rightarrow> nat \<Rightarrow> flow" where
  "load_tables p data out h offset =
     (if wbits out \<noteq> 0 then
        (case c_kzg_calloc_ptrs h (CELLS_PER_EXT_BLOB p) (sizeof_ptr p) of
           (ret, q, h1) \<Rightarrow>
             if ret \<noteq> C_KZG_OK then Goto_error ret (out\<lparr>tables := q\<rparr>) h1
             else load_rows data (\<lambda>h. c_kzg_malloc h (table_size out)) (table_size out) q
                    (CELLS_PER_EXT_BLOB p) 0 (out\<lparr>tables := q\<rparr>) h1 offset)
      else Cont out h offset)"

text \<open>Running the steps in order, until one of them does not go on.\<close>

fun run_steps :: "(KZGSettings \<Rightarrow> heap \<Rightarrow> nat \<Rightarrow> flow) list \<Rightarrow> flow \<Rightarrow> flow" where
  "run_steps [] f = f"
| "run_steps (st # sts) (Cont out h offset) = run_steps sts (st out h offset)"
| "run_steps (st # sts) (Goto_error ret out h) = Goto_error ret out h"
| "run_steps (st # sts) Fault = Fault"

text \<open>The body of \<open>deserialize_settings\<close> after the header checks.\<close>

definition deserialize_steps :: "platform \<Rightarrow> ptr \<Rightarrow> (KZGSettings \<Rightarrow> heap \<Rightarrow> nat \<Rightarrow> flow) list" where
  "deserialize_steps p data =
     [load_size_t p data (\<lambda>v s. s\<lparr>wbits := v\<rparr>),
      load_size_t p data (\<lambda>v s. s\<lparr>scratch_size := v\<rparr>),
      load_size_t p data (\<lambda>v s. s\<lparr>table_size := v\<rparr>),
      load_array data (\<lambda>h. new_fr_array p h (FEPEB1 p)) (FEPEB1 p * sizeof_fr_t p)
        (\<lambda>q s. s\<lparr>roots_of_unity := q\<rparr>),
      load_array data (\<lambda>h. new_fr_array p h (FEPEB0 p)) (FEPEB0 p * sizeof_fr_t p)
        (\<lambda>q s. s\<lparr>brp_roots_of_unity := q\<rparr>),
      load_array data (\<lambda>h. new_fr_array p h (FEPEB1 p)) (FEPEB1 p * sizeof_fr_t p)
        (\<lambda>q s. s\<lparr>reverse_roots_of_unity := q\<rparr>),
      load_array data (\<lambda>h. new_g1_array p h (NUM_G1_POINTS p)) (NUM_G1_POINTS p * sizeof_g1_t p)
        (\<lambda>q s. s\<lparr>g1_values_monomial := q\<rparr>),
      load_array data (\<lambda>h. new_g1_array p h (NUM_G1_POINTS p)) (NUM_G1_POINTS p * sizeof_g1_t p)
        (\<lambda>q s. s\<lparr>g1_values_lagrange_brp := q\<rparr>),
      load_array data (\<lambda>h. new_g2_array p h NUM_G2_POINTS) (NUM_G2_POINTS * sizeof_g2_t p)
        (\<lambda>q s. s\<lparr>g2_values_monomial := q\<rparr>),
      load_columns p data,
      load_tables p data]"

text \<open>
  \<open>deserialize_settings\<close> returns the code, the object \<open>*out\<close> and the heap; \<open>None\<close> is a
  read outside the input buffer (the code checks \<open>data_len\<close> against the header only).
\<close>

definition deserialize_settings ::
  "platform \<Rightarrow> heap \<Rightarrow> ptr \<Rightarrow> nat \<Rightarrow> (C_KZG_RET \<times> KZGSettings \<times> heap) option" where
  "deserialize_settings p h data data_len =
     (let out = init_settings
      in if data_len < sizeof_header_t then Some (C_KZG_ERROR, out, h)
         else
           (case read_bytes h data 0 sizeof_header_t of
              None \<Rightarrow> None
            | Some hb \<Rightarrow>
                (let header = header_of_bytes hb
                 in if magic header \<noteq> KZG_MAGIC then Some (C_KZG_BADARGS, out, h)
                    else if version header \<noteq> 1 then Some (C_KZG_BADARGS, out, h)
                    else if endianness header \<noteq> get_endianness p then Some (C_KZG_BADARGS, out, h)
                    else if wordsize header \<noteq> get_wordsize p then Some (C_KZG_BADARGS, out, h)
                    else
                      (case run_steps (deserialize_steps p data) (Cont out h sizeof_header_t) of
                         Cont out h offset \<Rightarrow> Some (C_KZG_OK, out, h)
                       | Goto_error ret out h \<Rightarrow>
                           (case free_settings p h out of
                              None \<Rightarrow> None
                            | Some (out, h) \<Rightarrow> Some (ret, out, h))
                       | Fault \<Rightarrow> None))))"

subsection \<open>What a settings object holds\<close>

text \<open>
  The contents of the arrays of a settings object: the six flat arrays, the columns
  and, when \<open>wbits\<close> is not zero, the tables.
\<close>

definition settings_arrays :: "platform \<Rightarrow> heap \<Rightarrow> KZGSettings \<Rightarrow> byte list option list" where
  "settings_arrays p h s =
     [read_bytes h (roots_of_unity s) 0 (FEPEB1 p * sizeof_fr_t p),
      read_bytes h (brp_roots_of_unity s) 0 (FEPEB0 p * sizeof_fr_t p),
      read_bytes h (reverse_roots_of_unity s) 0 (FEPEB1 p * sizeof_fr_t p),
      read_bytes h (g1_values_monomial s) 0 (NUM_G1_POINTS p * sizeof_g1_t p),
      read_bytes h (g1_values_lagrange_brp s) 0 (NUM_G1_POINTS p * sizeof_g1_t p),
      read_bytes h (g2_values_monomial s) 0 (NUM_G2_POINTS * sizeof_g2_t p)]
     @ read_rows h (x_ext_fft_columns s) (CELLS_PER_EXT_BLOB p)
         (FIELD_ELEMENTS_PER_CELL p * sizeof_g1_t p)
     @ (if wbits s \<noteq> 0 then read_rows h (tables s) (CELLS_PER_EXT_BLOB p) (table_size s) else [])"

text \<open>
  A fully constructed settings object: every array is live and large enough, the
  tables are present when \<open>wbits\<close> is not zero, and the three sizes are values of
  \<open>size_t\<close>.
\<close>

definition settings_ok :: "platform \<Rightarrow> heap \<Rightarrow> KZGSettings \<Rightarrow> bool" where
  "settings_ok p h s \<longleftrightarrow>
     list_all (\<lambda>x. x \<noteq> None) (settings_arrays p h s)
     \<and> (wbits s \<noteq> 0 \<longrightarrow> tables s \<noteq> None \<and> 0 < table_size s)
     \<and> wbits s < 256 ^ sizeof_size_t p
     \<and> scratch_size s < 256 ^ sizeof_size_t p
     \<and> table_size s < 256 ^ sizeof_size_t p"

text \<open>
  The heap is well formed when no block lives at or above \<open>next_addr\<close>, and the platform
  when its sizes and counts are not zero and a pointer size fits the header byte.
\<close>

definition heap_ok :: "heap \<Rightarrow> bool" where
  "heap_ok h \<longleftrightarrow> (\<forall>a. next_addr h \<le> a \<longrightarrow> cells h a = None)"

definition platform_ok :: "platform \<Rightarrow> bool" where
  "platform_ok p \<longleftrightarrow>
     0 < sizeof_ptr p \<and> 0 < sizeof_size_t p \<and> 0 < FIELD_ELEMENTS_PER_EXT_BLOB p
     \<and> 0 < FIELD_ELEMENTS_PER_BLOB p \<and> 0 < CELLS_PER_EXT_BLOB p
     \<and> 0 < FIELD_ELEMENTS_PER_CELL p \<and> 0 < sizeof_fr_t p \<and> 0 < sizeof_g1_t p
     \<and> 0 < sizeof_g2_t p"

text \<open>The number of allocations of a successful \<open>deserialize_settings\<close>.\<close>

definition deserialize_allocs :: "platform \<Rightarrow> KZGSettings \<Rightarrow> nat" where
  "deserialize_allocs p s =
     7 + CELLS_PER_EXT_BLOB p + (if wbits s \<noteq> 0 then 1 + CELLS_PER_EXT_BLOB p else 0)"

section \<open>Auxiliary notions for the proofs about the settings\<close>

text \<open>
  \<open>frame h h'\<close>: going from \<open>h\<close> to \<open>h'\<close>, no address below \<open>next_addr h\<close> has changed.
\<close>

definition frame :: "heap \<Rightarrow> heap \<Rightarrow> bool" where
  "frame h h' \<longleftrightarrow> next_addr h \<le> next_addr h' \<and> (\<forall>a<next_addr h. cells h' a = cells h a)"

text \<open>The bytes that \<open>serialize_settings\<close> writes for a settings object whose reads succeed.\<close>

definition ser_bytes :: "platform \<Rightarrow> heap \<Rightarrow> KZGSettings \<Rightarrow> byte list" where
  "ser_bytes p h s = concat (map the (serialize_fields p h s))"

text \<open>The heap after a successful allocation of a block \<open>b\<close>.\<close>

definition heap_add :: "heap \<Rightarrow> block \<Rightarrow> heap" where
  "heap_add h b =
     h\<lparr>cells := (cells h)(next_addr h \<mapsto> b), next_addr := next_addr h + 1, avail := avail h - 1\<rparr>"

text \<open>
  \<open>rows_loaded h arr nb rows i\<close>: the first \<open>i\<close> elements of the pointer array \<open>arr\<close> point to
  byte blocks that hold the first \<open>i\<close> of the \<open>rows\<close>.
\<close>

definition rows_loaded :: "heap \<Rightarrow> nat \<Rightarrow> nat \<Rightarrow> byte list list \<Rightarrow> nat \<Rightarrow> bool" where
  "rows_loaded h arr nb rows i \<longleftrightarrow>
     (\<forall>j<i. \<exists>q. load_ptr h (Some arr) j = Some q \<and> read_bytes h q 0 nb = Some (rows ! j))"

subsection \<open>The blocks owned by a settings object under construction\<close>

text \<open>The addresses among a list of pointers, \<open>NULL\<close> left out.\<close>

fun somes :: "ptr list \<Rightarrow> nat list" where
  "somes [] = []"
| "somes (None # qs) = somes qs"
| "somes (Some a # qs) = a # somes qs"

text \<open>The rows that an array of pointers holds (none for \<open>NULL\<close>).\<close>

definition rowptrs :: "heap \<Rightarrow> ptr \<Rightarrow> ptr list" where
  "rowptrs h arr =
     (case arr of
        None \<Rightarrow> []
      | Some a \<Rightarrow> (case cells h a of Some (Ptrs ps) \<Rightarrow> ps | _ \<Rightarrow> []))"

text \<open>
  The blocks that a settings object refers to, in the order in which \<open>free_settings\<close>
  releases them.
\<close>

definition owned :: "heap \<Rightarrow> KZGSettings \<Rightarrow> nat list" where
  "owned h s =
     somes [brp_roots_of_unity s, roots_of_unity s, reverse_roots_of_unity s,
            g1_values_monomial s, g1_values_lagrange_brp s, g2_values_monomial s]
     @ somes (rowptrs h (x_ext_fft_columns s)) @ somes (rowptrs h (tables s))
     @ somes [x_ext_fft_columns s, tables s]"

text \<open>A two-dimensional array is \<open>NULL\<close> or a live array of \<open>CELLS_PER_EXT_BLOB\<close> pointers.\<close>

definition array_ok :: "platform \<Rightarrow> heap \<Rightarrow> ptr \<Rightarrow> bool" where
  "array_ok p h arr \<longleftrightarrow>
     (case arr of
        None \<Rightarrow> True
      | Some a \<Rightarrow> (\<exists>ps. cells h a = Some (Ptrs ps) \<and> length ps = CELLS_PER_EXT_BLOB p))"

text \<open>
  \<open>building p h0 s h\<close>: the state of \<open>deserialize_settings\<close> that started on the heap \<open>h0\<close>.
  Nothing of \<open>h0\<close> has changed, and the blocks allocated since are live, pairwise
  different and exactly the blocks that \<open>s\<close> refers to.
\<close>

definition building :: "platform \<Rightarrow> heap \<Rightarrow> KZGSettings \<Rightarrow> heap \<Rightarrow> bool" where
  "building p h0 s h \<longleftrightarrow>
     heap_ok h \<and> frame h0 h \<and> distinct (owned h s)
     \<and> set (owned h s) = {a. next_addr h0 \<le> a \<and> cells h a \<noteq> None}
     \<and> array_ok p h (x_ext_fft_columns s) \<and> array_ok p h (tables s)"

text \<open>\<open>unset k s\<close>: the pointer fields from the \<open>k\<close>-th on (in the order of loading) are still \<open>NULL\<close>.\<close>

definition unset :: "nat \<Rightarrow> KZGSettings \<Rightarrow> bool" where
  "unset k s \<longleftrightarrow>
     (k \<le> 0 \<longrightarrow> roots_of_unity s = None) \<and> (k \<le> 1 \<longrightarrow> brp_roots_of_unity s = None)
     \<and> (k \<le> 2 \<longrightarrow> reverse_roots_of_unity s = None) \<and> (k \<le> 3 \<longrightarrow> g1_values_monomial s = None)
     \<and> (k \<le> 4 \<longrightarrow> g1_values_lagrange_brp s = None) \<and> (k \<le> 5 \<longrightarrow> g2_values_monomial s = None)
     \<and> (k \<le> 6 \<longrightarrow> x_ext_fft_columns s = None) \<and> (k \<le> 7 \<longrightarrow> tables s = None)"

text \<open>What holds of the control state after the steps before the \<open>k\<close>-th pointer field.\<close>

definition flow_ok :: "platform \<Rightarrow> heap \<Rightarrow> nat \<Rightarrow> flow \<Rightarrow> bool" where
  "flow_ok p h0 k f =
     (case f of
        Fault \<Rightarrow> True
      | Goto_error ret s h \<Rightarrow> ret \<noteq> C_KZG_OK \<and> building p h0 s h
      | Cont s h off \<Rightarrow> building p h0 s h \<and> unset k s)"

text \<open>An allocator fails and leaves the heap as it is, or returns a fresh block.\<close>

definition allocates :: "(heap \<Rightarrow> C_KZG_RET \<times> ptr \<times> heap) \<Rightarrow> bool" where
  "allocates al \<longleftrightarrow>
     (\<forall>h. (\<exists>ret. ret \<noteq> C_KZG_OK \<and> al h = (ret, None, h))
        \<or> (\<exists>b. al h = (C_KZG_OK, Some (next_addr h), heap_add h b)))"


section \<open>Auxiliary notions for the proofs about the transform\<close>

text \<open>
  One butterfly on indices, as the specification describes a stage: thread \<open>g\<close> of stage
  \<open>s\<close> works on the pair \<open>i\<close>, \<open>i + 2^s\<close> of the block of size \<open>2^(s+1)\<close> numbered \<open>g div 2^s\<close>,
  with the twiddle factor at \<open>(g mod 2^s) * (n / 2^(s+1))\<close> in the roots array.
\<close>

definition butterfly :: "'a field_ops \<Rightarrow> 'a list \<Rightarrow> nat \<Rightarrow> nat \<Rightarrow> nat \<Rightarrow> 'a list \<Rightarrow> 'a list" where
  "butterfly ops roots n s g d =
     (let i = (g div 2 ^ s) * 2 ^ (s + 1) + g mod 2 ^ s;
          j = i + 2 ^ s;
          wb = mul ops (roots ! ((g mod 2 ^ s) * (n div 2 ^ (s + 1)))) (d ! j)
      in d[i := add ops (d ! i) wb, j := sub ops (d ! i) wb])"

text \<open>
  The recursive radix-2 decimation-in-time transform of the sequence \<open>y\<close> of length
  \<open>2^s\<close>, in natural order: output \<open>t\<close> combines output \<open>t mod 2^(s-1)\<close> of the transforms of
  the even-indexed and of the odd-indexed elements. It uses the operations of \<open>ops\<close>
  and the twiddle factors of the roots array of a transform of length \<open>n\<close>.
\<close>

fun dit :: "'a field_ops \<Rightarrow> 'a list \<Rightarrow> nat \<Rightarrow> nat \<Rightarrow> (nat \<Rightarrow> 'a) \<Rightarrow> nat \<Rightarrow> 'a" where
  "dit ops roots n 0 y t = y 0"
| "dit ops roots n (Suc s) y t =
     (let a = dit ops roots n s (\<lambda>v. y (2 * v)) (t mod 2 ^ s);
          b = dit ops roots n s (\<lambda>v. y (2 * v + 1)) (t mod 2 ^ s);
          wb = mul ops (roots ! ((t mod 2 ^ s) * (n div 2 ^ (Suc s)))) b
      in if t < 2 ^ s then add ops a wb else sub ops a wb)"

text \<open>
  The buffer after \<open>s\<close> stages on the input \<open>x\<close> of length \<open>n = 2^k\<close>: the block \<open>Q\<close> of size
  \<open>2^s\<close> holds the transform of the elements of \<open>x\<close> at distance \<open>2^(k-s)\<close> starting at the
  bit reversal of \<open>Q\<close>.
\<close>

definition staged :: "'a field_ops \<Rightarrow> 'a list \<Rightarrow> nat \<Rightarrow> nat \<Rightarrow> 'a list \<Rightarrow> nat \<Rightarrow> 'a list \<Rightarrow> bool" where
  "staged ops roots n k x s d \<longleftrightarrow>
     length d = n
     \<and> (\<forall>Q t. Q < 2 ^ (k - s) \<longrightarrow> t < 2 ^ s \<longrightarrow>
           d ! (Q * 2 ^ s + t)
             = dit ops roots n s (\<lambda>v. x ! (v * 2 ^ (k - s) + reverse_bits Q (k - s))) t)"

text \<open>
  The three field operations computed exactly, in a commutative ring, and the discrete
  Fourier transform as a sum.
\<close>

definition exact_ops :: "(nat \<Rightarrow> 'a) \<Rightarrow> ('a :: comm_ring_1) field_ops" where
  "exact_ops inv_n = \<lparr>mul = (*), add = (+), sub = (-), inv_of_n = inv_n\<rparr>"

definition dft :: "('a :: comm_ring_1) \<Rightarrow> nat \<Rightarrow> (nat \<Rightarrow> 'a) \<Rightarrow> nat \<Rightarrow> 'a" where
  "dft w n y t = (\<Sum>v<n. y v * w ^ (v * t))"


text \<open>
  The field element whose four limbs hold the number \<open>v\<close>, the Montgomery form
  \<open>v * 2^256 mod r\<close> of a residue \<open>v\<close>, and the element zero.
\<close>

definition fr_of_nat :: "nat \<Rightarrow> Fr" where
  "fr_of_nat v =
     \<lparr>l0 = of_nat v, l1 = of_nat (v div 2 ^ 64), l2 = of_nat (v div 2 ^ 128),
      l3 = of_nat (v div 2 ^ 192)\<rparr>"

definition to_mont :: "nat \<Rightarrow> nat" where
  "to_mont v = (v * 2 ^ 256) mod r_modulus"

definition fr_zero :: Fr where
  "fr_zero = \<lparr>l0 = 0, l1 = 0, l2 = 0, l3 = 0\<rparr>"

section \<open>Example inputs\<close>

text \<open>
  A small platform, heap and settings object on which the theorems below are
  instantiated: one field element per blob, two cells of one element each, elements of
  one byte, and tables of two bytes.
\<close>

definition ex_platform :: platform where
  "ex_platform =
     \<lparr>little_endian = True, sizeof_ptr = 8, sizeof_size_t = 8,
      FIELD_ELEMENTS_PER_EXT_BLOB = 1, FIELD_ELEMENTS_PER_BLOB = 1,
      CELLS_PER_EXT_BLOB = 2, FIELD_ELEMENTS_PER_CELL = 1,
      sizeof_fr_t = 1, sizeof_g1_t = 1, sizeof_g2_t = 1\<rparr>"

definition ex_cells :: "nat \<Rightarrow> block option" where
  "ex_cells =
     (\<lambda>a. None)
       (0 \<mapsto> Bytes [1, 2],
        1 \<mapsto> Bytes [3],
        2 \<mapsto> Bytes [4, 5],
        3 \<mapsto> Bytes [6],
        4 \<mapsto> Bytes [7],
        5 \<mapsto> Bytes (replicate 65 8),
        6 \<mapsto> Ptrs [Some 7, Some 8],
        7 \<mapsto> Bytes [9],
        8 \<mapsto> Bytes [10],
        9 \<mapsto> Ptrs [Some 10, Some 11],
        10 \<mapsto> Bytes [11, 12],
        11 \<mapsto> Bytes [13, 14])"

definition ex_heap :: heap where
  "ex_heap = \<lparr>cells = ex_cells, next_addr = 12, avail = 100\<rparr>"

definition ex_settings :: KZGSettings where
  "ex_settings =
     \<lparr>roots_of_unity = Some 0, brp_roots_of_unity = Some 1, reverse_roots_of_unity = Some 2,
      g1_values_monomial = Some 3, g1_values_lagrange_brp = Some 4, g2_values_monomial = Some 5,
      x_ext_fft_columns = Some 6, tables = Some 9, wbits = 8, scratch_size = 3, table_size = 2\<rparr>"

text \<open>A heap with an input buffer of three bytes at address 0, and one with a buffer
  whose header names another byte order.\<close>

definition ex_short_heap :: heap where
  "ex_short_heap = \<lparr>cells = (\<lambda>a. None)(0 \<mapsto> Bytes [0x4B, 0x5A, 0x47]), next_addr = 1, avail = 100\<rparr>"

definition ex_foreign_heap :: heap where
  "ex_foreign_heap =
     \<lparr>cells = (\<lambda>a. None)(0 \<mapsto> Bytes [0x4B, 0x5A, 0x47, 0x00, 1, 1, 8, 0, 0]),
      next_addr = 1, avail = 100\<rparr>"

text \<open>A Metal context whose every request succeeds.\<close>

definition ex_context :: MetalContext where
  "ex_context =
     \<lparr>data_buffer_ok = True, roots_malloc_ok = True, roots_buffer_ok = True,
      command_buffer_ok = True, command_status_ok = True\<rparr>"

text \<open>The operations of the shipped kernels for a forward transform, which never reads
  \<open>inv_of_n\<close>, and a field element.\<close>

definition ex_fr :: Fr where
  "ex_fr = \<lparr>l0 = 5, l1 = 0, l2 = 0, l3 = 0\<rparr>"

definition ex_ops :: "Fr field_ops" where
  "ex_ops = metal_ops (\<lambda>n. ex_fr)"

text \<open>The serialized form of \<open>ex_settings\<close>, in a heap that has room for eight
  allocations only.\<close>

definition ex_buffer :: "byte list" where
  "ex_buffer =
     [0x4B, 0x5A, 0x47, 0x00, 1, 2, 8]
     @ [8, 0, 0, 0, 0, 0, 0, 0] @ [3, 0, 0, 0, 0, 0, 0, 0] @ [2, 0, 0, 0, 0, 0, 0, 0]
     @ [1, 2] @ [3] @ [4, 5] @ [6] @ [7] @ replicate 65 8 @ [9] @ [10] @ [11, 12] @ [13, 14]"

definition ex_low_heap :: heap where
  "ex_low_heap = \<lparr>cells = (\<lambda>a. None)(0 \<mapsto> Bytes ex_buffer), next_addr = 1, avail = 8\<rparr>"

text \<open>
  A transform of length 256 with the shipped kernels: the primitive 256th root of unity
  \<open>7^((r-1)/256) mod r\<close>, its inverse and the inverse of 256 modulo \<open>r\<close>; the arrays of
  the powers of the two roots, in Montgomery form, as the settings hold them; and the
  operations of the kernels with the scale factor \<open>1/256\<close> in Montgomery form.
\<close>

definition ex_omega :: nat where
  "ex_omega = 0x4f9b4098e2e9f12e6b368121ac0cf4ad0a0865a899e8deff4935bd2f817f694b"

definition ex_omega_inv :: nat where
  "ex_omega_inv = 0x18ba7658084c71a467e701a945e9b713df7b4ee66e4caccb7d01866add958780"

definition ex_ninv :: nat where
  "ex_ninv = 0x7379b9abd673dfcaeb069e300198362d4e69e65efcfe5da300ffffff01000001"

definition ex_roots :: "Fr list" where
  "ex_roots = map (\<lambda>i. fr_of_nat (to_mont (ex_omega ^ i mod r_modulus))) [0..<256]"

definition ex_reverse_roots :: "Fr list" where
  "ex_reverse_roots = map (\<lambda>i. fr_of_nat (to_mont (ex_omega_inv ^ i mod r_modulus))) [0..<256]"

definition ex_inv_256 :: Fr where
  "ex_inv_256 = fr_of_nat (to_mont ex_ninv)"

definition ex_ops_256 :: "Fr field_ops" where
  "ex_ops_256 = metal_ops (\<lambda>n. ex_inv_256)"

text \<open>
  An input of 256 elements, all zero except the element \<open>ex_b\<close> at index 128, and the
  array that alternates \<open>ex_b\<close> and \<open>ex_c\<close>.
\<close>

definition ex_b :: Fr where
  "ex_b = \<lparr>l0 = 1, l1 = 0xffffffffffffffff, l2 = 0, l3 = 0\<rparr>"

definition ex_c :: Fr where
  "ex_c = \<lparr>l0 = 0xffffffffffffffff, l1 = 0, l2 = 0, l3 = 0\<rparr>"

definition ex_impulse :: "Fr list" where
  "ex_impulse = (replicate 256 fr_zero)[128 := ex_b]"

definition ex_spectrum :: "Fr list" where
  "ex_spectrum = map (\<lambda>t. if even t then ex_b else ex_c) [0..<256]"
section \<open>Correctness of the field arithmetic\<close>

lemma add_mod_less_iff:
  fixes x y M :: nat
  assumes "x < M" "y < M"
  shows "((x + y) mod M < x) = (M \<le> x + y)"
proof (cases "M \<le> x + y")
  case True
  then have "(x + y) mod M = x + y - M"
    using assms by (simp add: mod_if le_mod_geq)
  with True assms show ?thesis by simp
next
  case False
  then show ?thesis by simp
qed

lemma mul64_limbs:
  fixes P0 P1 P2 P3 :: nat
  assumes b: "P0 \<le> 18446744065119617025" "P1 \<le> 18446744065119617025"
     "P2 \<le> 18446744065119617025" "P3 \<le> 18446744065119617025"
  defines "mid \<equiv> (P1 + P2) mod 2^64"
  defines "mc \<equiv> (if mid < P1 then 1 else (0::nat))"
  defines "lo \<equiv> (P0 + (mid * 2^32) mod 2^64) mod 2^64"
  defines "lc \<equiv> (if lo < P0 then 1 else (0::nat))"
  shows "lo + 2^64 * ((P3 + mid div 2^32 + (mc * 2^32) mod 2^64 + lc) mod 2^64)
     = P0 + 2^32 * (P1 + P2) + 2^64 * P3"
proof -
  define q where "q = mid div 2^32"
  define m where "m = mid mod 2^32"
  have mid_split: "mid = 2^32 * q + m" and m_lt: "m < 2^32"
    by (simp_all add: q_def m_def)
  have mid_lt: "mid < 2^64" by (simp add: mid_def)
  have mc_iff: "(mid < P1) = (2^64 \<le> P1 + P2)"
    unfolding mid_def using b by (intro add_mod_less_iff) simp_all
  have S: "P1 + P2 = mid + 2^64 * mc"
  proof (cases "2^64 \<le> P1 + P2")
    case True
    then have "mid = P1 + P2 - 2^64"
      unfolding mid_def using b by (simp add: mod_if le_mod_geq)
    with True mc_iff show ?thesis by (simp add: mc_def)
  next
    case False
    with mc_iff show ?thesis by (simp add: mc_def mid_def)
  qed
  have X: "(mid * 2^32) mod 2^64 = 2^32 * m"
  proof -
    have "(mid * 2^32) mod 2^64 = (2^32 * mid) mod (2^32 * 2^32)" by (simp add: mult.commute)
    also have "\<dots> = 2^32 * (mid mod 2^32)" by (rule mult_mod_right [symmetric])
    finally show ?thesis by (simp add: m_def)
  qed
  have X_lt: "2^32 * m < (2^64 :: nat)" using m_lt by simp
  have lo_eq: "lo = (P0 + 2^32 * m) mod 2^64"
    unfolding lo_def X ..
  have lc_iff: "(lo < P0) = (2^64 \<le> P0 + 2^32 * m)"
    unfolding lo_eq using b X_lt by (intro add_mod_less_iff) simp_all
  have L: "P0 + 2^32 * m = lo + 2^64 * lc"
  proof (cases "2^64 \<le> P0 + 2^32 * m")
    case True
    then have "lo = P0 + 2^32 * m - 2^64"
      unfolding lo_eq using b X_lt by (simp add: mod_if le_mod_geq)
    with True lc_iff show ?thesis by (simp add: lc_def)
  next
    case False
    with lc_iff show ?thesis by (simp add: lc_def lo_eq)
  qed
  have mc_le: "mc \<le> 1" and lc_le: "lc \<le> 1" by (simp_all add: mc_def lc_def)
  have q_lt: "q < 2^32" using mid_lt mid_split by simp
  have mcmod: "(mc * 2^32) mod 2^64 = mc * 2^32" using mc_le by simp
  have H_lt: "P3 + q + mc * 2^32 + lc < 2^64"
  proof (cases "mc = 0")
    case True
    with b q_lt lc_le show ?thesis by simp
  next
    case False
    with mc_le have mc1: "mc = 1" by simp
    with S b have "mid \<le> 18446744056529682434" by simp
    with mid_split have "q \<le> 4294967292" by simp
    with mc1 b lc_le show ?thesis by simp
  qed
  have "lo + 2^64 * ((P3 + mid div 2^32 + (mc * 2^32) mod 2^64 + lc) mod 2^64)
      = lo + 2^64 * (P3 + q + mc * 2^32 + lc)"
    using H_lt by (simp add: mcmod q_def)
  also have "\<dots> = (lo + 2^64 * lc) + 2^64 * (P3 + q + mc * 2^32)" by simp
  also have "\<dots> = P0 + 2^32 * m + 2^64 * (P3 + q + mc * 2^32)" by (simp only: L)
  also have "\<dots> = P0 + 2^32 * (mid + 2^64 * mc) + 2^64 * P3"
    by (simp add: mid_split algebra_simps)
  finally show ?thesis by (simp only: S)
qed


lemma unat_and_mask32: "unat (a AND (0xFFFFFFFF::ulong)) = unat a mod 2^32"
proof -
  have "(0xFFFFFFFF::ulong) = mask 32" by (simp add: mask_eq_exp_minus_1)
  then have "a AND 0xFFFFFFFF = take_bit 32 a" by (simp only: take_bit_eq_mask)
  then have "unat (a AND 0xFFFFFFFF) = take_bit 32 (unat a)"
    by (simp only: unsigned_take_bit_eq)
  then show ?thesis by (simp only: take_bit_eq_mod)
qed

lemma unat_drop32: "unat (drop_bit 32 (a::ulong)) = unat a div 2^32"
  unfolding unat_drop_bit_eq by (simp only: drop_bit_eq_div)

lemma unat_add64: "unat (x + y :: ulong) = (unat x + unat y) mod 2^64"
  by (simp add: unat_word_ariths)

lemma unat_mult64: "unat (x * y :: ulong) = (unat x * unat y) mod 2^64"
  by (simp add: unat_word_ariths)

lemma unat_push32: "unat (push_bit 32 (a::ulong)) = (unat a * 2^32) mod 2^64"
proof -
  have "push_bit 32 a = a * 2^32" by (simp only: push_bit_eq_mult)
  moreover have "unat (2^32 :: ulong) = 2^32" by simp
  ultimately show ?thesis by (simp only: unat_mult64)
qed

lemma half_prod_le:
  fixes x y :: nat
  assumes "x < 2^32" "y < 2^32"
  shows "x * y \<le> 18446744065119617025"
proof -
  have "x * y \<le> 4294967295 * 4294967295"
    using assms by (intro mult_mono) simp_all
  then show ?thesis by simp
qed

lemma unat_half_prod:
  fixes u v :: ulong
  assumes "unat u < 2^32" "unat v < 2^32"
  shows "unat (u * v) = unat u * unat v"
proof -
  have "unat u * unat v \<le> 18446744065119617025" using assms by (rule half_prod_le)
  then have "unat u * unat v < 2 ^ LENGTH(64)" by simp
  then show ?thesis by (simp only: unat_mult_lem)
qed

lemma unat_if01: "unat (if c then 1 else (0::ulong)) = (if c then 1 else 0)"
  by simp

lemma mod_add4:
  fixes A B C D M :: nat
  shows "(((A + B) mod M + C mod M) mod M + D) mod M = (A + B + C mod M + D) mod M"
proof -
  have "(A + B + C mod M + D) mod M = (C mod M + (A + B + D)) mod M"
    by (simp add: ac_simps)
  also have "\<dots> = (C + (A + B + D)) mod M"
    by (rule mod_add_left_eq)
  finally show ?thesis by (simp add: mod_simps ac_simps)
qed

lemma mul64_correct:
  assumes "mul64 a b = (lo, hi)"
  shows "unat lo + 2^64 * unat hi = unat a * unat b"
proof -
  define al ah bl bh where "al = unat a mod 2^32" and "ah = unat a div 2^32"
    and "bl = unat b mod 2^32" and "bh = unat b div 2^32"
  have a64: "unat a < 2^64" and b64: "unat b < 2^64"
    using unsigned_less [of a, where ?'a = nat] unsigned_less [of b, where ?'a = nat]
    by simp_all
  have lt: "al < 2^32" "ah < 2^32" "bl < 2^32" "bh < 2^32"
    using a64 b64 by (simp_all add: al_def ah_def bl_def bh_def less_mult_imp_div_less)
  define a_lo a_hi b_lo b_hi where "a_lo = a AND 0xFFFFFFFF" and "a_hi = drop_bit 32 a"
    and "b_lo = b AND 0xFFFFFFFF" and "b_hi = drop_bit 32 b"
  define p0 p1 p2 p3 where "p0 = a_lo * b_lo" and "p1 = a_lo * b_hi"
    and "p2 = a_hi * b_lo" and "p3 = a_hi * b_hi"
  define mid where "mid = p1 + p2"
  define mid_carry :: ulong where "mid_carry = (if mid < p1 then 1 else 0)"
  define lo_carry :: ulong where "lo_carry = (if p0 + push_bit 32 mid < p0 then 1 else 0)"
  have "mul64 a b = (p0 + push_bit 32 mid,
      p3 + drop_bit 32 mid + push_bit 32 mid_carry + lo_carry)"
    unfolding mul64_def Let_def a_lo_def a_hi_def b_lo_def b_hi_def p0_def p1_def
        p2_def p3_def mid_def mid_carry_def lo_carry_def ..
  with assms have lo: "lo = p0 + push_bit 32 mid"
    and hi: "hi = p3 + drop_bit 32 mid + push_bit 32 mid_carry + lo_carry"
    by simp_all
  have u: "unat a_lo = al" "unat a_hi = ah" "unat b_lo = bl" "unat b_hi = bh"
    by (simp_all only: a_lo_def a_hi_def b_lo_def b_hi_def unat_and_mask32 unat_drop32
        al_def ah_def bl_def bh_def)
  have p: "unat p0 = al * bl" "unat p1 = al * bh" "unat p2 = ah * bl" "unat p3 = ah * bh"
    unfolding p0_def p1_def p2_def p3_def using lt u by (simp_all only: unat_half_prod)
  have P: "al * bl \<le> 18446744065119617025" "al * bh \<le> 18446744065119617025"
     "ah * bl \<le> 18446744065119617025" "ah * bh \<le> 18446744065119617025"
    using lt by (simp_all only: half_prod_le)
  have umid: "unat mid = (al * bh + ah * bl) mod 2^64"
    unfolding mid_def by (simp only: unat_add64 p)
  have umc: "unat mid_carry = (if unat mid < al * bh then 1 else 0)"
    unfolding mid_carry_def by (simp only: unat_if01 word_less_nat_alt p)
  have ulo: "unat lo = (al * bl + (unat mid * 2^32) mod 2^64) mod 2^64"
    unfolding lo by (simp only: unat_add64 unat_push32 p)
  have ulc: "unat lo_carry = (if unat lo < al * bl then 1 else 0)"
    unfolding lo_carry_def lo [symmetric] by (simp only: unat_if01 word_less_nat_alt p)
  have uhi: "unat hi = (ah * bh + unat mid div 2^32 + (unat mid_carry * 2^32) mod 2^64
       + unat lo_carry) mod 2^64"
    unfolding hi by (simp only: unat_add64 unat_push32 unat_drop32 p mod_add4)
  have "unat lo + 2^64 * unat hi = al * bl + 2^32 * (al * bh + ah * bl) + 2^64 * (ah * bh)"
    unfolding uhi ulo ulc umc umid
    using mul64_limbs [OF P(1) P(2) P(3) P(4)] by (simp only: ulo umid)
  also have "\<dots> = (al + 2^32 * ah) * (bl + 2^32 * bh)"
    by (simp add: algebra_simps)
  also have "\<dots> = unat a * unat b"
    by (simp add: al_def ah_def bl_def bh_def)
  finally show ?thesis .
qed



lemma carry_split:
  fixes x y M :: nat
  assumes "x < M" "y < M"
  shows "(x + y) mod M + M * (if (x + y) mod M < x then 1 else 0) = x + y"
proof (cases "M \<le> x + y")
  case True
  then have "(x + y) mod M = x + y - M"
    using assms by (simp add: mod_if le_mod_geq)
  with True assms show ?thesis by simp
next
  case False
  then show ?thesis by simp
qed

lemma unat_lt64: "unat (x::ulong) < 2^64"
  using unsigned_less [of x, where ?'a = nat] by simp

lemma unat_prod_le:
  "unat (x::ulong) * unat (y::ulong) \<le> 340282366920938463426481119284349108225"
proof -
  have "unat x \<le> 18446744073709551615" "unat y \<le> 18446744073709551615"
    using unat_lt64 [of x] unat_lt64 [of y] by simp_all
  then have "unat x * unat y \<le> 18446744073709551615 * 18446744073709551615"
    by (intro mult_mono) simp_all
  then show ?thesis by simp
qed

lemma mac_correct:
  assumes "mac a b c 0 = (s, h)"
  shows "unat s + 2^64 * unat h = unat a * unat b + unat c"
proof -
  obtain pl ph where m: "mul64 a b = (pl, ph)" by fastforce
  have mc: "unat pl + 2^64 * unat ph = unat a * unat b" using m by (rule mul64_correct)
  define sc :: ulong where "sc = (if pl + c < pl then 1 else 0)"
  have s: "s = pl + c" and h: "h = ph + sc"
    using assms by (auto simp add: mac_def m Let_def sc_def)
  have us: "unat s = (unat pl + unat c) mod 2^64" unfolding s by (rule unat_add64)
  have usc: "unat sc = (if unat s < unat pl then 1 else 0)"
    unfolding sc_def s by (simp only: unat_if01 word_less_nat_alt)
  have split: "unat s + 2^64 * unat sc = unat pl + unat c"
    unfolding usc us using unat_lt64 [of pl] unat_lt64 [of c] by (intro carry_split)
  have "unat sc \<le> 1" by (simp add: usc)
  have "2^64 * (unat ph + unat sc) \<le> unat a * unat b + unat c"
    using mc split by simp
  also have "\<dots> < 2^64 * 2^64"
    using unat_prod_le [of a b] unat_lt64 [of c] by simp
  finally have "unat ph + unat sc < 2^64" by simp
  then have uh: "unat h = unat ph + unat sc"
    unfolding h by (simp add: unat_add64)
  show ?thesis using mc split by (simp add: uh)
qed

lemma mac_carry_correct:
  assumes "mac_carry x y c carry = (lo, hi)"
  shows "unat lo + 2^64 * unat hi = unat x * unat y + unat c + unat carry"
proof -
  obtain s h where m: "mac x y c 0 = (s, h)" by fastforce
  have mc: "unat s + 2^64 * unat h = unat x * unat y + unat c" using m by (rule mac_correct)
  define k :: ulong where "k = (if s + carry < carry then 1 else 0)"
  have lo: "lo = s + carry" and hi: "hi = h + k"
    using assms by (auto simp add: mac_carry_def m Let_def k_def)
  have ulo: "unat lo = (unat carry + unat s) mod 2^64"
    unfolding lo by (simp add: unat_add64 add.commute)
  have uk: "unat k = (if unat lo < unat carry then 1 else 0)"
    unfolding k_def lo by (simp only: unat_if01 word_less_nat_alt)
  have split: "unat lo + 2^64 * unat k = unat carry + unat s"
    unfolding uk ulo using unat_lt64 [of s] unat_lt64 [of carry] by (intro carry_split)
  have "2^64 * (unat h + unat k) \<le> unat x * unat y + unat c + unat carry"
    using mc split by simp
  also have "\<dots> < 2^64 * 2^64"
    using unat_prod_le [of x y] unat_lt64 [of c] unat_lt64 [of carry] by simp
  finally have "unat h + unat k < 2^64" by simp
  then have uh: "unat hi = unat h + unat k"
    unfolding hi by (simp add: unat_add64)
  show ?thesis using mc split by (simp add: uh)
qed




lemma fr_mul_inner_unroll:
  assumes s0: "mac_carry (l a 0) (l b i) (t ! i) 0 = (lo0, h0)"
    and s1: "mac_carry (l a 1) (l b i) (t ! (i + 1)) h0 = (lo1, h1)"
    and s2: "mac_carry (l a 2) (l b i) (t ! (i + 2)) h1 = (lo2, h2)"
    and s3: "mac_carry (l a 3) (l b i) (t ! (i + 3)) h2 = (lo3, h3)"
  shows "fr_mul_inner a b i 0 t 0 = (t[i := lo0, i + 1 := lo1, i + 2 := lo2, i + 3 := lo3], h3)"
proof -
  have "fr_mul_inner a b i 4 (t[i := lo0, i + 1 := lo1, i + 2 := lo2, i + 3 := lo3]) h3
      = (t[i := lo0, i + 1 := lo1, i + 2 := lo2, i + 3 := lo3], h3)"
    by (simp add: fr_mul_inner.simps)
  then have "fr_mul_inner a b i 3 (t[i := lo0, i + 1 := lo1, i + 2 := lo2]) h2
      = (t[i := lo0, i + 1 := lo1, i + 2 := lo2, i + 3 := lo3], h3)"
    using s3 by (subst fr_mul_inner.simps) (simp add: eval_nat_numeral)
  then have "fr_mul_inner a b i 2 (t[i := lo0, i + 1 := lo1]) h1
      = (t[i := lo0, i + 1 := lo1, i + 2 := lo2, i + 3 := lo3], h3)"
    using s2 by (subst fr_mul_inner.simps) (simp add: eval_nat_numeral)
  then have "fr_mul_inner a b i 1 (t[i := lo0]) h0
      = (t[i := lo0, i + 1 := lo1, i + 2 := lo2, i + 3 := lo3], h3)"
    using s1 by (subst fr_mul_inner.simps) (simp add: eval_nat_numeral)
  then show ?thesis
    using s0 by (subst fr_mul_inner.simps) (simp add: eval_nat_numeral)
qed

lemma fr_mul_inner_row:
  assumes len: "i + 4 \<le> length t"
    and run: "fr_mul_inner a b i 0 t 0 = (t', c)"
  shows "win t' i + 2 ^ 256 * unat c = win t i + fr_val a * unat (l b i)"
    and "length t' = length t"
    and "\<And>k. k < i \<or> i + 4 \<le> k \<Longrightarrow> t' ! k = t ! k"
proof -
  obtain lo0 h0 where s0: "mac_carry (l a 0) (l b i) (t ! i) 0 = (lo0, h0)" by fastforce
  obtain lo1 h1 where s1: "mac_carry (l a 1) (l b i) (t ! (i + 1)) h0 = (lo1, h1)" by fastforce
  obtain lo2 h2 where s2: "mac_carry (l a 2) (l b i) (t ! (i + 2)) h1 = (lo2, h2)" by fastforce
  obtain lo3 h3 where s3: "mac_carry (l a 3) (l b i) (t ! (i + 3)) h2 = (lo3, h3)" by fastforce
  have res: "t' = t[i := lo0, i + 1 := lo1, i + 2 := lo2, i + 3 := lo3]" and c: "c = h3"
    using fr_mul_inner_unroll [OF s0 s1 s2 s3] run by simp_all
  show "length t' = length t" by (simp add: res)
  show "t' ! k = t ! k" if "k < i \<or> i + 4 \<le> k" for k
    using that by (auto simp add: res)
  have e0: "unat lo0 + 2^64 * unat h0 = unat (l0 a) * unat (l b i) + unat (t ! i)"
    using mac_carry_correct [OF s0] by (simp add: l_def)
  have e1: "unat lo1 + 2^64 * unat h1 = unat (l1 a) * unat (l b i) + unat (t ! (i + 1)) + unat h0"
    using mac_carry_correct [OF s1] by (simp add: l_def)
  have e2: "unat lo2 + 2^64 * unat h2 = unat (l2 a) * unat (l b i) + unat (t ! (i + 2)) + unat h1"
    using mac_carry_correct [OF s2] by (simp add: l_def)
  have e3: "unat lo3 + 2^64 * unat h3 = unat (l3 a) * unat (l b i) + unat (t ! (i + 3)) + unat h2"
    using mac_carry_correct [OF s3] by (simp add: l_def)
  have w': "win t' i = unat lo0 + 2^64 * unat lo1 + 2^128 * unat lo2 + 2^192 * unat lo3"
    using len by (simp add: win_def res)
  have "win t' i + 2 ^ 256 * unat c
      = (unat lo0 + 2^64 * unat h0) + 2^64 * (unat lo1 + 2^64 * unat h1)
        + 2^128 * (unat lo2 + 2^64 * unat h2) + 2^192 * (unat lo3 + 2^64 * unat h3)
        - (2^64 * unat h0 + 2^128 * unat h1 + 2^192 * unat h2)"
    by (simp add: w' c)
  also have "\<dots> = win t i + fr_val a * unat (l b i)"
    unfolding e0 e1 e2 e3 by (simp add: win_def fr_val_def algebra_simps)
  finally show "win t' i + 2 ^ 256 * unat c = win t i + fr_val a * unat (l b i)" .
qed




lemma INV_MODULUS_x: "INV * MODULUS_x + 1 = 0"
  by (simp add: INV_def MODULUS_x_def)

lemma r_modulus_limbs:
  "r_modulus = unat MODULUS_x + 2 ^ 64 * unat MODULUS_y + 2 ^ 128 * unat MODULUS_z
     + 2 ^ 192 * unat MODULUS_w"
  by (simp add: r_modulus_def MODULUS_x_def MODULUS_y_def MODULUS_z_def MODULUS_w_def)

lemma r_modulus_lt: "2 * r_modulus < 2 ^ 256"
  by (simp add: r_modulus_def)

lemma mac_low_zero:
  assumes "mac (T0 * INV) MODULUS_x T0 0 = (lo, hi)"
  shows "2 ^ 64 * unat hi = unat (T0 * INV) * unat MODULUS_x + unat T0"
proof -
  have e: "unat lo + 2 ^ 64 * unat hi = unat (T0 * INV) * unat MODULUS_x + unat T0"
    using assms by (rule mac_correct)
  have "T0 * INV * MODULUS_x + T0 = T0 * (INV * MODULUS_x + 1)"
    by (simp add: algebra_simps)
  then have z: "T0 * INV * MODULUS_x + T0 = 0" by (simp add: INV_MODULUS_x)
  have "unat lo = (unat lo + 2 ^ 64 * unat hi) mod 2 ^ 64"
    using unat_lt64 [of lo] by simp
  also have "\<dots> = (unat (T0 * INV) * unat MODULUS_x + unat T0) mod 2 ^ 64"
    by (simp only: e)
  also have "\<dots> = unat (T0 * INV * MODULUS_x + T0)"
    by (simp only: unat_add64 unat_mult64 [of "T0 * INV" MODULUS_x] mod_add_left_eq)
  finally have "unat lo = 0" by (simp add: z)
  with e show ?thesis by simp
qed




lemma fr_mul_round_step:
  assumes len: "length t = 8" and i: "i < 4"
    and zero: "\<And>k. i + 4 \<le> k \<Longrightarrow> k < 8 \<Longrightarrow> t ! k = 0"
    and V: "win t i < fr_val a + r_modulus"
    and a: "fr_val a < r_modulus"
  shows "length (fr_mul_round a b i t) = 8"
    and "\<And>k. i + 5 \<le> k \<Longrightarrow> k < 8 \<Longrightarrow> fr_mul_round a b i t ! k = 0"
    and "\<exists>m. 2 ^ 64 * win (fr_mul_round a b i t) (i + 1)
           = win t i + fr_val a * unat (l b i) + m * r_modulus"
    and "win (fr_mul_round a b i t) (i + 1) < fr_val a + r_modulus"
proof -
  obtain t1 c1 where run: "fr_mul_inner a b i 0 t 0 = (t1, c1)" by fastforce
  have len4: "i + 4 \<le> length t" using len i by simp
  note row = fr_mul_inner_row [OF len4 run]
  have len1: "length t1 = 8" using row(2) len by simp
  have t14: "t1 ! (i + 4) = 0" using row(3) [of "i + 4"] zero [of "i + 4"] i by simp
  obtain lo hi0 where r0: "mac (t1 ! i * INV) MODULUS_x (t1 ! i) 0 = (lo, hi0)" by fastforce
  obtain lo1 h1 where r1: "mac_carry (t1 ! i * INV) MODULUS_y (t1 ! (i + 1)) hi0 = (lo1, h1)"
    by fastforce
  obtain lo2 h2 where r2: "mac_carry (t1 ! i * INV) MODULUS_z (t1 ! (i + 2)) h1 = (lo2, h2)"
    by fastforce
  obtain lo3 h3 where r3: "mac_carry (t1 ! i * INV) MODULUS_w (t1 ! (i + 3)) h2 = (lo3, h3)"
    by fastforce
  define tc where "tc = t1[i + 4 := c1, i + 1 := lo1, i + 2 := lo2, i + 3 := lo3, i + 4 := c1 + h3]"
  have res: "fr_mul_round a b i t
      = (if c1 + h3 < h3 \<and> i + 5 < 8 then tc[i + 5 := tc ! (i + 5) + 1] else tc)"
    using i len1 r0 r1 r2 r3
    by (simp add: fr_mul_round_def run Let_def t14 tc_def)
  define m where "m = unat (t1 ! i * INV)"
  define bi where "bi = unat (l b i)"
  define W where "W = unat lo1 + 2 ^ 64 * unat lo2 + 2 ^ 128 * unat lo3
      + 2 ^ 192 * (unat c1 + unat h3)"
  have e_row: "win t1 i + 2 ^ 256 * unat c1 = win t i + fr_val a * bi"
    using row(1) by (simp add: bi_def)
  have e0: "2 ^ 64 * unat hi0 = m * unat MODULUS_x + unat (t1 ! i)"
    using mac_low_zero [OF r0] by (simp add: m_def)
  have e1: "unat lo1 + 2 ^ 64 * unat h1 = m * unat MODULUS_y + unat (t1 ! (i + 1)) + unat hi0"
    using mac_carry_correct [OF r1] by (simp add: m_def)
  have e2: "unat lo2 + 2 ^ 64 * unat h2 = m * unat MODULUS_z + unat (t1 ! (i + 2)) + unat h1"
    using mac_carry_correct [OF r2] by (simp add: m_def)
  have e3: "unat lo3 + 2 ^ 64 * unat h3 = m * unat MODULUS_w + unat (t1 ! (i + 3)) + unat h2"
    using mac_carry_correct [OF r3] by (simp add: m_def)
  have "2 ^ 64 * W + (2 ^ 64 * unat hi0 + 2 ^ 128 * unat h1 + 2 ^ 192 * unat h2)
      = 2 ^ 64 * unat hi0 + 2 ^ 64 * (unat lo1 + 2 ^ 64 * unat h1)
        + 2 ^ 128 * (unat lo2 + 2 ^ 64 * unat h2) + 2 ^ 192 * (unat lo3 + 2 ^ 64 * unat h3)
        + 2 ^ 256 * unat c1"
    by (simp add: W_def algebra_simps)
  also have "\<dots> = (m * unat MODULUS_x + unat (t1 ! i))
        + 2 ^ 64 * (m * unat MODULUS_y + unat (t1 ! (i + 1)) + unat hi0)
        + 2 ^ 128 * (m * unat MODULUS_z + unat (t1 ! (i + 2)) + unat h1)
        + 2 ^ 192 * (m * unat MODULUS_w + unat (t1 ! (i + 3)) + unat h2)
        + 2 ^ 256 * unat c1"
    by (simp only: e0 e1 e2 e3)
  also have "\<dots> = m * r_modulus + (win t1 i + 2 ^ 256 * unat c1)
        + (2 ^ 64 * unat hi0 + 2 ^ 128 * unat h1 + 2 ^ 192 * unat h2)"
    by (simp add: win_def r_modulus_limbs algebra_simps)
  finally have "2 ^ 64 * W = m * r_modulus + (win t1 i + 2 ^ 256 * unat c1)"
    by simp
  then have total: "2 ^ 64 * W = win t i + fr_val a * bi + m * r_modulus"
    by (simp only: e_row add.commute)
  have "bi + 1 \<le> 2 ^ 64" "m + 1 \<le> 2 ^ 64"
    using unat_lt64 [of "t1 ! i * INV"] unat_lt64 [of "l b i"] by (simp_all add: m_def bi_def)
  then have "fr_val a * (bi + 1) \<le> fr_val a * 2 ^ 64" "(m + 1) * r_modulus \<le> 2 ^ 64 * r_modulus"
    by (simp_all only: mult_le_mono2 mult_le_mono1)
  then have p: "fr_val a * bi + fr_val a \<le> 2 ^ 64 * fr_val a"
     "m * r_modulus + r_modulus \<le> 2 ^ 64 * r_modulus"
    by (simp_all add: algebra_simps)
  have "2 ^ 64 * W = win t i + (fr_val a * bi + m * r_modulus)"
    by (simp only: total add.assoc)
  also have "\<dots> < (fr_val a + r_modulus) + (fr_val a * bi + m * r_modulus)"
    using V by (rule add_strict_right_mono)
  also have "\<dots> = (fr_val a * bi + fr_val a) + (m * r_modulus + r_modulus)"
    by (simp only: ac_simps)
  also have "\<dots> \<le> 2 ^ 64 * fr_val a + 2 ^ 64 * r_modulus"
    by (intro add_mono p)
  finally have "2 ^ 64 * W < 2 ^ 64 * fr_val a + 2 ^ 64 * r_modulus" .
  then have "2 ^ 64 * W < 2 ^ 64 * (fr_val a + r_modulus)"
    by (simp only: distrib_left)
  then have W_lt: "W < fr_val a + r_modulus" by simp
  then have "W < 2 ^ 256" using a r_modulus_lt by simp
  then have "2 ^ 192 * (unat c1 + unat h3) < 2 ^ 192 * (2 ^ 64 :: nat)"
    by (simp add: W_def)
  then have nov: "unat c1 + unat h3 < 2 ^ 64" by simp
  then have us4: "unat (c1 + h3) = unat c1 + unat h3" by (simp add: unat_add64)
  then have "\<not> c1 + h3 < h3" by (simp add: word_less_nat_alt)
  then have res': "fr_mul_round a b i t = tc" by (simp add: res)
  show "length (fr_mul_round a b i t) = 8" by (simp add: res' tc_def len1)
  show "fr_mul_round a b i t ! k = 0" if "i + 5 \<le> k" "k < 8" for k
  proof -
    have "tc ! k = t1 ! k" using that by (simp add: tc_def)
    also have "\<dots> = t ! k" using that by (intro row(3)) simp
    also have "\<dots> = 0" using that by (intro zero) simp_all
    finally show ?thesis by (simp add: res')
  qed
  have tcs: "tc ! (i + 1) = lo1" "tc ! (i + 2) = lo2" "tc ! (i + 3) = lo3" "tc ! (i + 4) = c1 + h3"
    using i len1 by (simp_all add: tc_def)
  have idx: "i + 1 + 1 = i + 2" "i + 1 + 2 = i + 3" "i + 1 + 3 = i + 4" by simp_all
  have W_eq: "win (fr_mul_round a b i t) (i + 1) = W"
    by (simp only: res' win_def idx tcs us4 W_def)
  show "\<exists>m. 2 ^ 64 * win (fr_mul_round a b i t) (i + 1)
           = win t i + fr_val a * unat (l b i) + m * r_modulus"
    unfolding W_eq using total unfolding bi_def by (rule exI)
  show "win (fr_mul_round a b i t) (i + 1) < fr_val a + r_modulus"
    unfolding W_eq using W_lt .
qed




lemma bpre_4: "bpre b 4 = fr_val b"
proof -
  have "(4::nat) = Suc (Suc (Suc (Suc 0)))" by simp
  then have "bpre b 4 = bpre b (Suc (Suc (Suc (Suc 0))))"
    by (rule arg_cong)
  also have "\<dots> = fr_val b"
    by (simp add: fr_val_def l_def)
  finally show ?thesis .
qed

lemma mul_inv_step:
  assumes inv: "mul_inv a b i t" and i: "i < 4" and a: "fr_val a < r_modulus"
  shows "mul_inv a b (i + 1) (fr_mul_round a b i t)"
proof -
  from inv have len: "length t = 8"
    and zero: "\<And>k. i + 4 \<le> k \<Longrightarrow> k < 8 \<Longrightarrow> t ! k = 0"
    and V: "win t i < fr_val a + r_modulus"
    by (simp_all add: mul_inv_def)
  from inv obtain M where M: "2 ^ (64 * i) * win t i = fr_val a * bpre b i + M * r_modulus"
    by (auto simp add: mul_inv_def)
  note st = fr_mul_round_step [OF len i zero V a, where b = b]
  from st(3) obtain m where m: "2 ^ 64 * win (fr_mul_round a b i t) (i + 1)
      = win t i + fr_val a * unat (l b i) + m * r_modulus"
    by blast
  have "2 ^ (64 * (i + 1)) * win (fr_mul_round a b i t) (i + 1)
      = 2 ^ (64 * i) * (2 ^ 64 * win (fr_mul_round a b i t) (i + 1))"
    by (simp add: power_add)
  also have "\<dots> = 2 ^ (64 * i) * win t i + 2 ^ (64 * i) * (fr_val a * unat (l b i))
      + 2 ^ (64 * i) * (m * r_modulus)"
    by (simp only: m distrib_left)
  also have "\<dots> = fr_val a * (bpre b i + 2 ^ (64 * i) * unat (l b i))
      + (M + 2 ^ (64 * i) * m) * r_modulus"
    by (simp only: M) (simp add: algebra_simps)
  finally have "\<exists>M'. 2 ^ (64 * (i + 1)) * win (fr_mul_round a b i t) (i + 1)
      = fr_val a * bpre b (i + 1) + M' * r_modulus"
    by auto
  moreover have "\<forall>k. i + 1 + 4 \<le> k \<longrightarrow> k < 8 \<longrightarrow> fr_mul_round a b i t ! k = 0"
    using st(2) by simp
  ultimately show ?thesis
    using st(1) st(4) unfolding mul_inv_def by blast
qed

lemma mul_inv_outer:
  assumes "mul_inv a b i t" "i \<le> 4" "fr_val a < r_modulus"
  shows "mul_inv a b 4 (fr_mul_outer a b i t)"
  using assms
proof (induction a b i t rule: fr_mul_outer.induct)
  case (1 a b i t)
  show ?case
  proof (cases "i < 4")
    case True
    then have "mul_inv a b (i + 1) (fr_mul_round a b i t)"
      using "1.prems" by (intro mul_inv_step) simp_all
    then have "mul_inv a b 4 (fr_mul_outer a b (i + 1) (fr_mul_round a b i t))"
      using True "1.prems" by (intro "1.IH") simp_all
    then show ?thesis using True by (subst fr_mul_outer.simps) simp
  next
    case False
    with "1.prems" have "i = 4" by simp
    with "1.prems" show ?thesis by (subst fr_mul_outer.simps) simp
  qed
qed

lemma mul_inv_init: "mul_inv a b 0 [0, 0, 0, 0, 0, 0, 0, 0]"
proof -
  have z: "[0, 0, 0, 0, 0, 0, 0, 0 :: ulong] = replicate 8 0"
    by (simp add: eval_nat_numeral)
  show ?thesis
    unfolding z by (simp add: mul_inv_def win_def r_modulus_def)
qed




lemma lex_step:
  fixes x m X M C :: nat
  assumes "x < C" "m < C"
  shows "(m + C * M \<le> x + C * X) = (if X > M then True else if X = M then x \<ge> m else False)"
proof -
  consider "X > M" | "X = M" | "X < M" by linarith
  then show ?thesis
  proof cases
    case 1
    then have "C * (M + 1) \<le> C * X" by (intro mult_le_mono2) simp
    then have "m + C * M \<le> C * X" using assms by simp
    then show ?thesis using 1 by simp
  next
    case 2
    then show ?thesis by simp
  next
    case 3
    then have "C * (X + 1) \<le> C * M" by (intro mult_le_mono2) simp
    then have "x + C * X < m + C * M" using assms by simp
    then show ?thesis using 3 by simp
  qed
qed

lemma limb_bound:
  fixes x X C B :: nat
  assumes "x < C" "X < B"
  shows "x + C * X < C * B"
proof -
  have "C * (X + 1) \<le> C * B" using assms by (intro mult_le_mono2) simp
  then show ?thesis using assms by simp
qed

lemma fr_val_lex:
  "(r_modulus \<le> fr_val a) = (if unat (l3 a) > unat MODULUS_w then True
      else if unat (l3 a) = unat MODULUS_w then
        (if unat (l2 a) > unat MODULUS_z then True
         else if unat (l2 a) = unat MODULUS_z then
           (if unat (l1 a) > unat MODULUS_y then True
            else if unat (l1 a) = unat MODULUS_y then unat (l0 a) \<ge> unat MODULUS_x
            else False)
         else False)
      else False)"
proof -
  define x1 where "x1 = unat (l0 a) + 2 ^ 64 * unat (l1 a)"
  define x2 where "x2 = x1 + 2 ^ 128 * unat (l2 a)"
  define m1 where "m1 = unat MODULUS_x + 2 ^ 64 * unat MODULUS_y"
  define m2 where "m2 = m1 + 2 ^ 128 * unat MODULUS_z"
  have b1: "x1 < 2 ^ 128" "m1 < 2 ^ 128"
    using limb_bound [OF unat_lt64 unat_lt64, of "l0 a" "l1 a"]
      limb_bound [OF unat_lt64 unat_lt64, of "MODULUS_x" "MODULUS_y"]
    by (simp_all add: x1_def m1_def)
  have b2: "x2 < 2 ^ 192" "m2 < 2 ^ 192"
    using limb_bound [OF b1(1) unat_lt64, of "l2 a"] limb_bound [OF b1(2) unat_lt64, of MODULUS_z]
    by (simp_all add: x2_def m2_def)
  have "(r_modulus \<le> fr_val a) = (m2 + 2 ^ 192 * unat MODULUS_w \<le> x2 + 2 ^ 192 * unat (l3 a))"
    by (simp add: r_modulus_limbs fr_val_def x2_def x1_def m2_def m1_def)
  also have "\<dots> = (if unat (l3 a) > unat MODULUS_w then True
      else if unat (l3 a) = unat MODULUS_w then m2 \<le> x2 else False)"
    using b2 by (rule lex_step)
  also have "(m2 \<le> x2) = (if unat (l2 a) > unat MODULUS_z then True
      else if unat (l2 a) = unat MODULUS_z then m1 \<le> x1 else False)"
    unfolding m2_def x2_def using b1 by (rule lex_step)
  also have "(m1 \<le> x1) = (if unat (l1 a) > unat MODULUS_y then True
      else if unat (l1 a) = unat MODULUS_y then unat MODULUS_x \<le> unat (l0 a) else False)"
    unfolding m1_def x1_def using unat_lt64 unat_lt64 by (rule lex_step)
  finally show ?thesis .
qed

lemma fr_ge_modulus_iff: "fr_ge_modulus a = (r_modulus \<le> fr_val a)"
  unfolding fr_val_lex fr_ge_modulus_def
  by (simp only: word_less_nat_alt word_le_nat_alt word_unat_eq_iff)




lemma sbb_correct:
  fixes x y bin :: ulong
  assumes "unat y + unat bin < 2 ^ 64"
  shows "unat (x - y - bin) + unat y + unat bin
     = unat x + 2 ^ 64 * (if x < y + bin then 1 else 0)"
proof -
  have z: "unat (y + bin) = unat y + unat bin"
    using assms by (simp add: unat_add64)
  have eq: "x - y - bin = x - (y + bin)" by (simp only: diff_diff_eq)
  have "unat (x - (y + bin)) = (if unat (y + bin) \<le> unat x then unat x - unat (y + bin)
       else unat x + 2 ^ LENGTH(64) - unat (y + bin))"
    by (rule unat_sub_if')
  then have "unat (x - y - bin) = (if unat y + unat bin \<le> unat x then unat x - (unat y + unat bin)
       else unat x + 2 ^ 64 - (unat y + unat bin))"
    by (simp only: eq z) simp
  moreover have "(x < y + bin) = (unat x < unat y + unat bin)"
    by (simp only: word_less_nat_alt z)
  ultimately show ?thesis
    using assms by (simp split: if_splits)
qed

lemma unat_borrow: "unat (if c then 1 else (0::ulong)) \<le> 1"
  by simp

lemma fr_reduce_ge:
  assumes ge: "r_modulus \<le> fr_val a"
  shows "fr_val (fr_reduce a) + r_modulus = fr_val a"
proof -
  define b0 :: ulong where "b0 = (if l0 a < MODULUS_x + 0 then 1 else 0)"
  define b1 :: ulong where "b1 = (if l1 a < MODULUS_y + b0 then 1 else 0)"
  define b2 :: ulong where "b2 = (if l2 a < MODULUS_z + b1 then 1 else 0)"
  define d0 d1 d2 d3 where "d0 = l0 a - MODULUS_x - 0" and "d1 = l1 a - MODULUS_y - b0"
    and "d2 = l2 a - MODULUS_z - b1" and "d3 = l3 a - MODULUS_w - b2"
  have res: "fr_reduce a = \<lparr>l0 = d0, l1 = d1, l2 = d2, l3 = d3\<rparr>"
    using ge unfolding fr_reduce_def fr_ge_modulus_iff Let_def d0_def d1_def d2_def d3_def
      b0_def b1_def b2_def by simp
  have ub: "unat b0 \<le> 1" "unat b1 \<le> 1" "unat b2 \<le> 1"
    by (simp_all add: b0_def b1_def b2_def)
  have e0: "unat d0 + unat MODULUS_x + unat (0::ulong)
      = unat (l0 a) + 2 ^ 64 * (if l0 a < MODULUS_x + 0 then 1 else 0)"
    unfolding d0_def by (rule sbb_correct) (simp add: MODULUS_x_def)
  have e1: "unat d1 + unat MODULUS_y + unat b0
      = unat (l1 a) + 2 ^ 64 * (if l1 a < MODULUS_y + b0 then 1 else 0)"
    unfolding d1_def using ub by (intro sbb_correct) (simp add: MODULUS_y_def)
  have e2: "unat d2 + unat MODULUS_z + unat b1
      = unat (l2 a) + 2 ^ 64 * (if l2 a < MODULUS_z + b1 then 1 else 0)"
    unfolding d2_def using ub by (intro sbb_correct) (simp add: MODULUS_z_def)
  have e3: "unat d3 + unat MODULUS_w + unat b2
      = unat (l3 a) + 2 ^ 64 * (if l3 a < MODULUS_w + b2 then 1 else 0)"
    unfolding d3_def using ub by (intro sbb_correct) (simp add: MODULUS_w_def)
  define b3 :: nat where "b3 = (if l3 a < MODULUS_w + b2 then 1 else 0)"
  have u0: "unat b0 = (if l0 a < MODULUS_x + 0 then 1 else 0)"
    and u1: "unat b1 = (if l1 a < MODULUS_y + b0 then 1 else 0)"
    and u2: "unat b2 = (if l2 a < MODULUS_z + b1 then 1 else 0)"
    by (simp_all add: b0_def b1_def b2_def)
  have e0': "unat d0 + unat MODULUS_x = unat (l0 a) + 2 ^ 64 * unat b0"
    using e0 unfolding u0 [symmetric] by simp
  have e1': "unat d1 + unat MODULUS_y + unat b0 = unat (l1 a) + 2 ^ 64 * unat b1"
    using e1 unfolding u1 [symmetric] by simp
  have e2': "unat d2 + unat MODULUS_z + unat b1 = unat (l2 a) + 2 ^ 64 * unat b2"
    using e2 unfolding u2 [symmetric] by simp
  have e3': "unat d3 + unat MODULUS_w + unat b2 = unat (l3 a) + 2 ^ 64 * b3"
    using e3 unfolding b3_def [symmetric] by simp
  define D where "D = unat d0 + 2 ^ 64 * unat d1 + 2 ^ 128 * unat d2 + 2 ^ 192 * unat d3"
  have "D + r_modulus + (2 ^ 64 * unat b0 + 2 ^ 128 * unat b1 + 2 ^ 192 * unat b2)
     = (unat d0 + unat MODULUS_x) + 2 ^ 64 * (unat d1 + unat MODULUS_y + unat b0)
       + 2 ^ 128 * (unat d2 + unat MODULUS_z + unat b1)
       + 2 ^ 192 * (unat d3 + unat MODULUS_w + unat b2)"
    by (simp add: D_def r_modulus_limbs algebra_simps)
  also have "\<dots> = (unat (l0 a) + 2 ^ 64 * unat b0) + 2 ^ 64 * (unat (l1 a) + 2 ^ 64 * unat b1)
       + 2 ^ 128 * (unat (l2 a) + 2 ^ 64 * unat b2)
       + 2 ^ 192 * (unat (l3 a) + 2 ^ 64 * b3)"
    by (simp only: e0' e1' e2' e3')
  also have "\<dots> = fr_val a + 2 ^ 256 * b3
       + (2 ^ 64 * unat b0 + 2 ^ 128 * unat b1 + 2 ^ 192 * unat b2)"
    by (simp add: fr_val_def algebra_simps)
  finally have tot: "D + r_modulus = fr_val a + 2 ^ 256 * b3" by simp
  have D_lt: "D < 2 ^ 256"
  proof -
    have "unat d0 + 2 ^ 64 * unat d1 < 2 ^ 64 * 2 ^ 64"
      using unat_lt64 unat_lt64 by (rule limb_bound)
    then have "unat d0 + 2 ^ 64 * unat d1 < 2 ^ 128" by simp
    then have "unat d0 + 2 ^ 64 * unat d1 + 2 ^ 128 * unat d2 < 2 ^ 128 * 2 ^ 64"
      using unat_lt64 by (rule limb_bound)
    then have "unat d0 + 2 ^ 64 * unat d1 + 2 ^ 128 * unat d2 < 2 ^ 192" by simp
    then have "unat d0 + 2 ^ 64 * unat d1 + 2 ^ 128 * unat d2 + 2 ^ 192 * unat d3 < 2 ^ 192 * 2 ^ 64"
      using unat_lt64 by (rule limb_bound)
    then show ?thesis by (simp add: D_def)
  qed
  have "b3 = 0"
  proof (rule ccontr)
    assume "b3 \<noteq> 0"
    then have "b3 = 1" by (simp add: b3_def split: if_splits)
    with tot ge D_lt show False by simp
  qed
  with tot have "D + r_modulus = fr_val a" by simp
  then show ?thesis by (simp add: res fr_val_def D_def)
qed

lemma fr_val_lt: "fr_val a < 2 ^ 256"
proof -
  have "unat (l0 a) + 2 ^ 64 * unat (l1 a) < 2 ^ 64 * 2 ^ 64"
    using unat_lt64 unat_lt64 by (rule limb_bound)
  then have "unat (l0 a) + 2 ^ 64 * unat (l1 a) < 2 ^ 128" by simp
  then have "unat (l0 a) + 2 ^ 64 * unat (l1 a) + 2 ^ 128 * unat (l2 a) < 2 ^ 128 * 2 ^ 64"
    using unat_lt64 by (rule limb_bound)
  then have "unat (l0 a) + 2 ^ 64 * unat (l1 a) + 2 ^ 128 * unat (l2 a) < 2 ^ 192" by simp
  then have "unat (l0 a) + 2 ^ 64 * unat (l1 a) + 2 ^ 128 * unat (l2 a)
      + 2 ^ 192 * unat (l3 a) < 2 ^ 192 * 2 ^ 64"
    using unat_lt64 by (rule limb_bound)
  then show ?thesis by (simp add: fr_val_def)
qed

lemma fr_reduce_mod:
  assumes "fr_val a < 2 * r_modulus"
  shows "fr_val (fr_reduce a) = fr_val a mod r_modulus"
proof (cases "r_modulus \<le> fr_val a")
  case True
  then have "fr_val (fr_reduce a) = fr_val a - r_modulus"
    using fr_reduce_ge [OF True] by simp
  moreover have "fr_val a mod r_modulus = fr_val a - r_modulus"
    using True assms by (simp add: mod_if le_mod_geq)
  ultimately show ?thesis by simp
next
  case False
  then show ?thesis by (simp add: fr_reduce_def fr_ge_modulus_iff)
qed

lemma mont_R_inv: "(2 ^ 256 * mont_R_inv) mod r_modulus = 1"
  by (simp add: mont_R_inv_def r_modulus_def)

lemma r_modulus_pos: "0 < r_modulus"
  by (simp add: r_modulus_def)

lemma fr_mul_value:
  assumes a: "fr_val a < r_modulus"
  shows "fr_val (fr_mul a b) < r_modulus"
    and "(2 ^ 256 * fr_val (fr_mul a b)) mod r_modulus = (fr_val a * fr_val b) mod r_modulus"
proof -
  define t where "t = fr_mul_outer a b 0 [0, 0, 0, 0, 0, 0, 0, 0]"
  define x where "x = \<lparr>l0 = t ! 4, l1 = t ! 5, l2 = t ! 6, l3 = t ! 7\<rparr>"
  have inv: "mul_inv a b 4 t"
    unfolding t_def using mul_inv_init a by (intro mul_inv_outer) simp_all
  have xw: "fr_val x = win t 4" by (simp add: x_def fr_val_def win_def)
  from inv have lt: "fr_val x < fr_val a + r_modulus"
    by (simp add: mul_inv_def xw)
  from inv obtain M where M: "2 ^ 256 * fr_val x = fr_val a * fr_val b + M * r_modulus"
    by (auto simp add: mul_inv_def xw bpre_4)
  have lt2: "fr_val x < 2 * r_modulus" using lt a by simp
  have res: "fr_mul a b = fr_reduce x" by (simp add: fr_mul_def t_def x_def Let_def)
  have val: "fr_val (fr_mul a b) = fr_val x mod r_modulus"
    unfolding res using lt2 by (rule fr_reduce_mod)
  show "fr_val (fr_mul a b) < r_modulus"
    unfolding val using r_modulus_pos by simp
  have "(2 ^ 256 * fr_val (fr_mul a b)) mod r_modulus = (2 ^ 256 * fr_val x) mod r_modulus"
    unfolding val by (rule mod_mult_right_eq)
  also have "\<dots> = (fr_val a * fr_val b) mod r_modulus"
    unfolding M by simp
  finally show "(2 ^ 256 * fr_val (fr_mul a b)) mod r_modulus
      = (fr_val a * fr_val b) mod r_modulus" .
qed

lemma fr_mul_montgomery:
  assumes a: "fr_val a < r_modulus"
  shows "fr_val (fr_mul a b) = (fr_val a * fr_val b * mont_R_inv) mod r_modulus"
proof -
  let ?y = "fr_val (fr_mul a b)"
  note v = fr_mul_value [OF a, of b]
  have "?y = (?y * 1) mod r_modulus" using v(1) by simp
  also have "\<dots> = (?y * ((2 ^ 256 * mont_R_inv) mod r_modulus)) mod r_modulus"
    by (simp only: mont_R_inv)
  also have "\<dots> = (?y * (2 ^ 256 * mont_R_inv)) mod r_modulus"
    by (rule mod_mult_right_eq)
  also have "\<dots> = ((2 ^ 256 * ?y) * mont_R_inv) mod r_modulus"
    by (simp only: ac_simps)
  also have "\<dots> = (((2 ^ 256 * ?y) mod r_modulus) * mont_R_inv) mod r_modulus"
    by (rule mod_mult_left_eq [symmetric])
  also have "\<dots> = (((fr_val a * fr_val b) mod r_modulus) * mont_R_inv) mod r_modulus"
    by (simp only: v(2))
  also have "\<dots> = (fr_val a * fr_val b * mont_R_inv) mod r_modulus"
    by (rule mod_mult_left_eq)
  finally show ?thesis .
qed

lemma mod_carry:
  fixes T M :: nat
  assumes "T < 2 * M"
  shows "T mod M + M * (if M \<le> T then 1 else 0) = T"
proof (cases "M \<le> T")
  case True
  then have "T mod M = T - M" using assms by (simp add: mod_if le_mod_geq)
  with True show ?thesis by simp
next
  case False
  then show ?thesis by simp
qed

lemma adc_correct:
  assumes c: "unat carry \<le> 1" and run: "adc a b carry = (s, c')"
  shows "unat s + 2 ^ 64 * unat c' = unat a + unat b + unat carry" and "unat c' \<le> 1"
proof -
  define T where "T = unat a + unat b + unat carry"
  have s: "s = a + b + carry"
    and c': "c' = (if s < a \<or> (carry \<noteq> 0 \<and> s = a) then 1 else 0)"
    using run by (auto simp add: adc_def Let_def)
  have us: "unat s = T mod 2 ^ 64"
    unfolding s T_def by (simp add: unat_add64 mod_simps)
  have cz: "(carry \<noteq> 0) = (unat carry \<noteq> 0)" by (simp add: unat_eq_0)
  have cond: "(s < a \<or> (carry \<noteq> 0 \<and> s = a)) = (2 ^ 64 \<le> T)"
  proof (cases "2 ^ 64 \<le> T")
    case True
    have "T < 2 * 2 ^ 64"
      using unat_lt64 [of a] unat_lt64 [of b] c by (simp add: T_def)
    then have "unat s = T - 2 ^ 64" using True by (simp add: us mod_if le_mod_geq)
    then show ?thesis
      using True unat_lt64 [of b] c
      by (auto simp add: word_less_nat_alt word_unat_eq_iff cz T_def)
  next
    case False
    then have "unat s = T" by (simp add: us)
    then show ?thesis
      using False by (auto simp add: word_less_nat_alt word_unat_eq_iff cz T_def)
  qed
  show "unat c' \<le> 1" by (simp add: c')
  have "T < 2 * 2 ^ 64"
    using unat_lt64 [of a] unat_lt64 [of b] c by (simp add: T_def)
  then have "T mod 2 ^ 64 + 2 ^ 64 * (if 2 ^ 64 \<le> T then 1 else 0) = T"
    by (rule mod_carry)
  moreover have "unat c' = (if 2 ^ 64 \<le> T then 1 else 0)"
    unfolding c' cond by simp
  ultimately have "unat s + 2 ^ 64 * unat c' = T"
    by (simp only: us)
  then show "unat s + 2 ^ 64 * unat c' = unat a + unat b + unat carry"
    by (simp add: T_def)
qed

lemma fr_add_correct:
  assumes a: "fr_val a < r_modulus" and b: "fr_val b < r_modulus"
  shows "fr_val (fr_add a b) = (fr_val a + fr_val b) mod r_modulus"
proof -
  obtain r0 c0 where s0: "adc (l0 a) (l0 b) 0 = (r0, c0)" by fastforce
  obtain r1 c1 where s1: "adc (l1 a) (l1 b) c0 = (r1, c1)" by fastforce
  obtain r2 c2 where s2: "adc (l2 a) (l2 b) c1 = (r2, c2)" by fastforce
  obtain r3 c3 where s3: "adc (l3 a) (l3 b) c2 = (r3, c3)" by fastforce
  define x where "x = \<lparr>l0 = r0, l1 = r1, l2 = r2, l3 = r3\<rparr>"
  have res: "fr_add a b = fr_reduce x"
    by (simp add: fr_add_def Let_def s0 s1 s2 s3 x_def)
  have z: "unat (0::ulong) \<le> 1" by simp
  note e0 = adc_correct [OF z s0]
  note e1 = adc_correct [OF e0(2) s1]
  note e2 = adc_correct [OF e1(2) s2]
  note e3 = adc_correct [OF e2(2) s3]
  have "fr_val x + 2 ^ 256 * unat c3 + (2 ^ 64 * unat c0 + 2 ^ 128 * unat c1 + 2 ^ 192 * unat c2)
     = (unat r0 + 2 ^ 64 * unat c0) + 2 ^ 64 * (unat r1 + 2 ^ 64 * unat c1)
       + 2 ^ 128 * (unat r2 + 2 ^ 64 * unat c2) + 2 ^ 192 * (unat r3 + 2 ^ 64 * unat c3)"
    by (simp add: x_def fr_val_def algebra_simps)
  also have "\<dots> = (unat (l0 a) + unat (l0 b) + unat (0::ulong))
       + 2 ^ 64 * (unat (l1 a) + unat (l1 b) + unat c0)
       + 2 ^ 128 * (unat (l2 a) + unat (l2 b) + unat c1)
       + 2 ^ 192 * (unat (l3 a) + unat (l3 b) + unat c2)"
    by (simp only: e0(1) e1(1) e2(1) e3(1))
  also have "\<dots> = fr_val a + fr_val b
       + (2 ^ 64 * unat c0 + 2 ^ 128 * unat c1 + 2 ^ 192 * unat c2)"
    by (simp add: fr_val_def algebra_simps)
  finally have tot: "fr_val x + 2 ^ 256 * unat c3 = fr_val a + fr_val b" by simp
  have "fr_val a + fr_val b < 2 ^ 256" using a b r_modulus_lt by simp
  with tot have "unat c3 = 0" by (cases "unat c3") simp_all
  with tot have xv: "fr_val x = fr_val a + fr_val b" by simp
  have "fr_val x < 2 * r_modulus" using a b by (simp add: xv)
  then show ?thesis unfolding res xv [symmetric] by (rule fr_reduce_mod)
qed
section \<open>The bit-reversal permutation\<close>

lemma bit_reverse_step:
  fixes r v :: uint
  shows "bit (push_bit 1 r OR (v AND 1)) q = (if q = 0 then bit v 0 else q < 32 \<and> bit r (q - 1))"
  unfolding bit_or_iff bit_and_iff bit_push_bit_iff bit_1_iff
  by (auto simp add: possible_bit_word dest: bit_imp_le_length)

lemma bit_reverse_loop_bit:
  "i \<le> L \<Longrightarrow> bit (bit_reverse_loop L i r v) j
     = (j < 32 \<and> (if j < L - i then bit v (L - i - 1 - j) else bit r (j - (L - i))))"
proof (induction L i r v arbitrary: j rule: bit_reverse_loop.induct)
  case (1 L i r v)
  show ?case
  proof (cases "i < L")
    case True
    define m where "m = L - (i + 1)"
    have Li: "L - i = Suc m" using True by (simp add: m_def)
    have "bit (bit_reverse_loop L i r v) j
        = bit (bit_reverse_loop L (i + 1) (push_bit 1 r OR (v AND 1)) (drop_bit 1 v)) j"
      using True by (subst bit_reverse_loop.simps) simp
    also have "\<dots> = (j < 32 \<and> (if j < m then bit (drop_bit 1 v) (m - 1 - j)
         else bit (push_bit 1 r OR (v AND 1)) (j - m)))"
      using True by (subst "1.IH") (simp_all add: m_def)
    also have "\<dots> = (j < 32 \<and> (if j < Suc m then bit v (Suc m - 1 - j) else bit r (j - Suc m)))"
      unfolding bit_reverse_step bit_drop_bit_eq
      by (auto simp add: less_Suc_eq Suc_diff_Suc not_less dest: bit_imp_le_length)
    finally show ?thesis by (simp only: Li)
  next
    case False
    with "1.prems" have "i = L" by simp
    then show ?thesis
      by (subst bit_reverse_loop.simps) (auto dest: bit_imp_le_length)
  qed
qed

lemma reverse_bits_bit:
  assumes "k \<le> 32"
  shows "bit (reverse_bits i k) j = (j < k \<and> bit i (k - 1 - j))"
proof -
  have "bit (reverse_bits i k) j = bit (bit_reverse_loop k 0 0 (of_nat i :: uint)) j"
    by (simp add: reverse_bits_def bit_unsigned_iff)
  also have "\<dots> = (j < 32 \<and> (if j < k then bit (of_nat i :: uint) (k - 1 - j) else False))"
    by (subst bit_reverse_loop_bit) simp_all
  also have "\<dots> = (j < k \<and> bit i (k - 1 - j))"
    using assms by (auto simp add: bit_of_nat_iff)
  finally show ?thesis .
qed

lemma reverse_bits_less:
  assumes "k \<le> 32"
  shows "reverse_bits i k < 2 ^ k"
proof -
  have "take_bit k (reverse_bits i k) = reverse_bits i k"
    by (rule bit_eqI) (auto simp add: bit_take_bit_iff reverse_bits_bit [OF assms])
  then show ?thesis
    by (metis take_bit_nat_less_exp)
qed

lemma reverse_bits_involution:
  assumes "k \<le> 32" "i < 2 ^ k"
  shows "reverse_bits (reverse_bits i k) k = i"
proof (rule bit_eqI)
  fix j
  have hi: "k \<le> j \<Longrightarrow> \<not> bit i j"
  proof -
    assume that: "k \<le> j"
    have "i < 2 ^ j" using assms(2) that
      by (meson le_trans less_or_eq_imp_le linorder_not_le one_le_numeral power_increasing)
    then show ?thesis by (simp add: bit_iff_odd)
  qed
  show "bit (reverse_bits (reverse_bits i k) k) j = bit i j"
  proof (cases "j < k")
    case True
    then have "k - 1 - (k - 1 - j) = j" "k - 1 - j < k" by simp_all
    then show ?thesis using True by (simp add: reverse_bits_bit [OF assms(1)])
  next
    case False
    then show ?thesis using hi by (simp add: reverse_bits_bit [OF assms(1)])
  qed
qed

lemma unat_of_nat_uint: "i < 2 ^ 32 \<Longrightarrow> unat (of_nat i :: uint) = i"
  by (simp add: unat_of_nat)

lemma pow_lt_32: "k < 32 \<Longrightarrow> (2::nat) ^ k < 2 ^ 32"
  by (rule power_strict_increasing) simp_all

lemma bit_reversal_thread:
  assumes k: "k < 32" and n: "n = 2 ^ k" and i: "i < n"
  shows "bit_reversal (of_nat n) (of_nat k) (of_nat i) d
     = (if i < reverse_bits i k then d[i := d ! reverse_bits i k, reverse_bits i k := d ! i] else d)"
proof -
  have n32: "n < 2 ^ 32" using k n by (simp only: pow_lt_32)
  have un: "unat (of_nat n :: uint) = n" using n32 by (rule unat_of_nat_uint)
  have ui: "unat (of_nat i :: uint) = i" using n32 i by (intro unat_of_nat_uint) simp
  have uk: "unat (of_nat k :: uint) = k" using k by (intro unat_of_nat_uint) simp
  have ur: "unat (bit_reverse_loop k 0 0 (of_nat i)) = reverse_bits i k"
    by (simp add: reverse_bits_def)
  have rl: "reverse_bits i k < n" using k n by (simp add: reverse_bits_less)
  show ?thesis
    using i rl by (simp add: bit_reversal_def Let_def word_le_nat_alt word_less_nat_alt un ui uk ur)
qed

lemma swap_fold:
  fixes \<rho> :: "nat \<Rightarrow> nat"
  assumes inv: "\<And>i. i < n \<Longrightarrow> \<rho> i < n \<and> \<rho> (\<rho> i) = i"
    and len: "length data = n"
    and g: "g \<le> n"
  defines "K \<equiv> (\<lambda>g d. if g < \<rho> g then d[g := d ! \<rho> g, \<rho> g := d ! g] else d)"
  shows "length (fold K [0..<g] data) = n
    \<and> (\<forall>p<n. fold K [0..<g] data ! p = (if min p (\<rho> p) < g then data ! \<rho> p else data ! p))"
  using g
proof (induction g)
  case 0
  then show ?case by (simp add: len)
next
  case (Suc g)
  define cur where "cur = fold K [0..<g] data"
  have g: "g < n" using Suc.prems by simp
  have IH: "length cur = n"
    "\<And>p. p < n \<Longrightarrow> cur ! p = (if min p (\<rho> p) < g then data ! \<rho> p else data ! p)"
    using Suc.IH g by (simp_all add: cur_def)
  have step: "fold K [0..<Suc g] data = K g cur"
    by (simp add: cur_def)
  have rg: "\<rho> g < n" "\<rho> (\<rho> g) = g" using inv [OF g] by simp_all
  show ?case
  proof (cases "g < \<rho> g")
    case True
    have new: "K g cur = cur[g := cur ! \<rho> g, \<rho> g := cur ! g]"
      using True by (simp add: K_def)
    have cg: "cur ! g = data ! g" using IH(2) [OF g] True by simp
    have crg: "cur ! \<rho> g = data ! \<rho> g" using IH(2) [OF rg(1)] True rg(2) by simp
    have *: "K g cur ! p = (if min p (\<rho> p) < Suc g then data ! \<rho> p else data ! p)" if p: "p < n" for p
    proof -
      consider "p = g" | "p = \<rho> g" | "p \<noteq> g" "p \<noteq> \<rho> g" by blast
      then show ?thesis
      proof cases
        case 1
        then show ?thesis using True g IH(1) by (simp add: new crg)
      next
        case 2
        then show ?thesis using True g rg IH(1) by (simp add: new cg)
      next
        case 3
        then have "\<rho> p \<noteq> g" using inv [OF p] rg by metis
        with 3 have "(min p (\<rho> p) < Suc g) = (min p (\<rho> p) < g)"
          by (auto simp add: min_def less_Suc_eq)
        then show ?thesis using 3 IH(2) [OF p] by (simp add: new)
      qed
    qed
    moreover have "length (K g cur) = n" by (simp add: new IH(1))
    ultimately show ?thesis unfolding step by blast
  next
    case False
    have new: "K g cur = cur" using False by (simp add: K_def)
    have *: "cur ! p = (if min p (\<rho> p) < Suc g then data ! \<rho> p else data ! p)" if p: "p < n" for p
    proof (cases "min p (\<rho> p) = g")
      case True
      then have "p = g \<or> \<rho> p = g" by (auto simp add: min_def split: if_splits)
      then have "p = g \<or> p = \<rho> g" using inv [OF p] by auto
      moreover have "\<rho> g = g" 
      proof -
        from True \<open>p = g \<or> \<rho> p = g\<close> have "g \<le> \<rho> g"
          using inv [OF p] by (auto simp add: min_def split: if_splits)
        with False show ?thesis by simp
      qed
      ultimately have pg: "p = g" by simp
      show ?thesis using IH(2) [OF p] \<open>\<rho> g = g\<close> by (simp add: pg)
    next
      case False
      then have "(min p (\<rho> p) < Suc g) = (min p (\<rho> p) < g)"
        by (auto simp add: less_Suc_eq)
      then show ?thesis using IH(2) [OF p] by simp
    qed
    then show ?thesis unfolding step new using IH(1) by blast
  qed
qed

lemma dispatch_bit_reversal:
  assumes k: "k < 32" and n: "n = 2 ^ k" and len: "length data = n"
  shows "length (dispatch n (bit_reversal (of_nat n) (of_nat k)) data) = n"
    and "\<And>p. p < n \<Longrightarrow>
          dispatch n (bit_reversal (of_nat n) (of_nat k)) data ! p = data ! reverse_bits p k"
proof -
  define \<rho> where "\<rho> = (\<lambda>i. reverse_bits i k)"
  define K :: "nat \<Rightarrow> 'a list \<Rightarrow> 'a list"
    where "K = (\<lambda>g d. if g < \<rho> g then d[g := d ! \<rho> g, \<rho> g := d ! g] else d)"
  have inv: "\<rho> i < n \<and> \<rho> (\<rho> i) = i" if "i < n" for i
    using that k n by (simp add: \<rho>_def reverse_bits_less reverse_bits_involution)
  have "dispatch n (bit_reversal (of_nat n) (of_nat k)) data = fold K [0..<n] data"
    unfolding dispatch_def
    by (rule fold_cong) (simp_all add: K_def \<rho>_def bit_reversal_thread [OF k n] fun_eq_iff)
  moreover note swap_fold [of n \<rho> data n, OF inv len, folded K_def]
  ultimately have *: "length (dispatch n (bit_reversal (of_nat n) (of_nat k)) data) = n
    \<and> (\<forall>p<n. dispatch n (bit_reversal (of_nat n) (of_nat k)) data ! p
          = (if min p (\<rho> p) < n then data ! \<rho> p else data ! p))"
    by simp
  from * show "length (dispatch n (bit_reversal (of_nat n) (of_nat k)) data) = n" by simp
  show "dispatch n (bit_reversal (of_nat n) (of_nat k)) data ! p = data ! reverse_bits p k"
    if "p < n" for p
    using * that by (simp add: \<rho>_def min_def)
qed

text \<open>
  Claim C5. For every array of \<open>n = 2^k\<close> elements, the bit-reversal dispatch moves the
  element at index \<open>i\<close> to index \<open>reverse_bits i k\<close>, which is below \<open>n\<close> and is \<open>i\<close> with
  its \<open>k\<close> low bits reversed (bit \<open>b\<close> of \<open>i\<close> is bit \<open>k - 1 - b\<close> of the result, so the most
  significant bit reflects bit 0). Applying the dispatch twice is the identity. In the
  kernel, the thread at \<open>i\<close> swaps the elements at \<open>i\<close> and \<open>reverse_bits i k\<close> exactly when
  \<open>i < reverse_bits i k\<close>; as the reversal is an involution, of the two threads of a pair
  \<open>i \<noteq> reverse_bits i k\<close> exactly one swaps. The kernel receives \<open>n\<close> and \<open>log_n\<close> as 32-bit
  values, hence \<open>k < 32\<close>.
\<close>

theorem bit_reversal_permutation:
  assumes "k < 32" and "n = 2 ^ k" and "length data = n" and "i < n" and "b < k"
  shows "dispatch n (bit_reversal (of_nat n) (of_nat k)) data ! reverse_bits i k = data ! i
    \<and> reverse_bits i k < n
    \<and> bit (reverse_bits i k) (k - 1 - b) = bit i b
    \<and> dispatch n (bit_reversal (of_nat n) (of_nat k))
         (dispatch n (bit_reversal (of_nat n) (of_nat k)) data) = data
    \<and> bit_reversal (of_nat n) (of_nat k) (of_nat i) d
         = (if i < reverse_bits i k then d[i := d ! reverse_bits i k, reverse_bits i k := d ! i]
            else d)
    \<and> reverse_bits (reverse_bits i k) k = i
    \<and> (reverse_bits i k \<noteq> i \<longrightarrow>
         (i < reverse_bits i k) \<noteq> (reverse_bits i k < reverse_bits (reverse_bits i k) k))"
proof -
  let ?brp = "dispatch n (bit_reversal (of_nat n) (of_nat k)) :: 'a list \<Rightarrow> 'a list"
  have k32: "k \<le> 32" using assms(1) by simp
  have i2: "i < 2 ^ k" using assms by simp
  have rl: "reverse_bits i k < n" using assms(2) k32 by (simp add: reverse_bits_less)
  have ri: "reverse_bits (reverse_bits i k) k = i" using k32 i2 by (rule reverse_bits_involution)
  note d1 = dispatch_bit_reversal [OF assms(1) assms(2) assms(3)]
  note d2 = dispatch_bit_reversal [OF assms(1) assms(2) d1(1)]
  have "?brp data ! reverse_bits i k = data ! i"
    using d1(2) [OF rl] by (simp add: ri)
  moreover have "bit (reverse_bits i k) (k - 1 - b) = bit i b"
  proof -
    have "k - 1 - (k - 1 - b) = b" "k - 1 - b < k" using assms(5) by simp_all
    then show ?thesis by (simp add: reverse_bits_bit [OF k32])
  qed
  moreover have "?brp (?brp data) = data"
  proof (rule nth_equalityI)
    show "length (?brp (?brp data)) = length data" using d2(1) assms(3) by simp
    fix p assume "p < length (?brp (?brp data))"
    then have p: "p < n" using d2(1) by simp
    then have p2: "p < 2 ^ k" using assms(2) by simp
    have rp: "reverse_bits p k < n" using assms(2) k32 by (simp add: reverse_bits_less)
    have "?brp (?brp data) ! p = ?brp data ! reverse_bits p k" using d2(2) [OF p] .
    also have "\<dots> = data ! reverse_bits (reverse_bits p k) k" using d1(2) [OF rp] .
    also have "\<dots> = data ! p" using reverse_bits_involution [OF k32 p2] by simp
    finally show "?brp (?brp data) ! p = data ! p" .
  qed
  moreover note bit_reversal_thread [OF assms(1) assms(2) assms(4), of d]
  moreover have "reverse_bits i k \<noteq> i \<longrightarrow>
         (i < reverse_bits i k) \<noteq> (reverse_bits i k < reverse_bits (reverse_bits i k) k)"
    unfolding ri by auto
  ultimately show ?thesis using rl ri by blast
qed

theorem bit_reversal_permutation_witness:
  "(3::nat) < 32 \<and> (8::nat) = 2 ^ 3 \<and> length [10, 11, 12, 13, 14, 15, 16, 17 :: nat] = 8
   \<and> (1::nat) < 8 \<and> (0::nat) < 3
   \<and> reverse_bits 1 3 = 4
   \<and> dispatch 8 (bit_reversal (of_nat 8) (of_nat 3)) [10, 11, 12, 13, 14, 15, 16, 17 :: nat] ! 4 = 11
   \<and> dispatch 8 (bit_reversal (of_nat 8) (of_nat 3))
        (dispatch 8 (bit_reversal (of_nat 8) (of_nat 3)) [10, 11, 12, 13, 14, 15, 16, 17 :: nat])
       = [10, 11, 12, 13, 14, 15, 16, 17]"
proof -
  have r: "reverse_bits 1 3 = 4"
    by (simp add: reverse_bits_def bit_reverse_loop.simps)
  have h: "(3::nat) < 32" "(8::nat) = 2 ^ 3" "length [10, 11, 12, 13, 14, 15, 16, 17 :: nat] = 8"
    "(1::nat) < 8" "(0::nat) < 3"
    by simp_all
  note t = bit_reversal_permutation [OF h, where d = "[]"]
  from t have c1: "dispatch 8 (bit_reversal (of_nat 8) (of_nat 3))
      [10, 11, 12, 13, 14, 15, 16, 17 :: nat] ! reverse_bits 1 3
      = [10, 11, 12, 13, 14, 15, 16, 17 :: nat] ! 1"
    by (rule conjunct1)
  have c1': "dispatch 8 (bit_reversal (of_nat 8) (of_nat 3))
      [10, 11, 12, 13, 14, 15, 16, 17 :: nat] ! 4 = 11"
    using c1 unfolding r by simp
  from t have c4: "dispatch 8 (bit_reversal (of_nat 8) (of_nat 3))
        (dispatch 8 (bit_reversal (of_nat 8) (of_nat 3)) [10, 11, 12, 13, 14, 15, 16, 17 :: nat])
       = [10, 11, 12, 13, 14, 15, 16, 17]"
    by blast
  show ?thesis
    using r h c1' c4 by (intro conjI)
qed
section \<open>Facts about the settings code\<close>

lemma serialized_header:
  "header_bytes \<lparr>magic = KZG_MAGIC, version = 1, endianness = e, wordsize = w\<rparr>
     = [0x4B, 0x5A, 0x47, 0x00, 1, e, w]"
  by (simp add: header_bytes_def KZG_MAGIC_def)

lemma those_Cons_Some:
  "those (Some x # xs) = Some ys \<Longrightarrow> \<exists>zs. ys = x # zs \<and> those xs = Some zs"
  by (cases "those xs") simp_all

lemma serialize_fields_head:
  assumes "those (serialize_fields p h s) = Some fs"
  shows "\<exists>rest. concat fs = [0x4B, 0x5A, 0x47, 0x00, 1, get_endianness p, get_wordsize p] @ rest"
proof -
  obtain tl where "serialize_fields p h s
      = Some (header_bytes \<lparr>magic = KZG_MAGIC, version = 1,
                          endianness = get_endianness p, wordsize = get_wordsize p\<rparr>) # tl"
    by (simp add: serialize_fields_def)
  with assms obtain zs where "fs = header_bytes \<lparr>magic = KZG_MAGIC, version = 1,
                          endianness = get_endianness p, wordsize = get_wordsize p\<rparr> # zs"
    using those_Cons_Some by metis
  then show ?thesis by (simp add: serialized_header)
qed

lemma alloc_block_ok:
  assumes "alloc_block h b = (C_KZG_OK, q, h1)"
  shows "q = Some (next_addr h)" and "cells h1 = (cells h)(next_addr h \<mapsto> b)"
    and "next_addr h1 = next_addr h + 1" and "avail h1 = avail h - 1" and "0 < avail h"
  using assms by (auto simp add: alloc_block_def split: if_splits)

lemma serialize_settings_header:
  assumes "serialize_settings p h s = Some (C_KZG_OK, out, len, h')"
  shows "read_bytes h' out 0 7
     = Some [0x4B, 0x5A, 0x47, 0x00, 1, get_endianness p, get_wordsize p]"
proof -
  define total where "total = compute_serialized_size p s"
  obtain ret q h1 where al: "c_kzg_malloc h total = (ret, q, h1)"
    by (metis prod_cases3)
  have eq: "serialize_settings p h s =
      (if ret \<noteq> C_KZG_OK then Some (ret, q, 0, h1)
       else (case those (serialize_fields p h1 s) of
               None \<Rightarrow> None
             | Some fs \<Rightarrow>
                 if length (concat fs) \<noteq> total then None
                 else (case write_bytes h1 q (concat fs) of
                         None \<Rightarrow> None
                       | Some h2 \<Rightarrow> Some (C_KZG_OK, q, total, h2))))"
    by (simp add: serialize_settings_def Let_def total_def [symmetric] al)
  have ret: "ret = C_KZG_OK"
  proof (rule ccontr)
    assume "ret \<noteq> C_KZG_OK"
    with assms show False by (simp add: eq)
  qed
  obtain fs where fs: "those (serialize_fields p h1 s) = Some fs"
    using assms by (cases "those (serialize_fields p h1 s)") (simp_all add: eq ret)
  have len: "length (concat fs) = total"
    using assms by (simp add: eq ret fs split: if_splits)
  obtain h2 where wr: "write_bytes h1 q (concat fs) = Some h2"
    using assms by (cases "write_bytes h1 q (concat fs)") (simp_all add: eq ret fs len)
  have res: "out = q" "h' = h2"
    using assms by (simp_all add: eq ret fs len wr)
  from al ret have ab: "alloc_block h (Bytes (replicate total 0)) = (C_KZG_OK, q, h1)"
    by (auto simp add: c_kzg_malloc_def split: if_splits)
  note a = alloc_block_ok [OF ab]
  have h2: "cells h2 (next_addr h) = Some (Bytes (concat fs))"
    using wr by (auto simp add: write_bytes_def a len split: if_splits)
  obtain rest where hd: "concat fs = [0x4B, 0x5A, 0x47, 0x00, 1, get_endianness p, get_wordsize p] @ rest"
    using serialize_fields_head [OF fs] by blast
  show ?thesis
    unfolding res by (simp add: read_bytes_def a h2 hd)
qed

lemma deserialize_settings_bad_header:
  assumes "sizeof_header_t \<le> data_len"
    and "read_bytes h data 0 sizeof_header_t = Some hb"
    and "take 4 hb \<noteq> KZG_MAGIC \<or> hb ! 4 \<noteq> 1 \<or> hb ! 5 \<noteq> get_endianness p
         \<or> hb ! 6 \<noteq> get_wordsize p"
  shows "deserialize_settings p h data data_len = Some (C_KZG_BADARGS, init_settings, h)"
  using assms by (auto simp add: deserialize_settings_def Let_def header_of_bytes_def)

lemma deserialize_settings_short:
  assumes "data_len < 7"
  shows "deserialize_settings p h data data_len = Some (C_KZG_ERROR, init_settings, h)"
  using assms by (simp add: deserialize_settings_def Let_def sizeof_header_t_def)

lemma read_bytes_length: "read_bytes h q off n = Some bs \<Longrightarrow> length bs = n"
  by (auto simp add: read_bytes_def split: option.splits block.splits if_splits)

lemma heap_ok_live_less: "heap_ok h \<Longrightarrow> cells h a = Some b \<Longrightarrow> a < next_addr h"
  by (metis heap_ok_def not_le_imp_less option.distinct(1))

lemma frame_refl: "frame h h"
  by (simp add: frame_def)

lemma frame_trans: "frame h1 h2 \<Longrightarrow> frame h2 h3 \<Longrightarrow> frame h1 h3"
  by (auto simp add: frame_def)

lemma frame_cells: "frame h h' \<Longrightarrow> heap_ok h \<Longrightarrow> cells h a = Some b \<Longrightarrow> cells h' a = Some b"
  using heap_ok_live_less by (auto simp add: frame_def)

lemma frame_read_bytes:
  assumes "frame h h'" "heap_ok h" "read_bytes h q off n = Some bs"
  shows "read_bytes h' q off n = Some bs"
proof -
  from assms(3) obtain a old where q: "q = Some a" and c: "cells h a = Some (Bytes old)"
    by (auto simp add: read_bytes_def split: option.splits block.splits)
  have "cells h' a = Some (Bytes old)" using frame_cells [OF assms(1,2) c] .
  with assms(3) show ?thesis by (simp add: read_bytes_def q c)
qed

lemma frame_load_ptr:
  assumes "frame h h'" "heap_ok h" "load_ptr h arr i = Some q"
  shows "load_ptr h' arr i = Some q"
proof -
  from assms(3) obtain a ps where q: "arr = Some a" and c: "cells h a = Some (Ptrs ps)"
    by (auto simp add: load_ptr_def split: option.splits block.splits)
  have "cells h' a = Some (Ptrs ps)" using frame_cells [OF assms(1,2) c] .
  with assms(3) show ?thesis by (simp add: load_ptr_def q c)
qed

lemma frame_read_rows:
  assumes "frame h h'" "heap_ok h" "list_all (\<lambda>x. x \<noteq> None) (read_rows h arr n nb)"
  shows "read_rows h' arr n nb = read_rows h arr n nb"
  unfolding read_rows_def
proof (rule map_cong [OF refl])
  fix i assume "i \<in> set [0..<n]"
  then have "(case load_ptr h arr i of None \<Rightarrow> None | Some q \<Rightarrow> read_bytes h q 0 nb) \<noteq> None"
    using assms(3) by (simp add: read_rows_def list_all_iff)
  then obtain q bs where l: "load_ptr h arr i = Some q" and r: "read_bytes h q 0 nb = Some bs"
    by (auto split: option.splits)
  show "(case load_ptr h' arr i of None \<Rightarrow> None | Some q \<Rightarrow> read_bytes h' q 0 nb)
      = (case load_ptr h arr i of None \<Rightarrow> None | Some q \<Rightarrow> read_bytes h q 0 nb)"
    by (simp add: frame_load_ptr [OF assms(1,2) l] frame_read_bytes [OF assms(1,2) r] l r)
qed

lemma frame_settings_arrays:
  assumes "frame h h'" "heap_ok h" "list_all (\<lambda>x. x \<noteq> None) (settings_arrays p h s)"
  shows "settings_arrays p h' s = settings_arrays p h s"
proof -
  have rd: "read_bytes h' q 0 n = read_bytes h q 0 n" if "\<exists>y. read_bytes h q 0 n = Some y" for q n
    using that frame_read_bytes [OF assms(1,2)] by auto
  have rr: "read_rows h' arr n nb = read_rows h arr n nb"
    if "list_all (\<lambda>x. \<exists>y. x = Some y) (read_rows h arr n nb)" for arr n nb
    using that frame_read_rows [OF assms(1,2), of arr n nb] by simp
  show ?thesis
    using assms(3) by (auto simp add: settings_arrays_def rd rr)
qed

lemma those_all_Some: "list_all (\<lambda>x. x \<noteq> None) xs \<Longrightarrow> those xs = Some (map the xs)"
  by (induction xs) auto

lemma length_concat_uniform:
  "(\<And>x. x \<in> set xs \<Longrightarrow> length x = nb) \<Longrightarrow> length (concat xs) = length xs * nb"
  by (induction xs) simp_all

lemma read_rows_length: "length (read_rows h arr n nb) = n"
  by (simp add: read_rows_def)

lemma read_rows_entry_length:
  assumes "list_all (\<lambda>x. x \<noteq> None) (read_rows h arr n nb)" "x \<in> set (map the (read_rows h arr n nb))"
  shows "length x = nb"
proof -
  from assms(2) obtain y where y: "y \<in> set (read_rows h arr n nb)" and x: "x = the y" by auto
  from y assms(1) obtain bs where ybs: "y = Some bs" by (auto simp add: list_all_iff)
  from y obtain i where "y = (case load_ptr h arr i of None \<Rightarrow> None | Some q \<Rightarrow> read_bytes h q 0 nb)"
    by (auto simp add: read_rows_def)
  with ybs have "\<exists>q. read_bytes h q 0 nb = Some bs" by (auto split: option.splits)
  then show ?thesis using read_bytes_length by (auto simp add: x ybs)
qed

lemma read_rows_concat_length:
  assumes "list_all (\<lambda>x. x \<noteq> None) (read_rows h arr n nb)"
  shows "length (concat (map the (read_rows h arr n nb))) = n * nb"
  using length_concat_uniform [of "map the (read_rows h arr n nb)" nb]
    read_rows_entry_length [OF assms] by (simp add: read_rows_length)

lemma length_le_bytes: "length (le_bytes w v) = w"
  by (simp add: le_bytes_def)

lemma length_size_t_bytes: "length (size_t_bytes p v) = sizeof_size_t p"
  by (simp add: size_t_bytes_def length_le_bytes)

lemma serialize_fields_ok:
  assumes "settings_ok p h s"
  shows "serialize_fields p h s
     = [Some (header_bytes \<lparr>magic = KZG_MAGIC, version = 1,
                           endianness = get_endianness p, wordsize = get_wordsize p\<rparr>),
        Some (size_t_bytes p (wbits s)),
        Some (size_t_bytes p (scratch_size s)),
        Some (size_t_bytes p (table_size s))] @ settings_arrays p h s"
  using assms by (auto simp add: serialize_fields_def settings_arrays_def settings_ok_def)

lemma ser_bytes_eq:
  assumes "settings_ok p h s"
  shows "ser_bytes p h s
     = [0x4B, 0x5A, 0x47, 0x00, 1, get_endianness p, get_wordsize p]
       @ size_t_bytes p (wbits s) @ size_t_bytes p (scratch_size s)
       @ size_t_bytes p (table_size s) @ concat (map the (settings_arrays p h s))"
  by (simp add: ser_bytes_def serialize_fields_ok [OF assms] serialized_header)

lemma settings_arrays_length:
  assumes "list_all (\<lambda>x. x \<noteq> None) (settings_arrays p h s)"
  shows "length (concat (map the (settings_arrays p h s)))
     = FEPEB1 p * sizeof_fr_t p + FEPEB0 p * sizeof_fr_t p + FEPEB1 p * sizeof_fr_t p
       + NUM_G1_POINTS p * sizeof_g1_t p + NUM_G1_POINTS p * sizeof_g1_t p
       + NUM_G2_POINTS * sizeof_g2_t p
       + CELLS_PER_EXT_BLOB p * (FIELD_ELEMENTS_PER_CELL p * sizeof_g1_t p)
       + (if wbits s \<noteq> 0 then CELLS_PER_EXT_BLOB p * table_size s else 0)"
proof -
  have rd: "length (the (read_bytes h q 0 n)) = n" if "read_bytes h q 0 n \<noteq> None" for q n
    using that read_bytes_length by fastforce
  show ?thesis
    using assms
    by (auto simp add: settings_arrays_def rd read_rows_concat_length simp del: not_None_eq)
qed

lemma ser_bytes_length:
  assumes "settings_ok p h s"
  shows "length (ser_bytes p h s) = compute_serialized_size p s"
proof -
  have all: "list_all (\<lambda>x. x \<noteq> None) (settings_arrays p h s)"
    and tb: "wbits s \<noteq> 0 \<longrightarrow> tables s \<noteq> None"
    using assms by (simp_all add: settings_ok_def)
  show ?thesis
    using tb
    by (simp add: ser_bytes_eq [OF assms] settings_arrays_length [OF all] length_size_t_bytes
        compute_serialized_size_def sizeof_header_t_def del: not_None_eq)
qed

lemma settings_ok_frame:
  assumes "frame h h'" "heap_ok h" "settings_ok p h s"
  shows "settings_ok p h' s" and "settings_arrays p h' s = settings_arrays p h s"
proof -
  have all: "list_all (\<lambda>x. x \<noteq> None) (settings_arrays p h s)"
    using assms(3) by (simp add: settings_ok_def)
  show eq: "settings_arrays p h' s = settings_arrays p h s"
    using assms(1,2) all by (rule frame_settings_arrays)
  show "settings_ok p h' s"
    using assms(3) by (simp add: settings_ok_def eq)
qed

lemma serialize_settings_ok:
  assumes hk: "heap_ok h" and ok: "settings_ok p h s" and av: "0 < avail h"
  shows "serialize_settings p h s
     = Some (C_KZG_OK, Some (next_addr h), compute_serialized_size p s,
             h\<lparr>cells := (cells h)(next_addr h \<mapsto> Bytes (ser_bytes p h s)),
               next_addr := next_addr h + 1, avail := avail h - 1\<rparr>)"
proof -
  define total where "total = compute_serialized_size p s"
  define h1 where "h1 = h\<lparr>cells := (cells h)(next_addr h \<mapsto> Bytes (replicate total 0)),
      next_addr := next_addr h + 1, avail := avail h - 1\<rparr>"
  have tpos: "total \<noteq> 0"
    by (simp add: total_def compute_serialized_size_def sizeof_header_t_def)
  have al: "c_kzg_malloc h total = (C_KZG_OK, Some (next_addr h), h1)"
    using av tpos by (simp add: c_kzg_malloc_def alloc_block_def h1_def)
  have fr: "frame h h1" by (simp add: frame_def h1_def)
  note ok1 = settings_ok_frame [OF fr hk ok]
  have sf: "serialize_fields p h1 s = serialize_fields p h s"
    by (simp add: serialize_fields_ok [OF ok] serialize_fields_ok [OF ok1(1)] ok1(2))
  have all: "list_all (\<lambda>x. x \<noteq> None) (serialize_fields p h s)"
    using ok by (simp add: serialize_fields_ok [OF ok] settings_ok_def)
  have th: "those (serialize_fields p h1 s) = Some (map the (serialize_fields p h s))"
    unfolding sf using all by (rule those_all_Some)
  have len: "length (ser_bytes p h s) = total"
    unfolding total_def using ok by (rule ser_bytes_length)
  have wr: "write_bytes h1 (Some (next_addr h)) (ser_bytes p h s)
      = Some (h\<lparr>cells := (cells h)(next_addr h \<mapsto> Bytes (ser_bytes p h s)),
               next_addr := next_addr h + 1, avail := avail h - 1\<rparr>)"
    by (simp add: write_bytes_def h1_def len)
  show ?thesis
    using len wr
    by (simp add: serialize_settings_def Let_def total_def [symmetric] al th
        ser_bytes_def [symmetric])
qed

lemma le_bytes_Suc: "le_bytes (Suc w) v = of_nat v # le_bytes w (v div 256)"
proof -
  have "le_bytes (Suc w) v = map (\<lambda>i. of_nat (v div 256 ^ i)) (0 # map Suc [0..<w])"
    unfolding le_bytes_def by (simp only: upt_conv_Cons [of 0 "Suc w"] map_Suc_upt zero_less_Suc)
  also have "\<dots> = of_nat v # map (\<lambda>i. of_nat (v div 256 div 256 ^ i)) [0..<w]"
    by (simp add: comp_def div_mult2_eq)
  finally show ?thesis by (simp add: le_bytes_def)
qed

lemma le_value_le_bytes: "le_value (le_bytes w v) = v mod 256 ^ w"
proof (induction w arbitrary: v)
  case 0
  then show ?case by (simp add: le_bytes_def le_value_def)
next
  case (Suc w)
  have "le_value (le_bytes (Suc w) v) = unat (of_nat v :: byte) + 256 * le_value (le_bytes w (v div 256))"
    by (simp add: le_bytes_Suc le_value_def)
  also have "\<dots> = v mod 256 + 256 * ((v div 256) mod 256 ^ w)"
    by (simp add: Suc.IH unat_of_nat)
  also have "\<dots> = v mod 256 ^ Suc w"
    by (simp add: mod_mult2_eq)
  finally show ?case .
qed

lemma size_t_roundtrip:
  assumes "v < 256 ^ sizeof_size_t p"
  shows "size_t_of_bytes p (size_t_bytes p v) = v"
  using assms by (simp add: size_t_of_bytes_def size_t_bytes_def le_value_le_bytes)

lemma read_bytes_segment:
  assumes "cells h d = Some (Bytes buf)" "buf = pre @ bs @ rest" "length pre = off" "length bs = n"
  shows "read_bytes h (Some d) off n = Some bs"
  using assms by (simp add: read_bytes_def)

lemma load_size_t_ok:
  assumes "cells h d = Some (Bytes buf)" "buf = pre @ bs @ rest" "length pre = off"
    "length bs = sizeof_size_t p"
  shows "load_size_t p (Some d) upd out h off
     = Cont (upd (size_t_of_bytes p bs) out) h (off + sizeof_size_t p)"
  by (simp add: load_size_t_def read_bytes_segment [OF assms])

lemma heap_add_simps:
  "cells (heap_add h b) = (cells h)(next_addr h \<mapsto> b)"
  "next_addr (heap_add h b) = next_addr h + 1"
  "avail (heap_add h b) = avail h - 1"
  by (simp_all add: heap_add_def)

lemma heap_add_ok: "heap_ok h \<Longrightarrow> heap_ok (heap_add h b)"
  by (simp add: heap_ok_def heap_add_def)

lemma heap_add_frame: "frame h (heap_add h b)"
  by (simp add: frame_def heap_add_def)

lemma alloc_block_success: "0 < avail h \<Longrightarrow> alloc_block h b = (C_KZG_OK, Some (next_addr h), heap_add h b)"
  by (simp add: alloc_block_def heap_add_def)

lemma load_array_ok:
  assumes hk: "heap_ok h" and av: "0 < avail h"
    and al: "\<And>hh. alloc hh = alloc_block hh (Bytes (replicate nb 0))"
    and cell: "cells h d = Some (Bytes buf)"
    and seg: "buf = pre @ bs @ rest" "length pre = off" "length bs = nb"
  shows "load_array (Some d) alloc nb upd out h off
     = Cont (upd (Some (next_addr h)) out) (heap_add h (Bytes bs)) (off + nb)"
proof -
  let ?h1 = "heap_add h (Bytes (replicate nb 0))"
  have d: "d < next_addr h" using hk cell by (rule heap_ok_live_less)
  have c1: "cells ?h1 d = Some (Bytes buf)" using d cell by (simp add: heap_add_simps)
  have rd: "read_bytes ?h1 (Some d) off nb = Some bs"
    using c1 seg by (rule read_bytes_segment)
  have wr: "write_bytes ?h1 (Some (next_addr h)) bs = Some (heap_add h (Bytes bs))"
    using seg(3) by (simp add: write_bytes_def heap_add_def)
  show ?thesis
    by (simp add: load_array_def al alloc_block_success [OF av] rd wr)
qed

lemma concat_drop_Cons:
  assumes "i < length rows"
  shows "concat (drop i rows) = rows ! i @ concat (drop (Suc i) rows)"
  using assms by (simp add: Cons_nth_drop_Suc [symmetric])

lemma load_rows_ok:
  assumes al: "\<And>hh. alloc hh = alloc_block hh (Bytes (replicate nb 0))"
    and len: "length rows = n" and rl: "\<And>r. r \<in> set rows \<Longrightarrow> length r = nb"
    and ad: "A \<noteq> d"
  shows "heap_ok h \<Longrightarrow> i \<le> n \<Longrightarrow> n - i \<le> avail h
    \<Longrightarrow> cells h d = Some (Bytes buf) \<Longrightarrow> cells h A = Some (Ptrs ps) \<Longrightarrow> length ps = n
    \<Longrightarrow> buf = pre @ concat (drop i rows) @ rest \<Longrightarrow> length pre = off
    \<Longrightarrow> rows_loaded h A nb rows i
    \<Longrightarrow> \<exists>h'. load_rows (Some d) alloc nb (Some A) n i out h off = Cont out h' (off + (n - i) * nb)
          \<and> heap_ok h' \<and> next_addr h' = next_addr h + (n - i) \<and> avail h' = avail h - (n - i)
          \<and> (\<forall>a<next_addr h. a \<noteq> A \<longrightarrow> cells h' a = cells h a)
          \<and> rows_loaded h' A nb rows n"
proof (induction "n - i" arbitrary: i h ps pre off)
  case 0
  then have "i = n" by simp
  with 0 show ?case
    by (subst load_rows.simps) simp
next
  case (Suc k)
  then have i: "i < n" by simp
  have av: "0 < avail h" using Suc.prems(3) i by simp
  define a where "a = next_addr h"
  define r where "r = rows ! i"
  have rlen: "length r = nb" using rl i len by (simp add: r_def)
  have Alt: "A < next_addr h" using Suc.prems(1,5) by (rule heap_ok_live_less)
  have dlt: "d < next_addr h" using Suc.prems(1,4) by (rule heap_ok_live_less)
  define h1 where "h1 = heap_add h (Bytes (replicate nb 0))"
  define h2 where "h2 = h1\<lparr>cells := (cells h1)(A \<mapsto> Ptrs (ps[i := Some a]))\<rparr>"
  define h3 where "h3 = h2\<lparr>cells := (cells h2)(a \<mapsto> Bytes r)\<rparr>"
  have alo: "alloc h = (C_KZG_OK, Some a, h1)"
    by (simp add: al alloc_block_success [OF av] a_def h1_def)
  have c1A: "cells h1 A = Some (Ptrs ps)"
    using Alt Suc.prems(5) by (simp add: h1_def heap_add_simps)
  have st: "store_ptr h1 (Some A) i (Some a) = Some h2"
    using i Suc.prems(6) by (simp add: store_ptr_def c1A h2_def)
  have c2d: "cells h2 d = Some (Bytes buf)"
    using dlt ad Suc.prems(4) by (simp add: h2_def h1_def heap_add_simps)
  have seg: "buf = pre @ r @ (concat (drop (Suc i) rows) @ rest)"
    using Suc.prems(7) i len by (simp add: concat_drop_Cons r_def)
  have rd: "read_bytes h2 (Some d) off nb = Some r"
    using c2d seg Suc.prems(8) rlen by (rule read_bytes_segment)
  have c2a: "cells h2 a = Some (Bytes (replicate nb 0))"
    using Alt by (simp add: h2_def h1_def heap_add_simps a_def)
  have wr: "write_bytes h2 (Some a) r = Some h3"
    by (simp add: write_bytes_def c2a rlen h3_def)
  have step: "load_rows (Some d) alloc nb (Some A) n i out h off
      = load_rows (Some d) alloc nb (Some A) n (i + 1) out h3 (off + nb)"
    using i by (subst load_rows.simps) (simp add: alo st rd wr)
  have cells3: "cells h3 = (cells h)(A \<mapsto> Ptrs (ps[i := Some a]), a \<mapsto> Bytes r)"
    using Alt by (auto simp add: h3_def h2_def h1_def heap_add_simps a_def fun_eq_iff)
  have na3: "next_addr h3 = next_addr h + 1" "avail h3 = avail h - 1"
    by (simp_all add: h3_def h2_def h1_def heap_add_simps)
  have hk3: "heap_ok h3"
    using Suc.prems(1) Alt by (auto simp add: heap_ok_def cells3 na3 a_def)
  have loaded3: "rows_loaded h3 A nb rows (i + 1)"
    unfolding rows_loaded_def
  proof (intro allI impI)
    fix j assume j: "j < i + 1"
    show "\<exists>q. load_ptr h3 (Some A) j = Some q \<and> read_bytes h3 q 0 nb = Some (rows ! j)"
    proof (cases "j = i")
      case True
      have "load_ptr h3 (Some A) j = Some (Some a)"
        using i Alt Suc.prems(6) by (simp add: load_ptr_def cells3 True a_def)
      moreover have "read_bytes h3 (Some a) 0 nb = Some (rows ! j)"
        using rlen by (simp add: read_bytes_def cells3 True r_def)
      ultimately show ?thesis by blast
    next
      case False
      with j have ji: "j < i" by simp
      with Suc.prems(9) obtain q where q: "load_ptr h (Some A) j = Some q"
        and rq: "read_bytes h q 0 nb = Some (rows ! j)"
        by (auto simp add: rows_loaded_def)
      from q have qps: "q = ps ! j"
        by (auto simp add: load_ptr_def Suc.prems(5) split: if_splits)
      from rq obtain b old where qb: "q = Some b" and cb: "cells h b = Some (Bytes old)"
        by (auto simp add: read_bytes_def split: option.splits block.splits)
      have bA: "b \<noteq> A" using cb Suc.prems(5) by auto
      have blt: "b < next_addr h" using Suc.prems(1) cb by (rule heap_ok_live_less)
      have "load_ptr h3 (Some A) j = Some q"
        using ji i Alt Suc.prems(6) by (simp add: load_ptr_def cells3 a_def qps)
      moreover have "read_bytes h3 q 0 nb = Some (rows ! j)"
        using rq bA blt by (simp add: read_bytes_def cells3 qb a_def)
      ultimately show ?thesis by blast
    qed
  qed
  have k: "k = n - (i + 1)" using Suc.hyps(2) by simp
  have "\<exists>h'. load_rows (Some d) alloc nb (Some A) n (i + 1) out h3 (off + nb)
          = Cont out h' (off + nb + (n - (i + 1)) * nb)
          \<and> heap_ok h' \<and> next_addr h' = next_addr h3 + (n - (i + 1))
          \<and> avail h' = avail h3 - (n - (i + 1))
          \<and> (\<forall>x<next_addr h3. x \<noteq> A \<longrightarrow> cells h' x = cells h3 x)
          \<and> rows_loaded h' A nb rows n"
  proof (rule Suc.hyps(1) [OF k hk3])
    show "i + 1 \<le> n" using i by simp
    show "n - (i + 1) \<le> avail h3" using Suc.prems(3) by (simp add: na3)
    show "cells h3 d = Some (Bytes buf)"
      using dlt ad Suc.prems(4) by (simp add: cells3 a_def)
    show "cells h3 A = Some (Ptrs (ps[i := Some a]))" using Alt by (simp add: cells3 a_def)
    show "length (ps[i := Some a]) = n" using Suc.prems(6) by simp
    show "buf = (pre @ r) @ concat (drop (i + 1) rows) @ rest" using seg by simp
    show "length (pre @ r) = off + nb" using Suc.prems(8) rlen by simp
    show "rows_loaded h3 A nb rows (i + 1)" by (rule loaded3)
  qed
  then obtain h' where res: "load_rows (Some d) alloc nb (Some A) n (i + 1) out h3 (off + nb)
          = Cont out h' (off + nb + (n - (i + 1)) * nb)"
    and hk': "heap_ok h'" and na': "next_addr h' = next_addr h3 + (n - (i + 1))"
    and av': "avail h' = avail h3 - (n - (i + 1))"
    and fr': "\<forall>x<next_addr h3. x \<noteq> A \<longrightarrow> cells h' x = cells h3 x"
    and ld': "rows_loaded h' A nb rows n"
    by blast
  have off_eq: "off + nb + (n - (i + 1)) * nb = off + (n - i) * nb"
  proof -
    have "n - i = Suc (n - (i + 1))" using i by simp
    then show ?thesis by simp
  qed
  have fr: "\<forall>x<next_addr h. x \<noteq> A \<longrightarrow> cells h' x = cells h x"
  proof (intro allI impI)
    fix x assume x: "x < next_addr h" "x \<noteq> A"
    then have "cells h' x = cells h3 x" using fr' by (simp add: na3)
    also have "\<dots> = cells h x" using x by (simp add: cells3 a_def)
    finally show "cells h' x = cells h x" .
  qed
  have final: "load_rows (Some d) alloc nb (Some A) n i out h off = Cont out h' (off + (n - i) * nb)"
    unfolding step res off_eq ..
  have na: "next_addr h' = next_addr h + (n - i)" using na' i by (simp add: na3)
  have ava: "avail h' = avail h - (n - i)" using av' i by (simp add: na3)
  show ?case
    using final hk' na ava fr ld' by blast
qed

lemma rows_loaded_read_rows:
  assumes "rows_loaded h A nb rows n" "length rows = n"
  shows "read_rows h (Some A) n nb = map Some rows"
proof -
  have "read_rows h (Some A) n nb = map (\<lambda>i. Some (rows ! i)) [0..<n]"
    unfolding read_rows_def
  proof (rule map_cong [OF refl])
    fix i assume "i \<in> set [0..<n]"
    then have "i < n" by simp
    with assms(1) obtain q where "load_ptr h (Some A) i = Some q"
      "read_bytes h q 0 nb = Some (rows ! i)"
      by (auto simp add: rows_loaded_def)
    then show "(case load_ptr h (Some A) i of None \<Rightarrow> None | Some q \<Rightarrow> read_bytes h q 0 nb)
        = Some (rows ! i)"
      by simp
  qed
  also have "\<dots> = map Some (map (\<lambda>i. rows ! i) [0..<length rows])"
    by (simp add: assms(2))
  also have "\<dots> = map Some rows" by (simp only: map_nth)
  finally show ?thesis .
qed

lemma load_ptr_rows_ok:
  assumes hk: "heap_ok h" and av: "n + 1 \<le> avail h" and npos: "0 < n" and ppos: "0 < psz"
    and al: "\<And>hh. alloc hh = alloc_block hh (Bytes (replicate nb 0))"
    and len: "length rows = n" and rl: "\<And>r. r \<in> set rows \<Longrightarrow> length r = nb"
    and cell: "cells h d = Some (Bytes buf)"
    and seg: "buf = pre @ concat rows @ rest" "length pre = off"
  shows "\<exists>h'. (case c_kzg_calloc_ptrs h n psz of
            (ret, q, h1) \<Rightarrow>
              if ret \<noteq> C_KZG_OK then Goto_error ret (upd q out) h1
              else load_rows (Some d) alloc nb q n 0 (upd q out) h1 off)
          = Cont (upd (Some (next_addr h)) out) h' (off + n * nb)
        \<and> heap_ok h' \<and> frame h h' \<and> next_addr h' = next_addr h + (n + 1)
        \<and> avail h' = avail h - (n + 1)
        \<and> read_rows h' (Some (next_addr h)) n nb = map Some rows"
proof -
  define A where "A = next_addr h"
  define h1 where "h1 = heap_add h (Ptrs (replicate n None))"
  have av0: "0 < avail h" using av by simp
  have ca: "c_kzg_calloc_ptrs h n psz = (C_KZG_OK, Some A, h1)"
    using npos ppos by (simp add: c_kzg_calloc_ptrs_def alloc_block_success [OF av0] A_def h1_def)
  have dlt: "d < next_addr h" using hk cell by (rule heap_ok_live_less)
  have ad: "A \<noteq> d" using dlt by (simp add: A_def)
  have hk1: "heap_ok h1" unfolding h1_def using hk by (rule heap_add_ok)
  have "\<exists>h'. load_rows (Some d) alloc nb (Some A) n 0 (upd (Some A) out) h1 off
          = Cont (upd (Some A) out) h' (off + (n - 0) * nb)
          \<and> heap_ok h' \<and> next_addr h' = next_addr h1 + (n - 0) \<and> avail h' = avail h1 - (n - 0)
          \<and> (\<forall>a<next_addr h1. a \<noteq> A \<longrightarrow> cells h' a = cells h1 a)
          \<and> rows_loaded h' A nb rows n"
  proof (rule load_rows_ok [OF al len rl ad hk1])
    show "0 \<le> n" by simp
    show "n - 0 \<le> avail h1" using av by (simp add: h1_def heap_add_simps)
    show "cells h1 d = Some (Bytes buf)" using dlt cell by (simp add: h1_def heap_add_simps)
    show "cells h1 A = Some (Ptrs (replicate n None))" by (simp add: h1_def heap_add_simps A_def)
    show "length (replicate n (None :: ptr)) = n" by simp
    show "buf = pre @ concat (drop 0 rows) @ rest" using seg(1) by simp
    show "length pre = off" by (rule seg(2))
    show "rows_loaded h1 A nb rows 0" by (simp add: rows_loaded_def)
  qed
  then obtain h' where res: "load_rows (Some d) alloc nb (Some A) n 0 (upd (Some A) out) h1 off
          = Cont (upd (Some A) out) h' (off + n * nb)"
    and hk': "heap_ok h'" and na': "next_addr h' = next_addr h1 + n"
    and av': "avail h' = avail h1 - n"
    and fr': "\<forall>a<next_addr h1. a \<noteq> A \<longrightarrow> cells h' a = cells h1 a"
    and ld': "rows_loaded h' A nb rows n"
    by auto
  have fr: "frame h h'"
    unfolding frame_def
  proof (intro conjI allI impI)
    show "next_addr h \<le> next_addr h'" by (simp add: na' h1_def heap_add_simps)
    fix a assume a: "a < next_addr h"
    then have "cells h' a = cells h1 a" using fr' by (simp add: h1_def heap_add_simps A_def)
    also have "\<dots> = cells h a" using a by (simp add: h1_def heap_add_simps)
    finally show "cells h' a = cells h a" .
  qed
  have rr: "read_rows h' (Some A) n nb = map Some rows"
    using ld' len by (rule rows_loaded_read_rows)
  have main: "(case c_kzg_calloc_ptrs h n psz of
            (ret, q, h1) \<Rightarrow>
              if ret \<noteq> C_KZG_OK then Goto_error ret (upd q out) h1
              else load_rows (Some d) alloc nb q n 0 (upd q out) h1 off)
          = Cont (upd (Some (next_addr h)) out) h' (off + n * nb)"
    by (simp add: ca res) (simp add: A_def)
  have na: "next_addr h' = next_addr h + (n + 1)" "avail h' = avail h - (n + 1)"
    using na' av' by (simp_all add: h1_def heap_add_simps)
  show ?thesis
    using main hk' fr na rr unfolding A_def by blast
qed

lemma calloc_eq:
  "0 < n \<Longrightarrow> 0 < sz \<Longrightarrow> c_kzg_calloc h n sz = alloc_block h (Bytes (replicate (n * sz) 0))"
  by (simp add: c_kzg_calloc_def)

lemma malloc_eq:
  "0 < sz \<Longrightarrow> c_kzg_malloc h sz = alloc_block h (Bytes (replicate sz 0))"
  by (simp add: c_kzg_malloc_def)

lemma heap_add_read_new:
  "length bs = n \<Longrightarrow> read_bytes (heap_add h (Bytes bs)) (Some (next_addr h)) 0 n = Some bs"
  by (simp add: read_bytes_def heap_add_simps)

lemma heap_add_cell_old:
  "heap_ok h \<Longrightarrow> cells h d = Some b \<Longrightarrow> cells (heap_add h b') d = Some b"
  using heap_ok_live_less [of h d b] by (auto simp add: heap_add_simps)

text \<open>One successful array load, with everything the next step needs.\<close>

lemma load_array_step:
  assumes hk: "heap_ok h" and av: "0 < avail h"
    and al: "\<And>hh. alloc hh = alloc_block hh (Bytes (replicate nb 0))"
    and cell: "cells h d = Some (Bytes buf)"
    and seg: "buf = pre @ bs @ rest" "length pre = off" "length bs = nb"
  shows "load_array (Some d) alloc nb upd out h off
       = Cont (upd (Some (next_addr h)) out) (heap_add h (Bytes bs)) (off + nb)"
    and "heap_ok (heap_add h (Bytes bs))"
    and "cells (heap_add h (Bytes bs)) d = Some (Bytes buf)"
    and "frame h (heap_add h (Bytes bs))"
    and "read_bytes (heap_add h (Bytes bs)) (Some (next_addr h)) 0 nb = Some bs"
  using load_array_ok [of h alloc nb d buf pre bs rest off upd out, OF assms] heap_add_ok [OF hk] heap_add_cell_old [OF hk cell]
    heap_add_frame heap_add_read_new [OF seg(3)]
  by simp_all

lemma run_steps_Cons: "run_steps (st # sts) (Cont out h off) = run_steps sts (st out h off)"
  by simp

lemma deserialize_wellformed:
  assumes pk: "platform_ok p" and hk: "heap_ok h" and cell: "cells h d = Some (Bytes buf)"
    and buf: "buf = [0x4B, 0x5A, 0x47, 0x00, 1, get_endianness p, get_wordsize p]
        @ size_t_bytes p wb @ size_t_bytes p sc @ size_t_bytes p ts
        @ r1 @ r2 @ r3 @ m1 @ m2 @ g2 @ concat cols @ concat tabs"
    and sz: "wb < 256 ^ sizeof_size_t p" "sc < 256 ^ sizeof_size_t p" "ts < 256 ^ sizeof_size_t p"
    and l1: "length r1 = FEPEB1 p * sizeof_fr_t p" and l2: "length r2 = FEPEB0 p * sizeof_fr_t p"
    and l3: "length r3 = FEPEB1 p * sizeof_fr_t p"
    and l4: "length m1 = NUM_G1_POINTS p * sizeof_g1_t p"
    and l5: "length m2 = NUM_G1_POINTS p * sizeof_g1_t p"
    and l6: "length g2 = NUM_G2_POINTS * sizeof_g2_t p"
    and lc: "length cols = CELLS_PER_EXT_BLOB p"
      "\<And>r. r \<in> set cols \<Longrightarrow> length r = FIELD_ELEMENTS_PER_CELL p * sizeof_g1_t p"
    and lt: "if wb \<noteq> 0 then length tabs = CELLS_PER_EXT_BLOB p \<and> 0 < ts
               \<and> (\<forall>r\<in>set tabs. length r = ts)
             else tabs = []"
    and av: "7 + CELLS_PER_EXT_BLOB p + (if wb \<noteq> 0 then 1 + CELLS_PER_EXT_BLOB p else 0) \<le> avail h"
    and dl: "7 \<le> dl"
  shows "\<exists>s' h'. deserialize_settings p h (Some d) dl = Some (C_KZG_OK, s', h')
      \<and> wbits s' = wb \<and> scratch_size s' = sc \<and> table_size s' = ts
      \<and> settings_arrays p h' s' = map Some [r1, r2, r3, m1, m2, g2] @ map Some cols @ map Some tabs
      \<and> heap_ok h' \<and> frame h h'"
proof -
  define W where "W = sizeof_size_t p"
  define H :: "byte list" where "H = [0x4B, 0x5A, 0x47, 0x00, 1, get_endianness p, get_wordsize p]"
  have lH: "length H = 7" by (simp add: H_def)
  have lW: "length (size_t_bytes p v) = W" for v by (simp add: W_def length_size_t_bytes)
  from pk have pos: "0 < sizeof_ptr p" "0 < FEPEB1 p" "0 < FEPEB0 p" "0 < NUM_G1_POINTS p"
    "0 < NUM_G2_POINTS" "0 < CELLS_PER_EXT_BLOB p" "0 < FIELD_ELEMENTS_PER_CELL p"
    "0 < sizeof_fr_t p" "0 < sizeof_g1_t p" "0 < sizeof_g2_t p"
    by (simp_all add: platform_ok_def FEPEB1_def FEPEB0_def NUM_G1_POINTS_def NUM_G2_POINTS_def)
  have bufH: "buf = H @ size_t_bytes p wb @ size_t_bytes p sc @ size_t_bytes p ts
        @ r1 @ r2 @ r3 @ m1 @ m2 @ g2 @ concat cols @ concat tabs"
    using buf by (simp add: H_def)
  \<comment> \<open>the header\<close>
  have rdH: "read_bytes h (Some d) 0 sizeof_header_t = Some H"
    using cell by (simp add: read_bytes_def bufH sizeof_header_t_def lH)
  have hdr: "magic (header_of_bytes H) = KZG_MAGIC" "version (header_of_bytes H) = 1"
    "endianness (header_of_bytes H) = get_endianness p"
    "wordsize (header_of_bytes H) = get_wordsize p"
    by (simp_all add: header_of_bytes_def H_def KZG_MAGIC_def)
  \<comment> \<open>the three sizes\<close>
  define o1 where "o1 = init_settings\<lparr>wbits := wb\<rparr>"
  define o2 where "o2 = o1\<lparr>scratch_size := sc\<rparr>"
  define o3 where "o3 = o2\<lparr>table_size := ts\<rparr>"
  have s1: "load_size_t p (Some d) (\<lambda>v s. s\<lparr>wbits := v\<rparr>) init_settings h sizeof_header_t
      = Cont o1 h (7 + W)"
    using load_size_t_ok [OF cell, of H "size_t_bytes p wb" _ 7 p "\<lambda>v s. s\<lparr>wbits := v\<rparr>" init_settings]
    by (simp add: bufH lH lW W_def size_t_roundtrip sz o1_def sizeof_header_t_def)
  have s2: "load_size_t p (Some d) (\<lambda>v s. s\<lparr>scratch_size := v\<rparr>) o1 h (7 + W)
      = Cont o2 h (7 + W + W)"
    using load_size_t_ok [OF cell, of "H @ size_t_bytes p wb" "size_t_bytes p sc" _ "7 + W" p
        "\<lambda>v s. s\<lparr>scratch_size := v\<rparr>" o1]
    by (simp add: bufH lH lW W_def size_t_roundtrip sz o2_def)
  have s3: "load_size_t p (Some d) (\<lambda>v s. s\<lparr>table_size := v\<rparr>) o2 h (7 + W + W)
      = Cont o3 h (7 + W + W + W)"
    using load_size_t_ok [OF cell, of "H @ size_t_bytes p wb @ size_t_bytes p sc"
        "size_t_bytes p ts" _ "7 + W + W" p "\<lambda>v s. s\<lparr>table_size := v\<rparr>" o2]
    by (simp add: bufH lH lW W_def size_t_roundtrip sz o3_def)
  \<comment> \<open>the six flat arrays\<close>
  define hp0 where "hp0 = h"
  define f0 where "f0 = 7 + W + W + W"
  have av7: "7 \<le> avail h" using av by simp
  have k0: "heap_ok hp0" "cells hp0 d = Some (Bytes buf)" "avail hp0 = avail h - 0"
    using hk cell by (simp_all add: hp0_def)
  define hp1 where "hp1 = heap_add hp0 (Bytes r1)"
  define f1 where "f1 = f0 + FEPEB1 p * sizeof_fr_t p"
  define q1 where "q1 = o3\<lparr>roots_of_unity := Some (next_addr hp0)\<rparr>"
  have al1: "(\<lambda>hh. new_fr_array p hh (FEPEB1 p)) hh = alloc_block hh (Bytes (replicate (FEPEB1 p * sizeof_fr_t p) 0))" for hh
    using pos by (simp add: new_fr_array_def calloc_eq)
  have seg1: "buf = (H @ size_t_bytes p wb @ size_t_bytes p sc @ size_t_bytes p ts) @ r1 @ drop (f1) buf" "length (H @ size_t_bytes p wb @ size_t_bytes p sc @ size_t_bytes p ts) = f0"
    by (simp_all add: bufH lH lW f0_def f1_def l1)
  have av1: "0 < avail hp0" using k0(3) av7 by simp
  note eq1 = load_array_ok [where h = hp0 and alloc = "\<lambda>hh. new_fr_array p hh (FEPEB1 p)" and nb = "FEPEB1 p * sizeof_fr_t p" and d = d and buf = buf
      and pre = "H @ size_t_bytes p wb @ size_t_bytes p sc @ size_t_bytes p ts" and bs = r1 and rest = "drop (f1) buf" and off = f0
      and upd = "\<lambda>q s. s\<lparr>roots_of_unity := q\<rparr>" and out = o3, OF k0(1) av1 al1 k0(2) seg1 l1, folded hp1_def f1_def q1_def]
  have k1: "heap_ok hp1" "cells hp1 d = Some (Bytes buf)" "avail hp1 = avail h - 1"
    using heap_add_ok [OF k0(1)] heap_add_cell_old [OF k0(1,2)] k0(3)
    by (simp_all add: hp1_def heap_add_simps)
  define hp2 where "hp2 = heap_add hp1 (Bytes r2)"
  define f2 where "f2 = f1 + FEPEB0 p * sizeof_fr_t p"
  define q2 where "q2 = q1\<lparr>brp_roots_of_unity := Some (next_addr hp1)\<rparr>"
  have al2: "(\<lambda>hh. new_fr_array p hh (FEPEB0 p)) hh = alloc_block hh (Bytes (replicate (FEPEB0 p * sizeof_fr_t p) 0))" for hh
    using pos by (simp add: new_fr_array_def calloc_eq)
  have seg2: "buf = (H @ size_t_bytes p wb @ size_t_bytes p sc @ size_t_bytes p ts @ r1) @ r2 @ drop (f2) buf" "length (H @ size_t_bytes p wb @ size_t_bytes p sc @ size_t_bytes p ts @ r1) = f1"
    by (simp_all add: bufH lH lW f0_def f1_def f2_def l1 l2)
  have av2: "0 < avail hp1" using k1(3) av7 by simp
  note eq2 = load_array_ok [where h = hp1 and alloc = "\<lambda>hh. new_fr_array p hh (FEPEB0 p)" and nb = "FEPEB0 p * sizeof_fr_t p" and d = d and buf = buf
      and pre = "H @ size_t_bytes p wb @ size_t_bytes p sc @ size_t_bytes p ts @ r1" and bs = r2 and rest = "drop (f2) buf" and off = f1
      and upd = "\<lambda>q s. s\<lparr>brp_roots_of_unity := q\<rparr>" and out = q1, OF k1(1) av2 al2 k1(2) seg2 l2, folded hp2_def f2_def q2_def]
  have k2: "heap_ok hp2" "cells hp2 d = Some (Bytes buf)" "avail hp2 = avail h - 2"
    using heap_add_ok [OF k1(1)] heap_add_cell_old [OF k1(1,2)] k1(3)
    by (simp_all add: hp2_def heap_add_simps)
  define hp3 where "hp3 = heap_add hp2 (Bytes r3)"
  define f3 where "f3 = f2 + FEPEB1 p * sizeof_fr_t p"
  define q3 where "q3 = q2\<lparr>reverse_roots_of_unity := Some (next_addr hp2)\<rparr>"
  have al3: "(\<lambda>hh. new_fr_array p hh (FEPEB1 p)) hh = alloc_block hh (Bytes (replicate (FEPEB1 p * sizeof_fr_t p) 0))" for hh
    using pos by (simp add: new_fr_array_def calloc_eq)
  have seg3: "buf = (H @ size_t_bytes p wb @ size_t_bytes p sc @ size_t_bytes p ts @ r1 @ r2) @ r3 @ drop (f3) buf" "length (H @ size_t_bytes p wb @ size_t_bytes p sc @ size_t_bytes p ts @ r1 @ r2) = f2"
    by (simp_all add: bufH lH lW f0_def f1_def f2_def f3_def l1 l2 l3)
  have av3: "0 < avail hp2" using k2(3) av7 by simp
  note eq3 = load_array_ok [where h = hp2 and alloc = "\<lambda>hh. new_fr_array p hh (FEPEB1 p)" and nb = "FEPEB1 p * sizeof_fr_t p" and d = d and buf = buf
      and pre = "H @ size_t_bytes p wb @ size_t_bytes p sc @ size_t_bytes p ts @ r1 @ r2" and bs = r3 and rest = "drop (f3) buf" and off = f2
      and upd = "\<lambda>q s. s\<lparr>reverse_roots_of_unity := q\<rparr>" and out = q2, OF k2(1) av3 al3 k2(2) seg3 l3, folded hp3_def f3_def q3_def]
  have k3: "heap_ok hp3" "cells hp3 d = Some (Bytes buf)" "avail hp3 = avail h - 3"
    using heap_add_ok [OF k2(1)] heap_add_cell_old [OF k2(1,2)] k2(3)
    by (simp_all add: hp3_def heap_add_simps)
  define hp4 where "hp4 = heap_add hp3 (Bytes m1)"
  define f4 where "f4 = f3 + NUM_G1_POINTS p * sizeof_g1_t p"
  define q4 where "q4 = q3\<lparr>g1_values_monomial := Some (next_addr hp3)\<rparr>"
  have al4: "(\<lambda>hh. new_g1_array p hh (NUM_G1_POINTS p)) hh = alloc_block hh (Bytes (replicate (NUM_G1_POINTS p * sizeof_g1_t p) 0))" for hh
    using pos by (simp add: new_g1_array_def calloc_eq)
  have seg4: "buf = (H @ size_t_bytes p wb @ size_t_bytes p sc @ size_t_bytes p ts @ r1 @ r2 @ r3) @ m1 @ drop (f4) buf" "length (H @ size_t_bytes p wb @ size_t_bytes p sc @ size_t_bytes p ts @ r1 @ r2 @ r3) = f3"
    by (simp_all add: bufH lH lW f0_def f1_def f2_def f3_def f4_def l1 l2 l3 l4)
  have av4: "0 < avail hp3" using k3(3) av7 by simp
  note eq4 = load_array_ok [where h = hp3 and alloc = "\<lambda>hh. new_g1_array p hh (NUM_G1_POINTS p)" and nb = "NUM_G1_POINTS p * sizeof_g1_t p" and d = d and buf = buf
      and pre = "H @ size_t_bytes p wb @ size_t_bytes p sc @ size_t_bytes p ts @ r1 @ r2 @ r3" and bs = m1 and rest = "drop (f4) buf" and off = f3
      and upd = "\<lambda>q s. s\<lparr>g1_values_monomial := q\<rparr>" and out = q3, OF k3(1) av4 al4 k3(2) seg4 l4, folded hp4_def f4_def q4_def]
  have k4: "heap_ok hp4" "cells hp4 d = Some (Bytes buf)" "avail hp4 = avail h - 4"
    using heap_add_ok [OF k3(1)] heap_add_cell_old [OF k3(1,2)] k3(3)
    by (simp_all add: hp4_def heap_add_simps)
  define hp5 where "hp5 = heap_add hp4 (Bytes m2)"
  define f5 where "f5 = f4 + NUM_G1_POINTS p * sizeof_g1_t p"
  define q5 where "q5 = q4\<lparr>g1_values_lagrange_brp := Some (next_addr hp4)\<rparr>"
  have al5: "(\<lambda>hh. new_g1_array p hh (NUM_G1_POINTS p)) hh = alloc_block hh (Bytes (replicate (NUM_G1_POINTS p * sizeof_g1_t p) 0))" for hh
    using pos by (simp add: new_g1_array_def calloc_eq)
  have seg5: "buf = (H @ size_t_bytes p wb @ size_t_bytes p sc @ size_t_bytes p ts @ r1 @ r2 @ r3 @ m1) @ m2 @ drop (f5) buf" "length (H @ size_t_bytes p wb @ size_t_bytes p sc @ size_t_bytes p ts @ r1 @ r2 @ r3 @ m1) = f4"
    by (simp_all add: bufH lH lW f0_def f1_def f2_def f3_def f4_def f5_def l1 l2 l3 l4 l5)
  have av5: "0 < avail hp4" using k4(3) av7 by simp
  note eq5 = load_array_ok [where h = hp4 and alloc = "\<lambda>hh. new_g1_array p hh (NUM_G1_POINTS p)" and nb = "NUM_G1_POINTS p * sizeof_g1_t p" and d = d and buf = buf
      and pre = "H @ size_t_bytes p wb @ size_t_bytes p sc @ size_t_bytes p ts @ r1 @ r2 @ r3 @ m1" and bs = m2 and rest = "drop (f5) buf" and off = f4
      and upd = "\<lambda>q s. s\<lparr>g1_values_lagrange_brp := q\<rparr>" and out = q4, OF k4(1) av5 al5 k4(2) seg5 l5, folded hp5_def f5_def q5_def]
  have k5: "heap_ok hp5" "cells hp5 d = Some (Bytes buf)" "avail hp5 = avail h - 5"
    using heap_add_ok [OF k4(1)] heap_add_cell_old [OF k4(1,2)] k4(3)
    by (simp_all add: hp5_def heap_add_simps)
  define hp6 where "hp6 = heap_add hp5 (Bytes g2)"
  define f6 where "f6 = f5 + NUM_G2_POINTS * sizeof_g2_t p"
  define q6 where "q6 = q5\<lparr>g2_values_monomial := Some (next_addr hp5)\<rparr>"
  have al6: "(\<lambda>hh. new_g2_array p hh NUM_G2_POINTS) hh = alloc_block hh (Bytes (replicate (NUM_G2_POINTS * sizeof_g2_t p) 0))" for hh
    using pos by (simp add: new_g2_array_def calloc_eq)
  have seg6: "buf = (H @ size_t_bytes p wb @ size_t_bytes p sc @ size_t_bytes p ts @ r1 @ r2 @ r3 @ m1 @ m2) @ g2 @ drop (f6) buf" "length (H @ size_t_bytes p wb @ size_t_bytes p sc @ size_t_bytes p ts @ r1 @ r2 @ r3 @ m1 @ m2) = f5"
    by (simp_all add: bufH lH lW f0_def f1_def f2_def f3_def f4_def f5_def f6_def l1 l2 l3 l4 l5 l6)
  have av6: "0 < avail hp5" using k5(3) av7 by simp
  note eq6 = load_array_ok [where h = hp5 and alloc = "\<lambda>hh. new_g2_array p hh NUM_G2_POINTS" and nb = "NUM_G2_POINTS * sizeof_g2_t p" and d = d and buf = buf
      and pre = "H @ size_t_bytes p wb @ size_t_bytes p sc @ size_t_bytes p ts @ r1 @ r2 @ r3 @ m1 @ m2" and bs = g2 and rest = "drop (f6) buf" and off = f5
      and upd = "\<lambda>q s. s\<lparr>g2_values_monomial := q\<rparr>" and out = q5, OF k5(1) av6 al6 k5(2) seg6 l6, folded hp6_def f6_def q6_def]
  have k6: "heap_ok hp6" "cells hp6 d = Some (Bytes buf)" "avail hp6 = avail h - 6"
    using heap_add_ok [OF k5(1)] heap_add_cell_old [OF k5(1,2)] k5(3)
    by (simp_all add: hp6_def heap_add_simps)
  \<comment> \<open>the columns\<close>
  define nbc where "nbc = FIELD_ELEMENTS_PER_CELL p * sizeof_g1_t p"
  define C where "C = CELLS_PER_EXT_BLOB p"
  define q7 where "q7 = q6\<lparr>x_ext_fft_columns := Some (next_addr hp6)\<rparr>"
  have alc: "(\<lambda>hh. new_g1_array p hh (FIELD_ELEMENTS_PER_CELL p)) hh
      = alloc_block hh (Bytes (replicate nbc 0))" for hh
    using pos by (simp add: new_g1_array_def calloc_eq nbc_def)
  have segc: "buf = (H @ size_t_bytes p wb @ size_t_bytes p sc @ size_t_bytes p ts
        @ r1 @ r2 @ r3 @ m1 @ m2 @ g2) @ concat cols @ concat tabs"
     "length (H @ size_t_bytes p wb @ size_t_bytes p sc @ size_t_bytes p ts
        @ r1 @ r2 @ r3 @ m1 @ m2 @ g2) = f6"
    by (simp_all add: bufH lH lW f0_def f1_def f2_def f3_def f4_def f5_def f6_def l1 l2 l3 l4 l5 l6)
  have avc: "C + 1 \<le> avail hp6" using av k6(3) by (simp add: C_def)
  have lcc: "length cols = C" "\<And>r. r \<in> set cols \<Longrightarrow> length r = nbc"
    using lc by (simp_all add: C_def nbc_def)
  have Cpos: "0 < C" using pos by (simp add: C_def)
  have "\<exists>hc. load_columns p (Some d) q6 hp6 f6 = Cont q7 hc (f6 + C * nbc)
      \<and> heap_ok hc \<and> frame hp6 hc \<and> next_addr hc = next_addr hp6 + (C + 1)
      \<and> avail hc = avail hp6 - (C + 1)
      \<and> read_rows hc (Some (next_addr hp6)) C nbc = map Some cols"
    unfolding load_columns_def q7_def C_def [symmetric] nbc_def [symmetric]
    by (rule load_ptr_rows_ok [where h = hp6 and n = C and psz = "sizeof_ptr p"
        and alloc = "\<lambda>hh. new_g1_array p hh (FIELD_ELEMENTS_PER_CELL p)" and nb = nbc
        and rows = cols and d = d and buf = buf and rest = "concat tabs" and off = f6
        and upd = "\<lambda>q s. s\<lparr>x_ext_fft_columns := q\<rparr>" and out = q6,
        OF k6(1) avc Cpos pos(1) alc lcc k6(2) segc])
  then obtain hc where eqc: "load_columns p (Some d) q6 hp6 f6 = Cont q7 hc (f6 + C * nbc)"
    and kc: "heap_ok hc" "frame hp6 hc" "next_addr hc = next_addr hp6 + (C + 1)"
      "avail hc = avail hp6 - (C + 1)"
      "read_rows hc (Some (next_addr hp6)) C nbc = map Some cols"
    by blast
  have cellc: "cells hc d = Some (Bytes buf)"
    using kc(2) k6(1) k6(2) by (rule frame_cells)
  \<comment> \<open>the tables\<close>
  define q8 where "q8 = (if wb \<noteq> 0 then q7\<lparr>tables := Some (next_addr hc)\<rparr> else q7)"
  have wq7: "wbits q7 = wb" "table_size q7 = ts" "scratch_size q7 = sc"
    by (simp_all add: q7_def q6_def q5_def q4_def q3_def q2_def q1_def o3_def o2_def o1_def)
  have "\<exists>ht. load_tables p (Some d) q7 hc (f6 + C * nbc) = Cont q8 ht (f6 + C * nbc + length tabs * ts)
      \<and> heap_ok ht \<and> frame hc ht
      \<and> (wb \<noteq> 0 \<longrightarrow> read_rows ht (Some (next_addr hc)) C ts = map Some tabs)"
  proof (cases "wb = 0")
    case True
    then show ?thesis
      using lt kc(1) by (auto simp add: load_tables_def wq7 q8_def frame_refl)
  next
    case False
    with lt have ltt: "length tabs = C" "0 < ts" "\<And>r. r \<in> set tabs \<Longrightarrow> length r = ts"
      by (simp_all add: C_def)
    have alt: "(\<lambda>hh. c_kzg_malloc hh ts) hh = alloc_block hh (Bytes (replicate ts 0))" for hh
      using ltt(2) by (simp add: malloc_eq)
    have segt: "buf = (H @ size_t_bytes p wb @ size_t_bytes p sc @ size_t_bytes p ts
        @ r1 @ r2 @ r3 @ m1 @ m2 @ g2 @ concat cols) @ concat tabs @ []"
      "length (H @ size_t_bytes p wb @ size_t_bytes p sc @ size_t_bytes p ts
        @ r1 @ r2 @ r3 @ m1 @ m2 @ g2 @ concat cols) = f6 + C * nbc"
      using segc(2) length_concat_uniform [of cols nbc] lcc by (simp_all add: bufH)
    have avt: "C + 1 \<le> avail hc" using av k6(3) kc(4) False by (simp add: C_def)
    have wq: "wb \<noteq> 0" using False by simp
    have "\<exists>ht. load_tables p (Some d) q7 hc (f6 + C * nbc)
          = Cont (q7\<lparr>tables := Some (next_addr hc)\<rparr>) ht (f6 + C * nbc + C * ts)
        \<and> heap_ok ht \<and> frame hc ht \<and> next_addr ht = next_addr hc + (C + 1)
        \<and> avail ht = avail hc - (C + 1)
        \<and> read_rows ht (Some (next_addr hc)) C ts = map Some tabs"
      unfolding load_tables_def wq7 if_P [OF wq] C_def [symmetric]
      by (rule load_ptr_rows_ok [where h = hc and n = C and psz = "sizeof_ptr p"
        and alloc = "\<lambda>hh. c_kzg_malloc hh ts" and nb = ts
        and rows = tabs and d = d and buf = buf and rest = "[]" and off = "f6 + C * nbc"
        and upd = "\<lambda>q s. s\<lparr>tables := q\<rparr>" and out = q7,
        OF kc(1) avt Cpos pos(1) alt ltt(1) ltt(3) cellc segt])
    then show ?thesis
      using False by (auto simp add: q8_def ltt(1))
  qed
  then obtain ht where eqt: "load_tables p (Some d) q7 hc (f6 + C * nbc)
        = Cont q8 ht (f6 + C * nbc + length tabs * ts)"
    and kt: "heap_ok ht" "frame hc ht"
      "wb \<noteq> 0 \<longrightarrow> read_rows ht (Some (next_addr hc)) C ts = map Some tabs"
    by blast
  \<comment> \<open>the run\<close>
  have run: "run_steps (deserialize_steps p (Some d)) (Cont init_settings h sizeof_header_t)
      = Cont q8 ht (f6 + C * nbc + length tabs * ts)"
    by (simp only: deserialize_steps_def run_steps_Cons s1 s2 s3 eq1 [unfolded hp0_def f0_def]
        eq2 eq3 eq4 eq5 eq6 eqc eqt run_steps.simps(1))
  have ndl: "\<not> dl < sizeof_header_t" using dl by (simp add: sizeof_header_t_def)
  have res: "deserialize_settings p h (Some d) dl = Some (C_KZG_OK, q8, ht)"
    by (simp add: deserialize_settings_def Let_def ndl rdH hdr run)
  \<comment> \<open>what the result holds\<close>
  have F6: "frame hp6 ht" using kc(2) kt(2) by (rule frame_trans)
  have F5: "frame hp5 ht" using heap_add_frame F6 unfolding hp6_def by (rule frame_trans)
  have F4: "frame hp4 ht" using heap_add_frame F5 unfolding hp5_def by (rule frame_trans)
  have F3: "frame hp3 ht" using heap_add_frame F4 unfolding hp4_def by (rule frame_trans)
  have F2: "frame hp2 ht" using heap_add_frame F3 unfolding hp3_def by (rule frame_trans)
  have F1: "frame hp1 ht" using heap_add_frame F2 unfolding hp2_def by (rule frame_trans)
  have F0: "frame h ht" using heap_add_frame F1 unfolding hp1_def hp0_def by (rule frame_trans)
  have rd1: "read_bytes ht (Some (next_addr hp0)) 0 (FEPEB1 p * sizeof_fr_t p) = Some r1"
    using F1 k1(1) heap_add_read_new [OF l1, of hp0] unfolding hp1_def by (rule frame_read_bytes)
  have rd2: "read_bytes ht (Some (next_addr hp1)) 0 (FEPEB0 p * sizeof_fr_t p) = Some r2"
    using F2 k2(1) heap_add_read_new [OF l2, of hp1] unfolding hp2_def by (rule frame_read_bytes)
  have rd3: "read_bytes ht (Some (next_addr hp2)) 0 (FEPEB1 p * sizeof_fr_t p) = Some r3"
    using F3 k3(1) heap_add_read_new [OF l3, of hp2] unfolding hp3_def by (rule frame_read_bytes)
  have rd4: "read_bytes ht (Some (next_addr hp3)) 0 (NUM_G1_POINTS p * sizeof_g1_t p) = Some m1"
    using F4 k4(1) heap_add_read_new [OF l4, of hp3] unfolding hp4_def by (rule frame_read_bytes)
  have rd5: "read_bytes ht (Some (next_addr hp4)) 0 (NUM_G1_POINTS p * sizeof_g1_t p) = Some m2"
    using F5 k5(1) heap_add_read_new [OF l5, of hp4] unfolding hp5_def by (rule frame_read_bytes)
  have rd6: "read_bytes ht (Some (next_addr hp5)) 0 (NUM_G2_POINTS * sizeof_g2_t p) = Some g2"
    using F6 k6(1) heap_add_read_new [OF l6, of hp5] unfolding hp6_def by (rule frame_read_bytes)
  have rdc: "read_rows ht (Some (next_addr hp6)) C nbc = map Some cols"
  proof -
    have "list_all (\<lambda>x. x \<noteq> None) (read_rows hc (Some (next_addr hp6)) C nbc)"
      by (simp add: kc(5) list_all_iff)
    from frame_read_rows [OF kt(2) kc(1) this] show ?thesis by (simp add: kc(5))
  qed
  have fq: "roots_of_unity q8 = Some (next_addr hp0)" "brp_roots_of_unity q8 = Some (next_addr hp1)"
    "reverse_roots_of_unity q8 = Some (next_addr hp2)" "g1_values_monomial q8 = Some (next_addr hp3)"
    "g1_values_lagrange_brp q8 = Some (next_addr hp4)" "g2_values_monomial q8 = Some (next_addr hp5)"
    "x_ext_fft_columns q8 = Some (next_addr hp6)"
    "wbits q8 = wb" "scratch_size q8 = sc" "table_size q8 = ts"
    "wb \<noteq> 0 \<Longrightarrow> tables q8 = Some (next_addr hc)"
    by (simp_all add: q8_def q7_def q6_def q5_def q4_def q3_def q2_def q1_def o3_def o2_def o1_def)
  have tb: "(if wb \<noteq> 0 then read_rows ht (tables q8) C ts else []) = map Some tabs"
    using kt(3) lt by (auto simp add: fq)
  have arr: "settings_arrays p ht q8
      = map Some [r1, r2, r3, m1, m2, g2] @ map Some cols @ map Some tabs"
    using kt(3) lt by (simp add: settings_arrays_def fq rd1 rd2 rd3 rd4 rd5 rd6
        rdc [unfolded C_def nbc_def] C_def)
  show ?thesis
    using res arr kt(1) F0 fq(8,9,10) by blast
qed

lemma read_rows_map_the:
  assumes "list_all (\<lambda>x. x \<noteq> None) (read_rows h arr n nb)"
  shows "read_rows h arr n nb = map Some (map the (read_rows h arr n nb))"
  using assms by (induction "read_rows h arr n nb") (auto simp add: list_all_iff map_idI)

lemma settings_arrays_split:
  assumes ok: "settings_ok p h s"
  shows "\<exists>r1 r2 r3 m1 m2 g2 cols tabs.
     settings_arrays p h s = map Some [r1, r2, r3, m1, m2, g2] @ map Some cols @ map Some tabs
     \<and> length r1 = FEPEB1 p * sizeof_fr_t p \<and> length r2 = FEPEB0 p * sizeof_fr_t p
     \<and> length r3 = FEPEB1 p * sizeof_fr_t p \<and> length m1 = NUM_G1_POINTS p * sizeof_g1_t p
     \<and> length m2 = NUM_G1_POINTS p * sizeof_g1_t p \<and> length g2 = NUM_G2_POINTS * sizeof_g2_t p
     \<and> length cols = CELLS_PER_EXT_BLOB p
     \<and> (\<forall>r\<in>set cols. length r = FIELD_ELEMENTS_PER_CELL p * sizeof_g1_t p)
     \<and> (if wbits s \<noteq> 0 then length tabs = CELLS_PER_EXT_BLOB p \<and> (\<forall>r\<in>set tabs. length r = table_size s)
         else tabs = [])"
proof -
  from ok have all: "list_all (\<lambda>x. x \<noteq> None) (settings_arrays p h s)"
    by (simp add: settings_ok_def)
  then obtain r1 r2 r3 m1 m2 g2 where
    rd: "read_bytes h (roots_of_unity s) 0 (FEPEB1 p * sizeof_fr_t p) = Some r1"
      "read_bytes h (brp_roots_of_unity s) 0 (FEPEB0 p * sizeof_fr_t p) = Some r2"
      "read_bytes h (reverse_roots_of_unity s) 0 (FEPEB1 p * sizeof_fr_t p) = Some r3"
      "read_bytes h (g1_values_monomial s) 0 (NUM_G1_POINTS p * sizeof_g1_t p) = Some m1"
      "read_bytes h (g1_values_lagrange_brp s) 0 (NUM_G1_POINTS p * sizeof_g1_t p) = Some m2"
      "read_bytes h (g2_values_monomial s) 0 (NUM_G2_POINTS * sizeof_g2_t p) = Some g2"
    by (auto simp add: settings_arrays_def)
  from all have ac: "list_all (\<lambda>x. x \<noteq> None) (read_rows h (x_ext_fft_columns s) (CELLS_PER_EXT_BLOB p)
         (FIELD_ELEMENTS_PER_CELL p * sizeof_g1_t p))"
    and at: "wbits s \<noteq> 0 \<longrightarrow> list_all (\<lambda>x. x \<noteq> None)
       (read_rows h (tables s) (CELLS_PER_EXT_BLOB p) (table_size s))"
    by (auto simp add: settings_arrays_def simp del: not_None_eq split: if_splits)
  define cols where "cols = map the (read_rows h (x_ext_fft_columns s) (CELLS_PER_EXT_BLOB p)
         (FIELD_ELEMENTS_PER_CELL p * sizeof_g1_t p))"
  define tabs where "tabs = (if wbits s \<noteq> 0
      then map the (read_rows h (tables s) (CELLS_PER_EXT_BLOB p) (table_size s)) else [])"
  have c: "read_rows h (x_ext_fft_columns s) (CELLS_PER_EXT_BLOB p)
         (FIELD_ELEMENTS_PER_CELL p * sizeof_g1_t p) = map Some cols"
    unfolding cols_def using ac by (rule read_rows_map_the)
  have t: "(if wbits s \<noteq> 0 then read_rows h (tables s) (CELLS_PER_EXT_BLOB p) (table_size s) else [])
      = map Some tabs"
    unfolding tabs_def using at read_rows_map_the by auto
  have lc: "length cols = CELLS_PER_EXT_BLOB p"
    by (simp add: cols_def read_rows_length)
  have ec: "\<forall>r\<in>set cols. length r = FIELD_ELEMENTS_PER_CELL p * sizeof_g1_t p"
    unfolding cols_def using read_rows_entry_length [OF ac] by auto
  have lt: "if wbits s \<noteq> 0 then length tabs = CELLS_PER_EXT_BLOB p \<and> (\<forall>r\<in>set tabs. length r = table_size s)
         else tabs = []"
    unfolding tabs_def using at read_rows_entry_length by (auto simp add: read_rows_length)
  have "settings_arrays p h s = map Some [r1, r2, r3, m1, m2, g2] @ map Some cols @ map Some tabs"
    using c t by (simp add: settings_arrays_def rd)
  moreover have "length r1 = FEPEB1 p * sizeof_fr_t p" "length r2 = FEPEB0 p * sizeof_fr_t p"
     "length r3 = FEPEB1 p * sizeof_fr_t p" "length m1 = NUM_G1_POINTS p * sizeof_g1_t p"
     "length m2 = NUM_G1_POINTS p * sizeof_g1_t p" "length g2 = NUM_G2_POINTS * sizeof_g2_t p"
    using rd read_bytes_length by blast+
  ultimately show ?thesis using lc ec lt by blast
qed

lemma ex_platform_ok: "platform_ok ex_platform"
  by (simp add: platform_ok_def ex_platform_def)

lemma ex_heap_ok: "heap_ok ex_heap"
  by (simp add: heap_ok_def ex_heap_def ex_cells_def)

lemma ex_settings_ok: "settings_ok ex_platform ex_heap ex_settings"
  by (simp add: settings_ok_def settings_arrays_def read_rows_def read_bytes_def load_ptr_def
      ex_platform_def ex_heap_def ex_cells_def ex_settings_def FEPEB1_def FEPEB0_def
      NUM_G1_POINTS_def NUM_G2_POINTS_def upt_conv_Cons)

section \<open>Facts about the host code\<close>

lemma log2_uint_1: "log2_uint 1 = 0"
  by (simp add: log2_uint_def log2_uint_loop.simps)

lemma metal_fr_fft_small:
  assumes "n < 256"
  shows "metal_fr_fft ops (Some c) False (Some input) n (Some rts) stride inv_fft = Inl C_KZG_ERROR"
  using assms by (simp add: metal_fr_fft_def MIN_GPU_FFT_SIZE_def)

lemma bit_reverse_loop_0: "bit_reverse_loop 0 0 r v = r"
  by (simp add: bit_reverse_loop.simps)

lemma commands_single: "metal_fft_commands ops rts 1 False [x] = [x]"
  by (simp add: metal_fft_commands_def log2_uint_1 dispatch_def bit_reversal_def
      bit_reverse_loop_0 fft_stages.simps Let_def)

lemma commands_single_inv: "metal_fft_commands ops rts 1 True [x] = [mul ops x (inv_of_n ops 1)]"
  by (simp add: metal_fft_commands_def log2_uint_1 dispatch_def bit_reversal_def
      bit_reverse_loop_0 fft_stages.simps Let_def scale_elements_def)

section \<open>Facts about the cleanup of a failed \<open>deserialize_settings\<close>\<close>

lemma somes_append: "somes (xs @ ys) = somes xs @ somes ys"
  by (induction xs rule: somes.induct) simp_all

lemma set_somes: "set (somes qs) = {a. Some a \<in> set qs}"
  by (induction qs rule: somes.induct) auto

lemma somes_drop:
  "i < length ps \<Longrightarrow> somes (drop i ps) = somes [ps ! i] @ somes (drop (Suc i) ps)"
  by (simp add: Cons_nth_drop_Suc [symmetric] somes_append [symmetric] del: somes.simps)

lemma c_kzg_free_live:
  "cells h a \<noteq> None \<Longrightarrow> c_kzg_free h (Some a) = Some (h\<lparr>cells := (cells h)(a := None)\<rparr>)"
  by (auto simp add: c_kzg_free_def)

lemma c_kzg_free_dom:
  assumes "set (somes [q]) \<subseteq> dom (cells h)"
  shows "\<exists>h'. c_kzg_free h q = Some h' \<and> dom (cells h') = dom (cells h) - set (somes [q])
           \<and> (\<forall>x. x \<notin> set (somes [q]) \<longrightarrow> cells h' x = cells h x)"
proof (cases q)
  case None
  then show ?thesis by (simp add: c_kzg_free_def)
next
  case (Some a)
  with assms have "cells h a \<noteq> None" by auto
  then show ?thesis using Some by (auto simp add: c_kzg_free_live)
qed

lemma free_rows_dom:
  assumes "cells h a = Some (Ptrs ps)" and "length ps = n" and "i \<le> n"
    and "distinct (somes (drop i ps))" and "a \<notin> set (somes (drop i ps))"
    and "set (somes (drop i ps)) \<subseteq> dom (cells h)"
  shows "\<exists>h'. free_rows h (Some a) n i = Some h'
           \<and> dom (cells h') = dom (cells h) - set (somes (drop i ps))
           \<and> (\<forall>x. x \<notin> set (somes (drop i ps)) \<longrightarrow> x \<noteq> a \<longrightarrow> cells h' x = cells h x)"
  using assms
proof (induction "n - i" arbitrary: i h ps)
  case 0
  then have "i = n" by simp
  then show ?case using 0 by (simp add: free_rows.simps)
next
  case (Suc k)
  then have i: "i < n" by simp
  then have il: "i < length ps" using Suc.prems(2) by simp
  note sd = somes_drop [OF il]
  have ld: "load_ptr h (Some a) i = Some (ps ! i)"
    using Suc.prems(1) il by (simp add: load_ptr_def)
  have sub: "set (somes [ps ! i]) \<subseteq> dom (cells h)"
    using Suc.prems(6) unfolding sd by simp
  from c_kzg_free_dom [OF sub] obtain h1 where
    f: "c_kzg_free h (ps ! i) = Some h1"
    and d1: "dom (cells h1) = dom (cells h) - set (somes [ps ! i])"
    and c1: "\<forall>x. x \<notin> set (somes [ps ! i]) \<longrightarrow> cells h1 x = cells h x"
    by blast
  have an: "a \<notin> set (somes [ps ! i])" using Suc.prems(5) unfolding sd by simp
  have ca1: "cells h1 a = Some (Ptrs ps)" using c1 an Suc.prems(1) by simp
  define h2 where "h2 = h1\<lparr>cells := (cells h1)(a \<mapsto> Ptrs (ps[i := None]))\<rparr>"
  have st: "store_ptr h1 (Some a) i None = Some h2"
    using ca1 il by (simp add: store_ptr_def h2_def)
  have step: "free_rows h (Some a) n i = free_rows h2 (Some a) n (i + 1)"
    by (subst free_rows.simps) (simp add: i ld f st)
  have dr: "drop (i + 1) (ps[i := None]) = drop (Suc i) ps" by simp
  have ca2: "cells h2 a = Some (Ptrs (ps[i := None]))" by (simp add: h2_def)
  have d2: "dom (cells h2) = dom (cells h1)"
    using ca1 by (auto simp add: h2_def)
  have p4: "distinct (somes (drop (i + 1) (ps[i := None])))"
    using Suc.prems(4) unfolding sd dr by simp
  have p5: "a \<notin> set (somes (drop (i + 1) (ps[i := None])))"
    using Suc.prems(5) unfolding sd dr by simp
  have p6: "set (somes (drop (i + 1) (ps[i := None]))) \<subseteq> dom (cells h2)"
    using Suc.prems(6) Suc.prems(4) unfolding sd dr d2 d1 by auto
  have k: "k = n - (i + 1)" using Suc.hyps(2) by simp
  have l2: "length (ps[i := None]) = n" using Suc.prems(2) by simp
  have i2: "i + 1 \<le> n" using i by simp
  from Suc.hyps(1) [OF k ca2 l2 i2 p4 p5 p6] obtain h' where
    r: "free_rows h2 (Some a) n (i + 1) = Some h'"
    and rd: "dom (cells h') = dom (cells h2) - set (somes (drop (i + 1) (ps[i := None])))"
    and rc: "\<forall>x. x \<notin> set (somes (drop (i + 1) (ps[i := None]))) \<longrightarrow> x \<noteq> a \<longrightarrow> cells h' x = cells h2 x"
    by blast
  have "dom (cells h') = dom (cells h) - set (somes (drop i ps))"
    unfolding rd d2 d1 dr sd by auto
  moreover have "\<forall>x. x \<notin> set (somes (drop i ps)) \<longrightarrow> x \<noteq> a \<longrightarrow> cells h' x = cells h x"
    using rc c1 unfolding dr sd by (simp add: h2_def)
  ultimately show ?case using step r by simp
qed

lemma somes_Cons: "somes (q # qs) = somes [q] @ somes qs"
  by (cases q) simp_all

lemma free_chain_step:
  assumes "dom (cells hk) = dom (cells h) - A"
    and "\<forall>x. x \<notin> A \<union> M \<longrightarrow> cells hk x = cells h x"
    and "set (somes [q]) \<subseteq> dom (cells h)" and "set (somes [q]) \<inter> A = {}"
  shows "\<exists>h'. c_kzg_free hk q = Some h' \<and> dom (cells h') = dom (cells h) - (A \<union> set (somes [q]))
           \<and> (\<forall>x. x \<notin> (A \<union> set (somes [q])) \<union> M \<longrightarrow> cells h' x = cells h x)"
proof -
  have "set (somes [q]) \<subseteq> dom (cells hk)" using assms(1,3,4) by auto
  from c_kzg_free_dom [OF this] obtain h' where
    "c_kzg_free hk q = Some h'" "dom (cells h') = dom (cells hk) - set (somes [q])"
    "\<forall>x. x \<notin> set (somes [q]) \<longrightarrow> cells h' x = cells hk x"
    by blast
  then show ?thesis using assms(1,2) by auto
qed

lemma free_rows_chain:
  assumes ok: "array_ok p h arr"
    and dm: "dom (cells hk) = dom (cells h) - A"
    and cl: "\<forall>x. x \<notin> A \<union> M \<longrightarrow> cells hk x = cells h x"
    and ar: "set (somes [arr]) \<inter> (A \<union> M) = {}"
    and di: "distinct (somes (rowptrs h arr))"
    and lv: "set (somes (rowptrs h arr)) \<subseteq> dom (cells h)"
    and da: "set (somes (rowptrs h arr)) \<inter> A = {}"
    and dr: "set (somes [arr]) \<inter> set (somes (rowptrs h arr)) = {}"
  shows "\<exists>h'. (if arr \<noteq> None then free_rows hk arr (CELLS_PER_EXT_BLOB p) 0 else Some hk) = Some h'
           \<and> dom (cells h') = dom (cells h) - (A \<union> set (somes (rowptrs h arr)))
           \<and> (\<forall>x. x \<notin> (A \<union> set (somes (rowptrs h arr))) \<union> (M \<union> set (somes [arr]))
                  \<longrightarrow> cells h' x = cells h x)"
proof (cases arr)
  case None
  then show ?thesis using dm cl by (simp add: rowptrs_def)
next
  case (Some a)
  from ok Some obtain ps where c: "cells h a = Some (Ptrs ps)" and l: "length ps = CELLS_PER_EXT_BLOB p"
    by (auto simp add: array_ok_def)
  have rp: "rowptrs h (Some a) = ps" by (simp add: rowptrs_def c)
  note di = di [unfolded Some] and lv = lv [unfolded Some] and da = da [unfolded Some]
    and dr = dr [unfolded Some]
  have "a \<notin> A \<union> M" using ar Some by simp
  then have ck: "cells hk a = Some (Ptrs ps)" using cl c by simp
  have p4: "distinct (somes (drop 0 ps))" using di rp by simp
  have p5: "a \<notin> set (somes (drop 0 ps))" using dr rp by simp
  have p6: "set (somes (drop 0 ps)) \<subseteq> dom (cells hk)" using lv da rp dm by auto
  from free_rows_dom [OF ck l _ p4 p5 p6] obtain h' where
    "free_rows hk (Some a) (CELLS_PER_EXT_BLOB p) 0 = Some h'"
    "dom (cells h') = dom (cells hk) - set (somes (drop 0 ps))"
    "\<forall>x. x \<notin> set (somes (drop 0 ps)) \<longrightarrow> x \<noteq> a \<longrightarrow> cells h' x = cells hk x"
    by auto
  then show ?thesis using dm cl by (auto simp add: Some rp)
qed

lemma settings_reset:
  "s\<lparr>brp_roots_of_unity := None, roots_of_unity := None,
               reverse_roots_of_unity := None, g1_values_monomial := None,
               g1_values_lagrange_brp := None, g2_values_monomial := None,
               x_ext_fft_columns := None, tables := None,
               wbits := 0, scratch_size := 0, table_size := 0\<rparr> = init_settings"
  by (simp add: init_settings_def)

lemma free_settings_building:
  assumes b: "building p h0 s h" and h0: "heap_ok h0"
  shows "\<exists>h'. free_settings p h s = Some (init_settings, h') \<and> cells h' = cells h0"
proof -
  define L1 where "L1 = set (somes [brp_roots_of_unity s])"
  define L2 where "L2 = set (somes [roots_of_unity s])"
  define L3 where "L3 = set (somes [reverse_roots_of_unity s])"
  define L4 where "L4 = set (somes [g1_values_monomial s])"
  define L5 where "L5 = set (somes [g1_values_lagrange_brp s])"
  define L6 where "L6 = set (somes [g2_values_monomial s])"
  define Rc where "Rc = set (somes (rowptrs h (x_ext_fft_columns s)))"
  define Rt where "Rt = set (somes (rowptrs h (tables s)))"
  define Pc where "Pc = set (somes [x_ext_fft_columns s])"
  define Pt where "Pt = set (somes [tables s])"
  note L = L1_def L2_def L3_def L4_def L5_def L6_def Rc_def Rt_def Pc_def Pt_def
  have ow: "owned h s = somes [brp_roots_of_unity s] @ somes [roots_of_unity s]
      @ somes [reverse_roots_of_unity s] @ somes [g1_values_monomial s]
      @ somes [g1_values_lagrange_brp s] @ somes [g2_values_monomial s]
      @ somes (rowptrs h (x_ext_fft_columns s)) @ somes (rowptrs h (tables s))
      @ somes [x_ext_fft_columns s] @ somes [tables s]"
    unfolding owned_def
    by (simp only: somes_Cons [of _ "_ # _"] append_assoc)
  from b have dis: "distinct (owned h s)"
    and st: "set (owned h s) = {a. next_addr h0 \<le> a \<and> cells h a \<noteq> None}"
    and fr: "frame h0 h" and okc: "array_ok p h (x_ext_fft_columns s)"
    and okt: "array_ok p h (tables s)"
    by (simp_all add: building_def)
  have so: "set (owned h s) = L1 \<union> L2 \<union> L3 \<union> L4 \<union> L5 \<union> L6 \<union> Rc \<union> Rt \<union> Pc \<union> Pt"
    unfolding ow L by auto
  have dj: "L1 \<inter> L2 = {}" "(L1 \<union> L2) \<inter> L3 = {}" "(L1 \<union> L2 \<union> L3) \<inter> L4 = {}"
    "(L1 \<union> L2 \<union> L3 \<union> L4) \<inter> L5 = {}" "(L1 \<union> L2 \<union> L3 \<union> L4 \<union> L5) \<inter> L6 = {}"
    "(L1 \<union> L2 \<union> L3 \<union> L4 \<union> L5 \<union> L6) \<inter> Rc = {}"
    "(L1 \<union> L2 \<union> L3 \<union> L4 \<union> L5 \<union> L6 \<union> Rc) \<inter> Rt = {}"
    "(L1 \<union> L2 \<union> L3 \<union> L4 \<union> L5 \<union> L6 \<union> Rc \<union> Rt) \<inter> Pc = {}"
    "(L1 \<union> L2 \<union> L3 \<union> L4 \<union> L5 \<union> L6 \<union> Rc \<union> Rt \<union> Pc) \<inter> Pt = {}"
    using dis unfolding ow L by auto
  have dr: "distinct (somes (rowptrs h (x_ext_fft_columns s)))"
    "distinct (somes (rowptrs h (tables s)))"
    using dis unfolding ow by simp_all
  have lv: "L1 \<subseteq> dom (cells h)" "L2 \<subseteq> dom (cells h)" "L3 \<subseteq> dom (cells h)" "L4 \<subseteq> dom (cells h)"
    "L5 \<subseteq> dom (cells h)" "L6 \<subseteq> dom (cells h)" "Rc \<subseteq> dom (cells h)" "Rt \<subseteq> dom (cells h)"
    "Pc \<subseteq> dom (cells h)" "Pt \<subseteq> dom (cells h)"
    using st unfolding so by auto
  have s0: "dom (cells h) = dom (cells h) - {}" "\<forall>x. x \<notin> {} \<union> {} \<longrightarrow> cells h x = cells h x"
    by simp_all
  from free_chain_step [OF s0 lv(1) [unfolded L1_def]] obtain h1 where
    f1: "c_kzg_free h (brp_roots_of_unity s) = Some h1"
    and d1: "dom (cells h1) = dom (cells h) - L1"
    and c1: "\<forall>x. x \<notin> L1 \<union> {} \<longrightarrow> cells h1 x = cells h x"
    unfolding L1_def by auto
  from free_chain_step [OF d1 c1 lv(2) [unfolded L2_def]] dj(1) obtain h2 where
    f2: "c_kzg_free h1 (roots_of_unity s) = Some h2"
    and d2: "dom (cells h2) = dom (cells h) - (L1 \<union> L2)"
    and c2: "\<forall>x. x \<notin> (L1 \<union> L2) \<union> {} \<longrightarrow> cells h2 x = cells h x"
    unfolding L2_def by (auto simp add: Int_commute)
  from free_chain_step [OF d2 c2 lv(3) [unfolded L3_def]] dj(2) obtain h3 where
    f3: "c_kzg_free h2 (reverse_roots_of_unity s) = Some h3"
    and d3: "dom (cells h3) = dom (cells h) - (L1 \<union> L2 \<union> L3)"
    and c3: "\<forall>x. x \<notin> (L1 \<union> L2 \<union> L3) \<union> {} \<longrightarrow> cells h3 x = cells h x"
    unfolding L3_def by (auto simp add: Int_commute)
  from free_chain_step [OF d3 c3 lv(4) [unfolded L4_def]] dj(3) obtain h4 where
    f4: "c_kzg_free h3 (g1_values_monomial s) = Some h4"
    and d4: "dom (cells h4) = dom (cells h) - (L1 \<union> L2 \<union> L3 \<union> L4)"
    and c4: "\<forall>x. x \<notin> (L1 \<union> L2 \<union> L3 \<union> L4) \<union> {} \<longrightarrow> cells h4 x = cells h x"
    unfolding L4_def by (auto simp add: Int_commute)
  from free_chain_step [OF d4 c4 lv(5) [unfolded L5_def]] dj(4) obtain h5 where
    f5: "c_kzg_free h4 (g1_values_lagrange_brp s) = Some h5"
    and d5: "dom (cells h5) = dom (cells h) - (L1 \<union> L2 \<union> L3 \<union> L4 \<union> L5)"
    and c5: "\<forall>x. x \<notin> (L1 \<union> L2 \<union> L3 \<union> L4 \<union> L5) \<union> {} \<longrightarrow> cells h5 x = cells h x"
    unfolding L5_def by (auto simp add: Int_commute)
  from free_chain_step [OF d5 c5 lv(6) [unfolded L6_def]] dj(5) obtain h6 where
    f6: "c_kzg_free h5 (g2_values_monomial s) = Some h6"
    and d6: "dom (cells h6) = dom (cells h) - (L1 \<union> L2 \<union> L3 \<union> L4 \<union> L5 \<union> L6)"
    and c6: "\<forall>x. x \<notin> (L1 \<union> L2 \<union> L3 \<union> L4 \<union> L5 \<union> L6) \<union> {} \<longrightarrow> cells h6 x = cells h x"
    unfolding L6_def by (auto simp add: Int_commute)
  have a7: "set (somes [x_ext_fft_columns s]) \<inter> ((L1 \<union> L2 \<union> L3 \<union> L4 \<union> L5 \<union> L6) \<union> {}) = {}"
    "set (somes (rowptrs h (x_ext_fft_columns s))) \<inter> (L1 \<union> L2 \<union> L3 \<union> L4 \<union> L5 \<union> L6) = {}"
    "set (somes [x_ext_fft_columns s]) \<inter> set (somes (rowptrs h (x_ext_fft_columns s))) = {}"
    using dj(6,8) unfolding Pc_def Rc_def by auto
  from free_rows_chain [OF okc d6 c6 a7(1) dr(1) lv(7) [unfolded Rc_def] a7(2,3)] obtain h7 where
    f7: "(if x_ext_fft_columns s \<noteq> None
          then free_rows h6 (x_ext_fft_columns s) (CELLS_PER_EXT_BLOB p) 0 else Some h6) = Some h7"
    and d7: "dom (cells h7) = dom (cells h) - (L1 \<union> L2 \<union> L3 \<union> L4 \<union> L5 \<union> L6 \<union> Rc)"
    and c7: "\<forall>x. x \<notin> (L1 \<union> L2 \<union> L3 \<union> L4 \<union> L5 \<union> L6 \<union> Rc) \<union> ({} \<union> Pc) \<longrightarrow> cells h7 x = cells h x"
    unfolding Rc_def Pc_def by blast
  have a8: "set (somes [tables s]) \<inter> ((L1 \<union> L2 \<union> L3 \<union> L4 \<union> L5 \<union> L6 \<union> Rc) \<union> ({} \<union> Pc)) = {}"
    "set (somes (rowptrs h (tables s))) \<inter> (L1 \<union> L2 \<union> L3 \<union> L4 \<union> L5 \<union> L6 \<union> Rc) = {}"
    "set (somes [tables s]) \<inter> set (somes (rowptrs h (tables s))) = {}"
    using dj(7,9) unfolding Pt_def Rt_def by auto
  from free_rows_chain [OF okt d7 c7 a8(1) dr(2) lv(8) [unfolded Rt_def] a8(2,3)] obtain h8 where
    f8: "(if tables s \<noteq> None
          then free_rows h7 (tables s) (CELLS_PER_EXT_BLOB p) 0 else Some h7) = Some h8"
    and d8: "dom (cells h8) = dom (cells h) - (L1 \<union> L2 \<union> L3 \<union> L4 \<union> L5 \<union> L6 \<union> Rc \<union> Rt)"
    and c8: "\<forall>x. x \<notin> (L1 \<union> L2 \<union> L3 \<union> L4 \<union> L5 \<union> L6 \<union> Rc \<union> Rt) \<union> (({} \<union> Pc) \<union> Pt)
               \<longrightarrow> cells h8 x = cells h x"
    unfolding Rt_def Pt_def by blast
  from free_chain_step [OF d8 c8 lv(9) [unfolded Pc_def]] dj(8) obtain h9 where
    f9: "c_kzg_free h8 (x_ext_fft_columns s) = Some h9"
    and d9: "dom (cells h9) = dom (cells h) - (L1 \<union> L2 \<union> L3 \<union> L4 \<union> L5 \<union> L6 \<union> Rc \<union> Rt \<union> Pc)"
    and c9: "\<forall>x. x \<notin> (L1 \<union> L2 \<union> L3 \<union> L4 \<union> L5 \<union> L6 \<union> Rc \<union> Rt \<union> Pc) \<union> (({} \<union> Pc) \<union> Pt)
               \<longrightarrow> cells h9 x = cells h x"
    unfolding Pc_def by (auto simp add: Int_commute)
  from free_chain_step [OF d9 c9 lv(10) [unfolded Pt_def]] dj(9) obtain h10 where
    f10: "c_kzg_free h9 (tables s) = Some h10"
    and d10: "dom (cells h10) = dom (cells h) - (L1 \<union> L2 \<union> L3 \<union> L4 \<union> L5 \<union> L6 \<union> Rc \<union> Rt \<union> Pc \<union> Pt)"
    and c10: "\<forall>x. x \<notin> (L1 \<union> L2 \<union> L3 \<union> L4 \<union> L5 \<union> L6 \<union> Rc \<union> Rt \<union> Pc \<union> Pt) \<union> (({} \<union> Pc) \<union> Pt)
               \<longrightarrow> cells h10 x = cells h x"
    unfolding Pt_def by (auto simp add: Int_commute)
  have res: "free_settings p h s = Some (init_settings, h10)"
    by (simp add: free_settings_def f1 f2 f3 f4 f5 f6 f7 f8 f9 f10 settings_reset del: not_None_eq)
  have "cells h10 x = cells h0 x" for x
  proof (cases "x < next_addr h0")
    case True
    then have "x \<notin> set (owned h s)" using st by auto
    then have "cells h10 x = cells h x" using c10 unfolding so by auto
    also have "\<dots> = cells h0 x" using fr True by (simp add: frame_def)
    finally show ?thesis .
  next
    case False
    then have z: "cells h0 x = None" using h0 by (simp add: heap_ok_def)
    have "x \<notin> dom (cells h10)"
    proof (cases "cells h x")
      case None
      then show ?thesis using d10 by auto
    next
      case (Some y)
      then have "x \<in> set (owned h s)" using st False by auto
      then show ?thesis unfolding d10 so by auto
    qed
    then show ?thesis using z by auto
  qed
  then have "cells h10 = cells h0" by (rule ext)
  with res show ?thesis by blast
qed

lemma unset_fields:
  "unset k s \<Longrightarrow> k \<le> 0 \<Longrightarrow> roots_of_unity s = None"
  "unset k s \<Longrightarrow> k \<le> 1 \<Longrightarrow> brp_roots_of_unity s = None"
  "unset k s \<Longrightarrow> k \<le> 2 \<Longrightarrow> reverse_roots_of_unity s = None"
  "unset k s \<Longrightarrow> k \<le> 3 \<Longrightarrow> g1_values_monomial s = None"
  "unset k s \<Longrightarrow> k \<le> 4 \<Longrightarrow> g1_values_lagrange_brp s = None"
  "unset k s \<Longrightarrow> k \<le> 5 \<Longrightarrow> g2_values_monomial s = None"
  "unset k s \<Longrightarrow> k \<le> 6 \<Longrightarrow> x_ext_fft_columns s = None"
  "unset k s \<Longrightarrow> k \<le> 7 \<Longrightarrow> tables s = None"
  by (simp_all add: unset_def)

lemma allocates_calloc: "allocates (\<lambda>h. c_kzg_calloc h n sz)"
  by (auto simp add: allocates_def c_kzg_calloc_def alloc_block_def heap_add_def)

lemma allocates_malloc: "allocates (\<lambda>h. c_kzg_malloc h sz)"
  by (auto simp add: allocates_def c_kzg_malloc_def alloc_block_def heap_add_def)

lemma allocates_calloc_ptrs:
  "(\<exists>ret. ret \<noteq> C_KZG_OK \<and> c_kzg_calloc_ptrs h n sz = (ret, None, h))
   \<or> c_kzg_calloc_ptrs h n sz = (C_KZG_OK, Some (next_addr h), heap_add h (Ptrs (replicate n None)))"
  by (auto simp add: c_kzg_calloc_ptrs_def alloc_block_def heap_add_def)

lemma set_somes_update:
  "i < length ps \<Longrightarrow> ps ! i = None \<Longrightarrow> set (somes (ps[i := Some b])) = insert b (set (somes ps))"
proof (induction ps arbitrary: i)
  case Nil
  then show ?case by simp
next
  case (Cons q ps)
  then show ?case by (cases i; cases q) auto
qed

lemma building_owned_live:
  assumes "building p h0 s h" and "a \<in> set (owned h s)"
  shows "next_addr h0 \<le> a" and "cells h a \<noteq> None" and "a < next_addr h"
proof -
  from assms show 1: "next_addr h0 \<le> a" and 2: "cells h a \<noteq> None"
    by (auto simp add: building_def)
  from assms(1) have "heap_ok h" by (simp add: building_def)
  with 2 show "a < next_addr h" by (metis heap_ok_def not_le_imp_less)
qed

lemma building_grow:
  assumes b: "building p h0 s h"
    and na: "next_addr h' = next_addr h + 1"
    and dm: "dom (cells h') = insert (next_addr h) (dom (cells h))"
    and lo: "\<forall>x<next_addr h0. cells h' x = cells h x"
    and st: "set (owned h' s') = insert (next_addr h) (set (owned h s))"
    and di: "distinct (owned h' s')"
    and ok: "array_ok p h' (x_ext_fft_columns s')" "array_ok p h' (tables s')"
  shows "building p h0 s' h'"
proof -
  from b have hk: "heap_ok h" and fr: "frame h0 h"
    and so: "set (owned h s) = {a. next_addr h0 \<le> a \<and> cells h a \<noteq> None}"
    by (simp_all add: building_def)
  have d: "cells h' x \<noteq> None \<longleftrightarrow> x = next_addr h \<or> cells h x \<noteq> None" for x
    using dm by (auto simp add: dom_def set_eq_iff)
  have "heap_ok h'"
    unfolding heap_ok_def
  proof (intro allI impI)
    fix x assume "next_addr h' \<le> x"
    then have "x \<noteq> next_addr h" "cells h x = None" using na hk by (simp_all add: heap_ok_def)
    then show "cells h' x = None" using d [of x] by simp
  qed
  moreover have "frame h0 h'"
    using fr lo na by (simp add: frame_def)
  moreover have "set (owned h' s') = {a. next_addr h0 \<le> a \<and> cells h' a \<noteq> None}"
    unfolding st so using fr by (auto simp add: d frame_def simp del: not_None_eq)
  ultimately show ?thesis using di ok by (simp add: building_def)
qed

lemma rowptrs_same:
  assumes "array_ok p h arr" and "\<forall>x. x \<in> dom (cells h) \<longrightarrow> cells h' x = cells h x"
  shows "rowptrs h' arr = rowptrs h arr" and "array_ok p h' arr"
  using assms by (auto simp add: rowptrs_def array_ok_def split: option.splits)

lemma owned_same:
  assumes "array_ok p h (x_ext_fft_columns s)" and "array_ok p h (tables s)"
    and "\<forall>x. x \<in> dom (cells h) \<longrightarrow> cells h' x = cells h x"
  shows "owned h' s = owned h s"
  by (simp add: owned_def rowptrs_same(1) [OF assms(1,3)] rowptrs_same(1) [OF assms(2,3)])

lemma load_size_t_flow:
  assumes b: "building p h0 s h" and u: "unset 0 s"
    and o: "\<And>v h'. owned h' (upd v s) = owned h' s"
    and f: "\<And>v. x_ext_fft_columns (upd v s) = x_ext_fft_columns s" "\<And>v. tables (upd v s) = tables s"
    and n: "\<And>v. unset 0 (upd v s)"
  shows "flow_ok p h0 0 (load_size_t p data upd s h off)"
  using b n by (auto simp add: load_size_t_def flow_ok_def building_def o f split: option.splits)

lemma load_array_flow:
  assumes b: "building p h0 s h" and al: "allocates al"
    and u0: "upd None s = s"
    and u1: "\<And>h' a. set (owned h' (upd (Some a) s)) = insert a (set (owned h' s))"
    and u2: "\<And>h' a. a \<notin> set (owned h' s) \<Longrightarrow> distinct (owned h' s)
               \<Longrightarrow> distinct (owned h' (upd (Some a) s))"
    and u3: "\<And>q. x_ext_fft_columns (upd q s) = x_ext_fft_columns s" "\<And>q. tables (upd q s) = tables s"
    and u4: "\<And>q. unset k (upd q s)"
  shows "flow_ok p h0 k (load_array data al nb upd s h off)"
proof -
  from b have hk: "heap_ok h" and fr: "frame h0 h" and dis: "distinct (owned h s)"
    and okc: "array_ok p h (x_ext_fft_columns s)" and okt: "array_ok p h (tables s)"
    by (simp_all add: building_def)
  define a where "a = next_addr h"
  have fresh: "cells h a = None" using hk by (simp add: heap_ok_def a_def)
  have an: "a \<notin> set (owned h s)" using building_owned_live(3) [OF b, of a] by (auto simp add: a_def)
  from al have "(\<exists>ret. ret \<noteq> C_KZG_OK \<and> al h = (ret, None, h))
        \<or> (\<exists>b. al h = (C_KZG_OK, Some a, heap_add h b))"
    by (simp add: allocates_def a_def)
  then show ?thesis
  proof (elim disjE exE conjE)
    fix ret assume "ret \<noteq> C_KZG_OK" "al h = (ret, None, h)"
    then show ?thesis using b by (simp add: load_array_def flow_ok_def u0)
  next
    fix blk assume alh: "al h = (C_KZG_OK, Some a, heap_add h blk)"
    show ?thesis
    proof (cases "read_bytes (heap_add h blk) data off nb")
      case None
      then show ?thesis by (simp add: load_array_def alh flow_ok_def)
    next
      case (Some bs)
      show ?thesis
      proof (cases "write_bytes (heap_add h blk) (Some a) bs")
        case None
        then show ?thesis by (simp add: load_array_def alh Some flow_ok_def)
      next
        case w: (Some h2)
        then obtain nb2 where h2: "h2 = (heap_add h blk)\<lparr>cells := (cells (heap_add h blk))(a \<mapsto> Bytes nb2)\<rparr>"
          by (auto simp add: write_bytes_def split: option.splits block.splits if_splits)
        have na: "next_addr h2 = next_addr h + 1" by (simp add: h2 heap_add_def)
        have dm: "dom (cells h2) = insert (next_addr h) (dom (cells h))"
          by (auto simp add: h2 heap_add_def a_def)
        have same: "\<forall>x. x \<in> dom (cells h) \<longrightarrow> cells h2 x = cells h x"
          using fresh by (auto simp add: h2 heap_add_def a_def)
        have lo: "\<forall>x<next_addr h0. cells h2 x = cells h x"
          using fr by (auto simp add: h2 heap_add_def a_def frame_def)
        have ow: "owned h2 s = owned h s" using okc okt same by (rule owned_same)
        have st: "set (owned h2 (upd (Some a) s)) = insert (next_addr h) (set (owned h s))"
          by (simp add: u1 ow a_def)
        have di: "distinct (owned h2 (upd (Some a) s))"
          using an dis by (intro u2) (simp_all add: ow)
        have ok: "array_ok p h2 (x_ext_fft_columns (upd (Some a) s))"
          "array_ok p h2 (tables (upd (Some a) s))"
          using rowptrs_same(2) [OF okc same] rowptrs_same(2) [OF okt same] by (simp_all add: u3)
        have "building p h0 (upd (Some a) s) h2"
          using b na dm lo st di ok by (rule building_grow)
        then show ?thesis by (simp add: load_array_def alh Some w flow_ok_def u4)
      qed
    qed
  qed
qed

lemma distinct_somes_update:
  "distinct (somes ps) \<Longrightarrow> b \<notin> set (somes ps) \<Longrightarrow> i < length ps \<Longrightarrow> ps ! i = None
     \<Longrightarrow> distinct (somes (ps[i := Some b]))"
proof (induction ps arbitrary: i)
  case Nil
  then show ?case by simp
next
  case (Cons q ps)
  show ?case
  proof (cases i)
    case 0
    then show ?thesis using Cons.prems by simp
  next
    case (Suc j)
    then show ?thesis using Cons.prems Cons.IH [of j]
      by (cases q) (auto simp add: set_somes_update)
  qed
qed

lemma somes_replicate_None: "somes (replicate n None) = []"
  by (induction n) simp_all

lemma rowptrs_at:
  assumes "array_ok p h arr" and "\<forall>x. arr = Some x \<longrightarrow> cells h' x = cells h x"
  shows "rowptrs h' arr = rowptrs h arr" and "array_ok p h' arr"
  using assms by (auto simp add: rowptrs_def array_ok_def split: option.splits)

lemma heap_self_update: "cells h a = Some b \<Longrightarrow> h\<lparr>cells := (cells h)(a \<mapsto> b)\<rparr> = h"
  by (simp add: fun_upd_idem)

lemma load_rows_flow:
  assumes "building p h0 s h" and u: "unset k s" and al: "allocates al"
    and "cells h a = Some (Ptrs ps)" and "length ps = n" and n: "n = CELLS_PER_EXT_BLOB p"
    and "\<forall>j. i \<le> j \<and> j < n \<longrightarrow> ps ! j = None"
    and "a \<in> set (owned h s)"
    and "\<And>h' ps'. cells h' a = Some (Ptrs ps')
           \<Longrightarrow> (\<forall>x. x \<noteq> a \<longrightarrow> x \<in> dom (cells h) \<longrightarrow> cells h' x = cells h x)
           \<Longrightarrow> owned h' s = F @ somes ps' @ G"
  shows "flow_ok p h0 k (load_rows data al nb (Some a) n i s h off)"
  using assms(1,4,5,7,8,9)
proof (induction "n - i" arbitrary: i h ps off)
  case 0
  then have "\<not> i < n" by simp
  then show ?case using 0(2) u by (subst load_rows.simps) (simp add: flow_ok_def)
next
  case (Suc m)
  note b = Suc.prems(1) and c = Suc.prems(2) and l = Suc.prems(3) and z = Suc.prems(4)
    and ao = Suc.prems(5) and role = Suc.prems(6)
  from Suc.hyps(2) have i: "i < n" by simp
  then have il: "i < length ps" using l by simp
  have pi: "ps ! i = None" using z i by simp
  from b have hk: "heap_ok h" and fr: "frame h0 h" and dis: "distinct (owned h s)"
    and okc: "array_ok p h (x_ext_fft_columns s)" and okt: "array_ok p h (tables s)"
    by (simp_all add: building_def)
  define bb where "bb = next_addr h"
  have fresh: "cells h bb = None" using hk by (simp add: heap_ok_def bb_def)
  have bn: "bb \<notin> set (owned h s)" using building_owned_live(3) [OF b, of bb] by (auto simp add: bb_def)
  have ne: "a \<noteq> bb" using c fresh by auto
  have a0: "next_addr h0 \<le> a" using building_owned_live(1) [OF b ao] .
  have oh: "owned h s = F @ somes ps @ G" using c by (intro role) simp_all
  from al have "(\<exists>ret. ret \<noteq> C_KZG_OK \<and> al h = (ret, None, h))
        \<or> (\<exists>b. al h = (C_KZG_OK, Some bb, heap_add h b))"
    by (simp add: allocates_def bb_def)
  then show ?case
  proof (elim disjE exE conjE)
    fix ret assume r: "ret \<noteq> C_KZG_OK" and alh: "al h = (ret, None, h)"
    have "ps[i := None] = ps" using pi il by (simp add: list_update_same_conv)
    then have st: "store_ptr h (Some a) i None = Some h"
      using c il by (simp add: store_ptr_def heap_self_update)
    show ?case using r b by (subst load_rows.simps) (simp add: i alh st flow_ok_def)
  next
    fix blk assume alh: "al h = (C_KZG_OK, Some bb, heap_add h blk)"
    define ps' where "ps' = ps[i := Some bb]"
    define h2 where "h2 = (heap_add h blk)\<lparr>cells := (cells (heap_add h blk))(a \<mapsto> Ptrs ps')\<rparr>"
    have c1: "cells (heap_add h blk) a = Some (Ptrs ps)"
      using c ne by (simp add: heap_add_def bb_def)
    have st: "store_ptr (heap_add h blk) (Some a) i (Some bb) = Some h2"
      using c1 il by (simp add: store_ptr_def h2_def ps'_def)
    show ?case
    proof (cases "read_bytes h2 data off nb")
      case None
      then show ?thesis by (subst load_rows.simps) (simp add: i alh st flow_ok_def)
    next
      case (Some bs)
      show ?thesis
      proof (cases "write_bytes h2 (Some bb) bs")
        case None
        then show ?thesis by (subst load_rows.simps) (simp add: i alh st Some flow_ok_def)
      next
        case w: (Some h3)
        then obtain nb2 where h3: "h3 = h2\<lparr>cells := (cells h2)(bb \<mapsto> Bytes nb2)\<rparr>"
          by (auto simp add: write_bytes_def split: option.splits block.splits if_splits)
        have step: "load_rows data al nb (Some a) n i s h off
            = load_rows data al nb (Some a) n (i + 1) s h3 (off + nb)"
          by (subst load_rows.simps) (simp add: i alh st Some w)
        have c3: "cells h3 a = Some (Ptrs ps')" using ne by (simp add: h3 h2_def)
        have same: "\<forall>x. x \<noteq> a \<longrightarrow> x \<in> dom (cells h) \<longrightarrow> cells h3 x = cells h x"
          using fresh by (auto simp add: h3 h2_def heap_add_def bb_def)
        have na: "next_addr h3 = next_addr h + 1" by (simp add: h3 h2_def heap_add_def)
        have dm: "dom (cells h3) = insert (next_addr h) (dom (cells h))"
          using c by (auto simp add: h3 h2_def heap_add_def bb_def)
        have lo: "\<forall>x<next_addr h0. cells h3 x = cells h x"
          using fr a0 by (auto simp add: h3 h2_def heap_add_def bb_def frame_def)
        have o3: "owned h3 s = F @ somes ps' @ G" using c3 same by (rule role)
        have sp: "set (somes ps') = insert bb (set (somes ps))"
          unfolding ps'_def using il pi by (rule set_somes_update)
        have st3: "set (owned h3 s) = insert (next_addr h) (set (owned h s))"
          unfolding o3 oh by (auto simp add: sp bb_def)
        have dp: "distinct (somes ps')"
          unfolding ps'_def using dis bn il pi unfolding oh by (intro distinct_somes_update) simp_all
        have di: "distinct (owned h3 s)"
          using dis bn dp unfolding o3 oh by (auto simp add: sp)
        have l': "length ps' = n" using l by (simp add: ps'_def)
        have ok: "array_ok p h3 arr" if "array_ok p h arr" for arr
        proof (cases "arr = Some a")
          case True
          then show ?thesis using c3 l' n by (simp add: array_ok_def)
        next
          case False
          have "\<forall>x. arr = Some x \<longrightarrow> cells h3 x = cells h x"
          proof (intro allI impI)
            fix x assume x: "arr = Some x"
            then have "x \<noteq> a" using False by simp
            moreover have "x \<in> dom (cells h)" using that x by (auto simp add: array_ok_def)
            ultimately show "cells h3 x = cells h x" using same by simp
          qed
          with that show ?thesis by (rule rowptrs_at(2))
        qed
        have b3: "building p h0 s h3"
          using b na dm lo st3 di ok [OF okc] ok [OF okt] by (rule building_grow)
        have z3: "\<forall>j. i + 1 \<le> j \<and> j < n \<longrightarrow> ps' ! j = None"
          using z by (simp add: ps'_def)
        have ao3: "a \<in> set (owned h3 s)" using ao st3 by simp
        have role3: "owned h' s = F @ somes q @ G"
          if "cells h' a = Some (Ptrs q)"
            and "\<forall>x. x \<noteq> a \<longrightarrow> x \<in> dom (cells h3) \<longrightarrow> cells h' x = cells h3 x" for h' q
        proof (rule role [OF that(1)], intro allI impI)
          fix x assume x: "x \<noteq> a" "x \<in> dom (cells h)"
          then have "x \<in> dom (cells h3)" using dm by simp
          then have "cells h' x = cells h3 x" using that(2) x(1) by simp
          then show "cells h' x = cells h x" using same x by simp
        qed
        have m: "m = n - (i + 1)" using Suc.hyps(2) by simp
        show ?thesis
          unfolding step using m b3 c3 l' z3 ao3 role3 by (rule Suc.hyps(1))
      qed
    qed
  qed
qed

lemma load_columns_flow:
  assumes b: "building p h0 s h" and u: "unset 6 s"
  shows "flow_ok p h0 7 (load_columns p data s h off)"
proof -
  from b have hk: "heap_ok h" and fr: "frame h0 h" and dis: "distinct (owned h s)"
    by (simp_all add: building_def)
  have xc: "x_ext_fft_columns s = None" and xt: "tables s = None"
    using unset_fields(7,8) [OF u] by simp_all
  define a where "a = next_addr h"
  define C where "C = CELLS_PER_EXT_BLOB p"
  define s1 where "s1 = s\<lparr>x_ext_fft_columns := Some a\<rparr>"
  define h1 where "h1 = heap_add h (Ptrs (replicate C None))"
  define F where "F = somes [brp_roots_of_unity s, roots_of_unity s, reverse_roots_of_unity s,
            g1_values_monomial s, g1_values_lagrange_brp s, g2_values_monomial s]"
  have fresh: "cells h a = None" using hk by (simp add: heap_ok_def a_def)
  have an: "a \<notin> set (owned h s)" using building_owned_live(3) [OF b, of a] by (auto simp add: a_def)
  have oh: "owned h s = F" by (simp add: owned_def xc xt rowptrs_def F_def)
  have role: "owned h' s1 = F @ somes ps' @ [a]" if "cells h' a = Some (Ptrs ps')" for h' ps'
    using that by (simp add: owned_def s1_def xt rowptrs_def F_def)
  from allocates_calloc_ptrs [of h C "sizeof_ptr p"]
  show ?thesis
  proof (elim disjE exE conjE)
    fix ret assume "ret \<noteq> C_KZG_OK" "c_kzg_calloc_ptrs h C (sizeof_ptr p) = (ret, None, h)"
    moreover have "s\<lparr>x_ext_fft_columns := None\<rparr> = s" using xc by simp
    ultimately show ?thesis using b by (simp add: load_columns_def flow_ok_def C_def)
  next
    assume al: "c_kzg_calloc_ptrs h C (sizeof_ptr p)
        = (C_KZG_OK, Some (next_addr h), heap_add h (Ptrs (replicate C None)))"
    have c1: "cells h1 a = Some (Ptrs (replicate C None))" by (simp add: h1_def heap_add_def a_def)
    have o1: "owned h1 s1 = F @ [a]" using role [OF c1] by (simp add: somes_replicate_None)
    have b1: "building p h0 s1 h1"
    proof (rule building_grow [OF b])
      show "next_addr h1 = next_addr h + 1" by (simp add: h1_def heap_add_def)
      show "dom (cells h1) = insert (next_addr h) (dom (cells h))"
        by (auto simp add: h1_def heap_add_def)
      show "\<forall>x<next_addr h0. cells h1 x = cells h x"
        using fr by (auto simp add: h1_def heap_add_def frame_def)
      show "set (owned h1 s1) = insert (next_addr h) (set (owned h s))"
        by (auto simp add: o1 oh a_def)
      show "distinct (owned h1 s1)" using dis an by (simp add: o1 oh)
      show "array_ok p h1 (x_ext_fft_columns s1)"
        using c1 by (simp add: array_ok_def s1_def C_def)
      show "array_ok p h1 (tables s1)" by (simp add: array_ok_def s1_def xt)
    qed
    have u1: "unset 7 s1" by (simp add: unset_def s1_def xt)
    have "flow_ok p h0 7 (load_rows data (\<lambda>h. new_g1_array p h (FIELD_ELEMENTS_PER_CELL p))
                 (FIELD_ELEMENTS_PER_CELL p * sizeof_g1_t p) (Some a) C 0 s1 h1 off)"
    proof (rule load_rows_flow [OF b1 u1 _ c1, where F = F and G = "[a]"])
      show "allocates (\<lambda>h. new_g1_array p h (FIELD_ELEMENTS_PER_CELL p))"
        unfolding new_g1_array_def by (rule allocates_calloc)
      show "length (replicate C None) = C" by simp
      show "C = CELLS_PER_EXT_BLOB p" by (simp add: C_def)
      show "\<forall>j. 0 \<le> j \<and> j < C \<longrightarrow> replicate C None ! j = None" by simp
      show "a \<in> set (owned h1 s1)" by (simp add: o1)
      show "owned h' s1 = F @ somes ps' @ [a]" if "cells h' a = Some (Ptrs ps')" for h' ps'
        using that by (rule role)
    qed
    then show ?thesis
      using al by (simp add: load_columns_def C_def s1_def h1_def a_def)
  qed
qed

lemma load_tables_flow:
  assumes b: "building p h0 s h" and u: "unset 7 s"
  shows "flow_ok p h0 8 (load_tables p data s h off)"
proof (cases "wbits s = 0")
  case True
  have "unset 8 s" by (simp add: unset_def)
  then show ?thesis using b True by (simp add: load_tables_def flow_ok_def)
next
  case False
  from b have hk: "heap_ok h" and fr: "frame h0 h" and dis: "distinct (owned h s)"
    and okc: "array_ok p h (x_ext_fft_columns s)"
    by (simp_all add: building_def)
  have xt: "tables s = None" using unset_fields(8) [OF u] by simp
  define a where "a = next_addr h"
  define C where "C = CELLS_PER_EXT_BLOB p"
  define s1 where "s1 = s\<lparr>tables := Some a\<rparr>"
  define h1 where "h1 = heap_add h (Ptrs (replicate C None))"
  define F where "F = somes [brp_roots_of_unity s, roots_of_unity s, reverse_roots_of_unity s,
            g1_values_monomial s, g1_values_lagrange_brp s, g2_values_monomial s]
     @ somes (rowptrs h (x_ext_fft_columns s))"
  define G where "G = somes [x_ext_fft_columns s] @ [a]"
  have fresh: "cells h a = None" using hk by (simp add: heap_ok_def a_def)
  have an: "a \<notin> set (owned h s)" using building_owned_live(3) [OF b, of a] by (auto simp add: a_def)
  have oh: "owned h s = F @ somes [x_ext_fft_columns s]"
    by (simp add: owned_def xt rowptrs_def F_def somes_Cons [of _ "[None]"])
  have role: "owned h' s1 = F @ somes ps' @ G"
    if "cells h' a = Some (Ptrs ps')"
      and "\<forall>x. x \<noteq> a \<longrightarrow> x \<in> dom (cells h) \<longrightarrow> cells h' x = cells h x" for h' ps'
  proof -
    have "\<forall>x. x_ext_fft_columns s = Some x \<longrightarrow> cells h' x = cells h x"
    proof (intro allI impI)
      fix x assume x: "x_ext_fft_columns s = Some x"
      then have d: "x \<in> dom (cells h)" using okc by (auto simp add: array_ok_def)
      then have "x \<noteq> a" using fresh by auto
      then show "cells h' x = cells h x" using that(2) d by simp
    qed
    from rowptrs_at(1) [OF okc this] have "rowptrs h' (x_ext_fft_columns s) = rowptrs h (x_ext_fft_columns s)" .
    then show ?thesis
      using that(1)
      by (simp add: owned_def s1_def F_def G_def rowptrs_def [of h' "Some a"]
          somes_Cons [of _ "[Some a]"])
  qed
  from allocates_calloc_ptrs [of h C "sizeof_ptr p"]
  show ?thesis
  proof (elim disjE exE conjE)
    fix ret assume "ret \<noteq> C_KZG_OK" "c_kzg_calloc_ptrs h C (sizeof_ptr p) = (ret, None, h)"
    moreover have "s\<lparr>tables := None\<rparr> = s" using xt by simp
    ultimately show ?thesis using b False by (simp add: load_tables_def flow_ok_def C_def)
  next
    assume al: "c_kzg_calloc_ptrs h C (sizeof_ptr p)
        = (C_KZG_OK, Some (next_addr h), heap_add h (Ptrs (replicate C None)))"
    have c1: "cells h1 a = Some (Ptrs (replicate C None))" by (simp add: h1_def heap_add_def a_def)
    have same1: "\<forall>x. x \<noteq> a \<longrightarrow> x \<in> dom (cells h) \<longrightarrow> cells h1 x = cells h x"
      by (simp add: h1_def heap_add_def a_def)
    have o1: "owned h1 s1 = F @ G" using role [OF c1 same1] by (simp add: somes_replicate_None)
    have okc1: "array_ok p h1 (x_ext_fft_columns s)"
    proof (rule rowptrs_at(2) [OF okc], intro allI impI)
      fix x assume x: "x_ext_fft_columns s = Some x"
      then have d: "x \<in> dom (cells h)" using okc by (auto simp add: array_ok_def)
      then have "x \<noteq> a" using fresh by auto
      then show "cells h1 x = cells h x" using same1 d by simp
    qed
    have b1: "building p h0 s1 h1"
    proof (rule building_grow [OF b])
      show "next_addr h1 = next_addr h + 1" by (simp add: h1_def heap_add_def)
      show "dom (cells h1) = insert (next_addr h) (dom (cells h))"
        by (auto simp add: h1_def heap_add_def)
      show "\<forall>x<next_addr h0. cells h1 x = cells h x"
        using fr by (auto simp add: h1_def heap_add_def frame_def)
      show "set (owned h1 s1) = insert (next_addr h) (set (owned h s))"
        by (auto simp add: o1 oh a_def G_def)
      show "distinct (owned h1 s1)" using dis an by (simp add: o1 oh G_def)
      show "array_ok p h1 (x_ext_fft_columns s1)" using okc1 by (simp add: s1_def)
      show "array_ok p h1 (tables s1)"
        using c1 by (simp add: array_ok_def s1_def C_def)
    qed
    have u1: "unset 8 s1" by (simp add: unset_def)
    have "flow_ok p h0 8 (load_rows data (\<lambda>h. c_kzg_malloc h (table_size s)) (table_size s)
        (Some a) C 0 s1 h1 off)"
    proof (rule load_rows_flow [OF b1 u1 _ c1, where F = F and G = G])
      show "allocates (\<lambda>h. c_kzg_malloc h (table_size s))" by (rule allocates_malloc)
      show "length (replicate C None) = C" by simp
      show "C = CELLS_PER_EXT_BLOB p" by (simp add: C_def)
      show "\<forall>j. 0 \<le> j \<and> j < C \<longrightarrow> replicate C None ! j = None" by simp
      show "a \<in> set (owned h1 s1)" by (simp add: o1 G_def)
      show "owned h' s1 = F @ somes ps' @ G"
        if "cells h' a = Some (Ptrs ps')"
          and "\<forall>x. x \<noteq> a \<longrightarrow> x \<in> dom (cells h1) \<longrightarrow> cells h' x = cells h1 x" for h' ps'
      proof (rule role [OF that(1)], intro allI impI)
        fix x assume x: "x \<noteq> a" "x \<in> dom (cells h)"
        then have "x \<in> dom (cells h1)" by (simp add: h1_def heap_add_def)
        then have "cells h' x = cells h1 x" using that(2) x(1) by simp
        then show "cells h' x = cells h x" using same1 x by simp
      qed
    qed
    then show ?thesis
      using al False by (simp add: load_tables_def C_def s1_def h1_def a_def)
  qed
qed

lemma load_roots_flow:
  assumes b: "building p h0 s h" and u: "unset 0 s" and al: "allocates al"
  shows "flow_ok p h0 1 (load_array data al nb (\<lambda>q s. s\<lparr>roots_of_unity := q\<rparr>) s h off)"
  using u by (intro load_array_flow [OF b al]) (auto simp add: owned_def unset_def somes_Cons [of _ "_ # _"])

lemma load_brp_roots_flow:
  assumes b: "building p h0 s h" and u: "unset 1 s" and al: "allocates al"
  shows "flow_ok p h0 2 (load_array data al nb (\<lambda>q s. s\<lparr>brp_roots_of_unity := q\<rparr>) s h off)"
  using u by (intro load_array_flow [OF b al]) (auto simp add: owned_def unset_def somes_Cons [of _ "_ # _"])

lemma load_reverse_roots_flow:
  assumes b: "building p h0 s h" and u: "unset 2 s" and al: "allocates al"
  shows "flow_ok p h0 3 (load_array data al nb (\<lambda>q s. s\<lparr>reverse_roots_of_unity := q\<rparr>) s h off)"
  using u by (intro load_array_flow [OF b al]) (auto simp add: owned_def unset_def somes_Cons [of _ "_ # _"])

lemma load_g1_monomial_flow:
  assumes b: "building p h0 s h" and u: "unset 3 s" and al: "allocates al"
  shows "flow_ok p h0 4 (load_array data al nb (\<lambda>q s. s\<lparr>g1_values_monomial := q\<rparr>) s h off)"
  using u by (intro load_array_flow [OF b al]) (auto simp add: owned_def unset_def somes_Cons [of _ "_ # _"])

lemma load_g1_lagrange_flow:
  assumes b: "building p h0 s h" and u: "unset 4 s" and al: "allocates al"
  shows "flow_ok p h0 5 (load_array data al nb (\<lambda>q s. s\<lparr>g1_values_lagrange_brp := q\<rparr>) s h off)"
  using u by (intro load_array_flow [OF b al]) (auto simp add: owned_def unset_def somes_Cons [of _ "_ # _"])

lemma load_g2_monomial_flow:
  assumes b: "building p h0 s h" and u: "unset 5 s" and al: "allocates al"
  shows "flow_ok p h0 6 (load_array data al nb (\<lambda>q s. s\<lparr>g2_values_monomial := q\<rparr>) s h off)"
  using u by (intro load_array_flow [OF b al]) (auto simp add: owned_def unset_def somes_Cons [of _ "_ # _"])

lemma load_wbits_flow:
  assumes b: "building p h0 s h" and u: "unset 0 s"
  shows "flow_ok p h0 0 (load_size_t p data (\<lambda>v s. s\<lparr>wbits := v\<rparr>) s h off)"
  using u by (intro load_size_t_flow [OF b]) (auto simp add: owned_def unset_def somes_Cons [of _ "_ # _"])

lemma load_scratch_size_flow:
  assumes b: "building p h0 s h" and u: "unset 0 s"
  shows "flow_ok p h0 0 (load_size_t p data (\<lambda>v s. s\<lparr>scratch_size := v\<rparr>) s h off)"
  using u by (intro load_size_t_flow [OF b]) (auto simp add: owned_def unset_def somes_Cons [of _ "_ # _"])

lemma load_table_size_flow:
  assumes b: "building p h0 s h" and u: "unset 0 s"
  shows "flow_ok p h0 0 (load_size_t p data (\<lambda>v s. s\<lparr>table_size := v\<rparr>) s h off)"
  using u by (intro load_size_t_flow [OF b]) (auto simp add: owned_def unset_def somes_Cons [of _ "_ # _"])

lemma run_steps_snoc: "run_steps (sts @ [st]) f = run_steps [st] (run_steps sts f)"
  by (induction sts f rule: run_steps.induct) simp_all

lemma flow_ok_step:
  assumes "flow_ok p h0 k f"
    and "\<And>s h off. building p h0 s h \<Longrightarrow> unset k s \<Longrightarrow> flow_ok p h0 k' (st s h off)"
  shows "flow_ok p h0 k' (run_steps [st] f)"
  using assms by (cases f) (simp_all add: flow_ok_def)

lemma building_init: "heap_ok h \<Longrightarrow> building p h init_settings h"
  by (auto simp add: building_def frame_def owned_def rowptrs_def array_ok_def init_settings_def
      heap_ok_def)

lemma allocates_new_array:
  "allocates (\<lambda>h. new_fr_array p h n)" "allocates (\<lambda>h. new_g1_array p h n)"
  "allocates (\<lambda>h. new_g2_array p h n)"
  unfolding new_fr_array_def new_g1_array_def new_g2_array_def by (rule allocates_calloc)+

lemma deserialize_steps_flow:
  assumes hk: "heap_ok h"
  shows "flow_ok p h 8 (run_steps (deserialize_steps p data) (Cont init_settings h off))"
proof -
  define t0 where "t0 = load_size_t p data (\<lambda>v s. s\<lparr>wbits := v\<rparr>)"
  define t1 where "t1 = load_size_t p data (\<lambda>v s. s\<lparr>scratch_size := v\<rparr>)"
  define t2 where "t2 = load_size_t p data (\<lambda>v s. s\<lparr>table_size := v\<rparr>)"
  define t3 where "t3 = load_array data (\<lambda>h. new_fr_array p h (FEPEB1 p)) (FEPEB1 p * sizeof_fr_t p)
        (\<lambda>q s. s\<lparr>roots_of_unity := q\<rparr>)"
  define t4 where "t4 = load_array data (\<lambda>h. new_fr_array p h (FEPEB0 p)) (FEPEB0 p * sizeof_fr_t p)
        (\<lambda>q s. s\<lparr>brp_roots_of_unity := q\<rparr>)"
  define t5 where "t5 = load_array data (\<lambda>h. new_fr_array p h (FEPEB1 p)) (FEPEB1 p * sizeof_fr_t p)
        (\<lambda>q s. s\<lparr>reverse_roots_of_unity := q\<rparr>)"
  define t6 where "t6 = load_array data (\<lambda>h. new_g1_array p h (NUM_G1_POINTS p))
        (NUM_G1_POINTS p * sizeof_g1_t p) (\<lambda>q s. s\<lparr>g1_values_monomial := q\<rparr>)"
  define t7 where "t7 = load_array data (\<lambda>h. new_g1_array p h (NUM_G1_POINTS p))
        (NUM_G1_POINTS p * sizeof_g1_t p) (\<lambda>q s. s\<lparr>g1_values_lagrange_brp := q\<rparr>)"
  define t8 where "t8 = load_array data (\<lambda>h. new_g2_array p h NUM_G2_POINTS)
        (NUM_G2_POINTS * sizeof_g2_t p) (\<lambda>q s. s\<lparr>g2_values_monomial := q\<rparr>)"
  define t9 where "t9 = load_columns p data"
  define t10 where "t10 = load_tables p data"
  note t = t0_def t1_def t2_def t3_def t4_def t5_def t6_def t7_def t8_def t9_def t10_def
  have st: "deserialize_steps p data
      = ((((((((((([] @ [t0]) @ [t1]) @ [t2]) @ [t3]) @ [t4]) @ [t5]) @ [t6]) @ [t7]) @ [t8])
          @ [t9]) @ [t10])"
    unfolding deserialize_steps_def t by simp
  define f0 where "f0 = Cont init_settings h off"
  define f1 where "f1 = run_steps [t0] f0"
  define f2 where "f2 = run_steps [t1] f1"
  define f3 where "f3 = run_steps [t2] f2"
  define f4 where "f4 = run_steps [t3] f3"
  define f5 where "f5 = run_steps [t4] f4"
  define f6 where "f6 = run_steps [t5] f5"
  define f7 where "f7 = run_steps [t6] f6"
  define f8 where "f8 = run_steps [t7] f7"
  define f9 where "f9 = run_steps [t8] f8"
  define f10 where "f10 = run_steps [t9] f9"
  define f11 where "f11 = run_steps [t10] f10"
  have k0: "flow_ok p h 0 f0"
    unfolding f0_def using building_init [OF hk] by (simp add: flow_ok_def unset_def init_settings_def)
  have k1: "flow_ok p h 0 f1"
    unfolding f1_def t0_def using k0 by (rule flow_ok_step) (rule load_wbits_flow)
  have k2: "flow_ok p h 0 f2"
    unfolding f2_def t1_def using k1 by (rule flow_ok_step) (rule load_scratch_size_flow)
  have k3: "flow_ok p h 0 f3"
    unfolding f3_def t2_def using k2 by (rule flow_ok_step) (rule load_table_size_flow)
  have k4: "flow_ok p h 1 f4"
    unfolding f4_def t3_def using k3
    by (rule flow_ok_step) (rule load_roots_flow, assumption, assumption, rule allocates_new_array)
  have k5: "flow_ok p h 2 f5"
    unfolding f5_def t4_def using k4
    by (rule flow_ok_step) (rule load_brp_roots_flow, assumption, assumption, rule allocates_new_array)
  have k6: "flow_ok p h 3 f6"
    unfolding f6_def t5_def using k5
    by (rule flow_ok_step)
      (rule load_reverse_roots_flow, assumption, assumption, rule allocates_new_array)
  have k7: "flow_ok p h 4 f7"
    unfolding f7_def t6_def using k6
    by (rule flow_ok_step) (rule load_g1_monomial_flow, assumption, assumption, rule allocates_new_array)
  have k8: "flow_ok p h 5 f8"
    unfolding f8_def t7_def using k7
    by (rule flow_ok_step) (rule load_g1_lagrange_flow, assumption, assumption, rule allocates_new_array)
  have k9: "flow_ok p h 6 f9"
    unfolding f9_def t8_def using k8
    by (rule flow_ok_step) (rule load_g2_monomial_flow, assumption, assumption, rule allocates_new_array)
  have k10: "flow_ok p h 7 f10"
    unfolding f10_def t9_def using k9 by (rule flow_ok_step) (rule load_columns_flow)
  have k11: "flow_ok p h 8 f11"
    unfolding f11_def t10_def using k10 by (rule flow_ok_step) (rule load_tables_flow)
  have "run_steps (deserialize_steps p data) (Cont init_settings h off) = f11"
    unfolding st f11_def f10_def f9_def f8_def f7_def f6_def f5_def f4_def f3_def f2_def f1_def f0_def
    by (simp only: run_steps_snoc run_steps.simps(1))
  with k11 show ?thesis by simp
qed

lemma free_settings_init: "free_settings p h init_settings = Some (init_settings, h)"
  by (simp add: free_settings_def init_settings_def c_kzg_free_def)

lemma ex_low_run:
  "\<exists>out h'. deserialize_settings ex_platform ex_low_heap (Some 0) 109 = Some (C_KZG_MALLOC, out, h')"
  by (simp add: deserialize_settings_def Let_def sizeof_header_t_def read_bytes_def ex_low_heap_def
      ex_buffer_def header_of_bytes_def KZG_MAGIC_def get_endianness_def get_wordsize_def
      ex_platform_def ENDIANNESS_LITTLE_def deserialize_steps_def load_size_t_def
      size_t_of_bytes_def le_value_def load_array_def new_fr_array_def new_g1_array_def
      new_g2_array_def c_kzg_calloc_def c_kzg_malloc_def c_kzg_calloc_ptrs_def alloc_block_def
      FEPEB1_def FEPEB0_def NUM_G1_POINTS_def NUM_G2_POINTS_def write_bytes_def
      load_columns_def load_tables_def load_rows.simps store_ptr_def load_ptr_def
      free_settings_def free_rows.simps c_kzg_free_def init_settings_def)

lemma ex_low_heap_ok: "heap_ok ex_low_heap"
  by (simp add: heap_ok_def ex_low_heap_def)

section \<open>Facts about the FFT kernels and their host\<close>

lemma butterfly_bounds:
  assumes s: "s < k" and g: "g < 2 ^ k div 2"
  shows "(g div 2 ^ s) * 2 ^ (s + 1) + g mod 2 ^ s + 2 ^ s < (2::nat) ^ k"
    and "(g mod 2 ^ s) * (2 ^ k div 2 ^ (s + 1)) < (2::nat) ^ k div 2"
    and "(2::nat) ^ k div 2 = 2 ^ (k - 1)" and "(2::nat) ^ k div 2 ^ (s + 1) = 2 ^ (k - 1 - s)"
proof -
  have k1: "k = Suc (k - 1)" using s by simp
  show h: "(2::nat) ^ k div 2 = 2 ^ (k - 1)" by (subst k1) simp
  have ks: "k = (s + 1) + (k - 1 - s)" using s by simp
  show st: "(2::nat) ^ k div 2 ^ (s + 1) = 2 ^ (k - 1 - s)"
    by (subst ks) (simp only: power_add nonzero_mult_div_cancel_left power_eq_0_iff, simp)
  have k2: "k - 1 = s + (k - 1 - s)" using s by simp
  have gk: "g < 2 ^ s * 2 ^ (k - 1 - s)" using g unfolding h by (subst (asm) k2) (simp only: power_add)
  then have B: "g div 2 ^ s < 2 ^ (k - 1 - s)"
    by (simp add: less_mult_imp_div_less mult.commute)
  have t: "g mod 2 ^ s < 2 ^ s" by simp
  from B have "g div 2 ^ s + 1 \<le> 2 ^ (k - 1 - s)" by simp
  then have "(g div 2 ^ s + 1) * 2 ^ (s + 1) \<le> 2 ^ (k - 1 - s) * 2 ^ (s + 1)"
    by (rule mult_le_mono1)
  also have "\<dots> = 2 ^ k" by (subst (2) ks) (simp only: power_add mult.commute)
  finally have le: "(g div 2 ^ s + 1) * 2 ^ (s + 1) \<le> 2 ^ k" .
  have "(g div 2 ^ s) * 2 ^ (s + 1) + g mod 2 ^ s + 2 ^ s < (g div 2 ^ s) * 2 ^ (s + 1) + 2 ^ s + 2 ^ s"
    using t by simp
  also have "\<dots> = (g div 2 ^ s + 1) * 2 ^ (s + 1)" by (simp add: algebra_simps)
  finally have "(g div 2 ^ s) * 2 ^ (s + 1) + g mod 2 ^ s + 2 ^ s < (g div 2 ^ s + 1) * 2 ^ (s + 1)" .
  then show "(g div 2 ^ s) * 2 ^ (s + 1) + g mod 2 ^ s + 2 ^ s < (2::nat) ^ k"
    using le by (rule less_le_trans)
  have "(g mod 2 ^ s) * 2 ^ (k - 1 - s) < 2 ^ s * 2 ^ (k - 1 - s)"
    using t by (simp only: mult_less_cancel2) simp
  also have "\<dots> = 2 ^ (k - 1)" by (subst (2) k2) (simp only: power_add)
  finally show "(g mod 2 ^ s) * (2 ^ k div 2 ^ (s + 1)) < (2::nat) ^ k div 2"
    unfolding st h .
qed

lemma unat_mult32: "unat a * unat b < 2 ^ 32 \<Longrightarrow> unat (a * b :: uint) = unat a * unat b"
  using unat_mult_lem [of a b] by simp

lemma unat_add32: "unat a + unat b < 2 ^ 32 \<Longrightarrow> unat (a + b :: uint) = unat a + unat b"
  using unat_add_lem [of a b] by simp

lemma unat_exp32: "s < 32 \<Longrightarrow> unat (push_bit s (1 :: uint)) = 2 ^ s"
proof -
  assume s: "s < 32"
  have "unat (push_bit s (1 :: uint)) = take_bit 32 (push_bit s (unat (1 :: uint)))"
    by (simp only: unsigned_push_bit_eq) simp
  also have "\<dots> = take_bit 32 ((2::nat) ^ s)" by (simp add: push_bit_eq_mult)
  also have "\<dots> = 2 ^ s" using pow_lt_32 [OF s] by (simp only: take_bit_nat_eq_self)
  finally show ?thesis .
qed

lemma stage_thread:
  assumes k: "k < 32" and n: "n = 2 ^ k" and s: "s < k" and g: "g < n div 2"
  shows "fft_radix2_stage ops roots (of_nat n) (of_nat s) (of_nat (n div 2)) (of_nat g) d
     = butterfly ops roots n s g d"
proof -
  have n32: "n < 2 ^ 32" using k n by (simp only: pow_lt_32)
  have s32: "s < 32" using s k by simp
  have s132: "s + 1 < 32" using s k by simp
  note bb = butterfly_bounds [OF s g [unfolded n]]
  have un: "unat (of_nat n :: uint) = n" using n32 by (rule unat_of_nat_uint)
  have uh: "unat (of_nat (n div 2) :: uint) = n div 2"
    using n32 by (intro unat_of_nat_uint) simp
  have ug: "unat (of_nat g :: uint) = g" using n32 g by (intro unat_of_nat_uint) simp
  have us: "unat (of_nat s :: uint) = s" using s32 by (intro unat_of_nat_uint) simp
  define half :: uint where "half = push_bit s 1"
  have uhalf: "unat half = 2 ^ s" unfolding half_def using s32 by (rule unat_exp32)
  have ublock: "unat (half * 2) = 2 ^ (s + 1)"
  proof -
    have "unat half * unat (2 :: uint) < 2 ^ 32" using pow_lt_32 [OF s132] by (simp add: uhalf)
    then have "unat (half * 2) = unat half * unat (2 :: uint)" by (rule unat_mult32)
    then show ?thesis by (simp add: uhalf)
  qed
  have unum: "unat ((of_nat n :: uint) div 2) = n div 2"
    by (simp add: unat_div un)
  have ubi: "unat ((of_nat g :: uint) div half) = g div 2 ^ s"
    by (simp add: unat_div ug uhalf)
  have uib: "unat ((of_nat g :: uint) mod half) = g mod 2 ^ s"
    by (simp add: unat_mod ug uhalf)
  define i where "i = (g div 2 ^ s) * 2 ^ (s + 1) + g mod 2 ^ s"
  have jn: "i + 2 ^ s < n" using bb(1) by (simp add: i_def n)
  have j32: "i + 2 ^ s < 2 ^ 32" using jn n32 by (rule less_trans)
  have i32: "i < 2 ^ 32" using j32 by (rule add_lessD1)
  have m1: "unat ((of_nat g :: uint) div half * (half * 2)) = (g div 2 ^ s) * 2 ^ (s + 1)"
  proof -
    have "(g div 2 ^ s) * 2 ^ (s + 1) \<le> i" by (simp only: i_def le_add1)
    then have "(g div 2 ^ s) * 2 ^ (s + 1) < 2 ^ 32" using i32 by (rule le_less_trans)
    then have "unat ((of_nat g :: uint) div half) * unat (half * 2) < 2 ^ 32"
      by (simp only: ubi ublock)
    then have "unat ((of_nat g :: uint) div half * (half * 2))
        = unat ((of_nat g :: uint) div half) * unat (half * 2)" by (rule unat_mult32)
    then show ?thesis by (simp only: ubi ublock)
  qed
  have ui: "unat ((of_nat g :: uint) div half * (half * 2) + of_nat g mod half) = i"
  proof -
    from i32 have "unat ((of_nat g :: uint) div half * (half * 2)) + unat ((of_nat g :: uint) mod half) < 2 ^ 32"
      by (simp only: m1 uib i_def)
    then have "unat ((of_nat g :: uint) div half * (half * 2) + of_nat g mod half)
        = unat ((of_nat g :: uint) div half * (half * 2)) + unat ((of_nat g :: uint) mod half)"
      by (rule unat_add32)
    then show ?thesis by (simp only: m1 uib i_def)
  qed
  have uj: "unat ((of_nat g :: uint) div half * (half * 2) + of_nat g mod half + half) = i + 2 ^ s"
  proof -
    from j32 have "unat ((of_nat g :: uint) div half * (half * 2) + of_nat g mod half) + unat half < 2 ^ 32"
      by (simp only: ui uhalf)
    then have "unat ((of_nat g :: uint) div half * (half * 2) + of_nat g mod half + half)
        = unat ((of_nat g :: uint) div half * (half * 2) + of_nat g mod half) + unat half"
      by (rule unat_add32)
    then show ?thesis by (simp only: ui uhalf)
  qed
  have ustr: "unat (drop_bit s (of_nat (n div 2) :: uint)) = n div 2 ^ (s + 1)"
  proof -
    have "unat (drop_bit s (of_nat (n div 2) :: uint)) = n div 2 div 2 ^ s"
      unfolding unat_drop_bit_eq uh by (simp only: drop_bit_eq_div)
    also have "\<dots> = n div 2 ^ (s + 1)" by (simp add: div_mult2_eq)
    finally show ?thesis .
  qed
  have uri: "unat ((of_nat g :: uint) mod half * drop_bit s (of_nat (n div 2)))
      = (g mod 2 ^ s) * (n div 2 ^ (s + 1))"
  proof -
    have "(g mod 2 ^ s) * (n div 2 ^ (s + 1)) < n div 2" using bb(2) by (simp only: n)
    also have "\<dots> \<le> n" by simp
    also note n32
    finally have "(g mod 2 ^ s) * (n div 2 ^ (s + 1)) < 2 ^ 32" .
    then have "unat ((of_nat g :: uint) mod half) * unat (drop_bit s (of_nat (n div 2) :: uint)) < 2 ^ 32"
      by (simp only: uib ustr)
    then have "unat ((of_nat g :: uint) mod half * drop_bit s (of_nat (n div 2)))
        = unat ((of_nat g :: uint) mod half) * unat (drop_bit s (of_nat (n div 2) :: uint))"
      by (rule unat_mult32)
    then show ?thesis by (simp only: uib ustr)
  qed
  have ng: "\<not> (of_nat g :: uint) \<ge> of_nat n div 2"
    using g by (simp add: word_le_nat_alt unum ug)
  show ?thesis
    unfolding fft_radix2_stage_def butterfly_def Let_def us
    unfolding half_def [symmetric]
    by (simp only: ng if_False ui uj uri i_def)
qed

lemma fold_pairs:
  fixes I J :: "nat \<Rightarrow> nat" and A S :: "nat \<Rightarrow> 'a \<Rightarrow> 'a \<Rightarrow> 'a"
  assumes dj: "\<And>g g'. g < G \<Longrightarrow> g' < G \<Longrightarrow> g \<noteq> g' \<Longrightarrow> I g \<noteq> I g' \<and> I g \<noteq> J g' \<and> J g \<noteq> J g'"
    and ne: "\<And>g. g < G \<Longrightarrow> I g \<noteq> J g"
    and bd: "\<And>g. g < G \<Longrightarrow> I g < length d \<and> J g < length d"
  defines "K \<equiv> (\<lambda>g d. d[I g := A g (d ! I g) (d ! J g), J g := S g (d ! I g) (d ! J g)])"
  shows "length (fold K [0..<G] d) = length d
    \<and> (\<forall>g<G. fold K [0..<G] d ! I g = A g (d ! I g) (d ! J g)
             \<and> fold K [0..<G] d ! J g = S g (d ! I g) (d ! J g))
    \<and> (\<forall>p. (\<forall>g<G. p \<noteq> I g \<and> p \<noteq> J g) \<longrightarrow> fold K [0..<G] d ! p = d ! p)"
  using dj ne bd
proof (induction G)
  case 0
  show ?case by simp
next
  case (Suc G)
  define cur where "cur = fold K [0..<G] d"
  have ih: "length cur = length d"
    "\<And>g. g < G \<Longrightarrow> cur ! I g = A g (d ! I g) (d ! J g) \<and> cur ! J g = S g (d ! I g) (d ! J g)"
    "\<And>p. (\<forall>g<G. p \<noteq> I g \<and> p \<noteq> J g) \<Longrightarrow> cur ! p = d ! p"
    using Suc.IH [OF Suc.prems(1) Suc.prems(2) Suc.prems(3)] unfolding cur_def by auto
  have st: "fold K [0..<Suc G] d = K G cur" by (simp add: cur_def)
  have bG: "I G < length cur" "J G < length cur" using Suc.prems(3) [of G] ih(1) by simp_all
  have nG: "I G \<noteq> J G" using Suc.prems(2) [of G] by simp
  have old: "I g \<noteq> I G \<and> I g \<noteq> J G \<and> J g \<noteq> J G \<and> J g \<noteq> I G" if "g < G" for g
    using Suc.prems(1) [of g G] Suc.prems(1) [of G g] that by auto
  have cI: "cur ! I G = d ! I G" using old by (intro ih(3)) metis
  have cJ: "cur ! J G = d ! J G" using old by (intro ih(3)) metis
  have len: "length (K G cur) = length d" by (simp add: K_def ih(1))
  have vI: "K G cur ! I G = A G (d ! I G) (d ! J G)"
    using bG nG by (simp add: K_def cI cJ)
  have vJ: "K G cur ! J G = S G (d ! I G) (d ! J G)"
    using bG nG by (simp add: K_def cI cJ)
  have vo: "K G cur ! p = cur ! p" if "p \<noteq> I G" "p \<noteq> J G" for p
    using that by (simp add: K_def)
  have r2: "K G cur ! I g = A g (d ! I g) (d ! J g) \<and> K G cur ! J g = S g (d ! I g) (d ! J g)"
    if "g < Suc G" for g
  proof (cases "g = G")
    case True
    then show ?thesis using vI vJ by simp
  next
    case False
    then have g: "g < G" using that by simp
    show ?thesis using old [OF g] ih(2) [OF g] by (simp add: vo)
  qed
  have r3: "K G cur ! p = d ! p" if "\<forall>g<Suc G. p \<noteq> I g \<and> p \<noteq> J g" for p
  proof -
    have "K G cur ! p = cur ! p" using that by (intro vo) simp_all
    also have "\<dots> = d ! p" using that by (intro ih(3)) simp
    finally show ?thesis .
  qed
  show ?case unfolding st using len r2 r3 by blast
qed

lemma pair_index:
  fixes H :: nat
  assumes H: "0 < H"
  shows "((g div H) * (2 * H) + g mod H) div (2 * H) = g div H"
    and "((g div H) * (2 * H) + g mod H) mod (2 * H) = g mod H"
    and "((g div H) * (2 * H) + g mod H + H) div (2 * H) = g div H"
    and "((g div H) * (2 * H) + g mod H + H) mod (2 * H) = g mod H + H"
proof -
  have t0: "g mod H < H" using H by simp
  have t: "g mod H < 2 * H" "g mod H + H < 2 * H" using t0 by linarith+
  show "((g div H) * (2 * H) + g mod H) div (2 * H) = g div H" using t(1) by simp
  show "((g div H) * (2 * H) + g mod H) mod (2 * H) = g mod H" using t(1) by simp
  have e: "(g div H) * (2 * H) + g mod H + H = (g div H) * (2 * H) + (g mod H + H)" by simp
  show "((g div H) * (2 * H) + g mod H + H) div (2 * H) = g div H" unfolding e using t(2) by simp
  show "((g div H) * (2 * H) + g mod H + H) mod (2 * H) = g mod H + H" unfolding e using t(2) by simp
qed

lemma pair_distinct:
  fixes H :: nat
  assumes H: "0 < H" and ne: "g \<noteq> g'"
  shows "(g div H) * (2 * H) + g mod H \<noteq> (g' div H) * (2 * H) + g' mod H"
    and "(g div H) * (2 * H) + g mod H \<noteq> (g' div H) * (2 * H) + g' mod H + H"
    and "(g div H) * (2 * H) + g mod H + H \<noteq> (g' div H) * (2 * H) + g' mod H + H"
proof -
  note p = pair_index [OF H]
  have dm: "g div H \<noteq> g' div H \<or> g mod H \<noteq> g' mod H"
    using ne by (metis div_mult_mod_eq)
  show "(g div H) * (2 * H) + g mod H \<noteq> (g' div H) * (2 * H) + g' mod H"
    using dm p(1,2) by metis
  show "(g div H) * (2 * H) + g mod H \<noteq> (g' div H) * (2 * H) + g' mod H + H"
  proof
    assume "(g div H) * (2 * H) + g mod H = (g' div H) * (2 * H) + g' mod H + H"
    then have "g mod H = g' mod H + H" using p(2) [of g] p(4) [of g'] by simp
    moreover have "g mod H < H" using H by simp
    ultimately show False by simp
  qed
  show "(g div H) * (2 * H) + g mod H + H \<noteq> (g' div H) * (2 * H) + g' mod H + H"
    using dm p(1,2) by (metis add_right_cancel)
qed

lemma dispatch_stage:
  fixes ops :: "'a field_ops" and roots d :: "'a list"
  assumes k: "k < 32" and n: "n = 2 ^ k" and s: "s < k" and len: "length d = n"
  defines "res \<equiv> dispatch (n div 2)
      (fft_radix2_stage ops roots (of_nat n) (of_nat s) (of_nat (n div 2))) d"
  shows "length res = n"
    and "\<And>g. g < n div 2 \<Longrightarrow>
          res ! ((g div 2 ^ s) * 2 ^ (s + 1) + g mod 2 ^ s)
            = add ops (d ! ((g div 2 ^ s) * 2 ^ (s + 1) + g mod 2 ^ s))
                (mul ops (roots ! ((g mod 2 ^ s) * (n div 2 ^ (s + 1))))
                   (d ! ((g div 2 ^ s) * 2 ^ (s + 1) + g mod 2 ^ s + 2 ^ s)))
          \<and> res ! ((g div 2 ^ s) * 2 ^ (s + 1) + g mod 2 ^ s + 2 ^ s)
            = sub ops (d ! ((g div 2 ^ s) * 2 ^ (s + 1) + g mod 2 ^ s))
                (mul ops (roots ! ((g mod 2 ^ s) * (n div 2 ^ (s + 1))))
                   (d ! ((g div 2 ^ s) * 2 ^ (s + 1) + g mod 2 ^ s + 2 ^ s)))"
proof -
  define H :: nat where "H = 2 ^ s"
  have H: "0 < H" by (simp add: H_def)
  have H2: "2 ^ (s + 1) = 2 * H" by (simp add: H_def)
  define I where "I = (\<lambda>g. (g div H) * (2 * H) + g mod H)"
  define J where "J = (\<lambda>g. (g div H) * (2 * H) + g mod H + H)"
  define W where "W = (\<lambda>g. roots ! ((g mod H) * (n div (2 * H))))"
  define A where "A = (\<lambda>g a b. add ops a (mul ops (W g) b))"
  define S where "S = (\<lambda>g a b. sub ops a (mul ops (W g) b))"
  define K where "K = (\<lambda>g d. d[I g := A g (d ! I g) (d ! J g), J g := S g (d ! I g) (d ! J g)])"
  have bt: "butterfly ops roots n s g x = K g x" for g x
    by (simp add: butterfly_def K_def I_def J_def A_def S_def W_def Let_def H2 H_def [symmetric])
  have "res = fold (\<lambda>g. fft_radix2_stage ops roots (of_nat n) (of_nat s) (of_nat (n div 2)) (of_nat g))
      [0..<n div 2] d"
    by (simp add: res_def dispatch_def)
  also have "\<dots> = fold K [0..<n div 2] d"
  proof (rule fold_cong [OF refl refl])
    fix g assume "g \<in> set [0..<n div 2]"
    then have g: "g < n div 2" by simp
    show "fft_radix2_stage ops roots (of_nat n) (of_nat s) (of_nat (n div 2)) (of_nat g) = K g"
      by (rule ext) (simp only: stage_thread [OF k n s g] bt)
  qed
  finally have res: "res = fold K [0..<n div 2] d" .
  have bd: "I g < length d \<and> J g < length d" if "g < n div 2" for g
  proof -
    have "J g < n" using butterfly_bounds(1) [OF s that [unfolded n]]
      by (simp add: J_def H2 H_def n)
    moreover have "I g \<le> J g" by (simp add: I_def J_def)
    ultimately show ?thesis using len by simp
  qed
  have dj: "I g \<noteq> I g' \<and> I g \<noteq> J g' \<and> J g \<noteq> J g'" if "g \<noteq> g'" for g g'
    unfolding I_def J_def using pair_distinct [OF H that] by blast
  have ne: "I g \<noteq> J g" for g using H by (simp add: I_def J_def)
  note f = fold_pairs [of "n div 2" I J d A S, OF dj ne bd, folded K_def, folded res]
  show "length res = n" using f len by simp
  fix g assume g: "g < n div 2"
  from f g have "res ! I g = A g (d ! I g) (d ! J g) \<and> res ! J g = S g (d ! I g) (d ! J g)"
    by blast
  then show "res ! ((g div 2 ^ s) * 2 ^ (s + 1) + g mod 2 ^ s)
            = add ops (d ! ((g div 2 ^ s) * 2 ^ (s + 1) + g mod 2 ^ s))
                (mul ops (roots ! ((g mod 2 ^ s) * (n div 2 ^ (s + 1))))
                   (d ! ((g div 2 ^ s) * 2 ^ (s + 1) + g mod 2 ^ s + 2 ^ s)))
          \<and> res ! ((g div 2 ^ s) * 2 ^ (s + 1) + g mod 2 ^ s + 2 ^ s)
            = sub ops (d ! ((g div 2 ^ s) * 2 ^ (s + 1) + g mod 2 ^ s))
                (mul ops (roots ! ((g mod 2 ^ s) * (n div 2 ^ (s + 1))))
                   (d ! ((g div 2 ^ s) * 2 ^ (s + 1) + g mod 2 ^ s + 2 ^ s)))"
    unfolding I_def J_def A_def S_def W_def H2 H_def [symmetric] .
qed

lemma reverse_bits_double:
  assumes m: "m < 32" and q: "Q < 2 ^ m"
  shows "reverse_bits (2 * Q) (m + 1) = reverse_bits Q m"
    and "reverse_bits (2 * Q + 1) (m + 1) = 2 ^ m + reverse_bits Q m"
proof -
  have m1: "m + 1 \<le> 32" and m0: "m \<le> 32" using m by simp_all
  have hi: "\<not> bit Q j" if "m \<le> j" for j
  proof -
    have "Q < 2 ^ j" using q that by (meson less_le_trans one_le_numeral power_increasing)
    then show ?thesis by (simp add: bit_iff_odd)
  qed
  have e: "bit (2 * Q) i = (i \<noteq> 0 \<and> bit Q (i - 1))" for i
    by (cases i) (simp_all add: bit_Suc bit_0)
  have o: "bit (2 * Q + 1) i = (i = 0 \<or> bit Q (i - 1))" for i
    by (cases i) (simp_all add: bit_Suc bit_0)
  have b1: "bit (reverse_bits x (m + 1)) j = (j < m + 1 \<and> bit x (m - j))" for x j
    using reverse_bits_bit [OF m1, of x j] by simp
  have b0: "bit (reverse_bits Q m) j = (j < m \<and> bit Q (m - 1 - j))" for j
    by (rule reverse_bits_bit [OF m0])
  show "reverse_bits (2 * Q) (m + 1) = reverse_bits Q m"
  proof (rule bit_eqI)
    fix j
    show "bit (reverse_bits (2 * Q) (m + 1)) j = bit (reverse_bits Q m) j"
      unfolding b1 b0 e by (cases "j < m") auto
  qed
  have lt: "reverse_bits Q m < 2 ^ m" using m0 by (rule reverse_bits_less)
  show "reverse_bits (2 * Q + 1) (m + 1) = 2 ^ m + reverse_bits Q m"
  proof (rule bit_eqI)
    fix j
    have r: "bit (2 ^ m + reverse_bits Q m) j = (j = m \<or> bit (reverse_bits Q m) j)"
    proof -
      have "bit (reverse_bits Q m + 2 ^ m) j
          = (bit (reverse_bits Q m) j \<or> bit ((2::nat) ^ m) j)"
        by (rule bit_disjunctive_add_iff) (auto simp add: bit_exp_iff b0)
      then show ?thesis by (auto simp add: bit_exp_iff add.commute)
    qed
    show "bit (reverse_bits (2 * Q + 1) (m + 1)) j = bit (2 ^ m + reverse_bits Q m) j"
      unfolding r b1 b0 o using hi [of "m - 1 - j"] by (cases "j < m") auto
  qed
qed

lemma staged_step:
  fixes ops :: "'a field_ops" and roots d x :: "'a list"
  assumes k: "k < 32" and n: "n = 2 ^ k" and s: "s < k" and st: "staged ops roots n k x s d"
  shows "staged ops roots n k x (Suc s)
     (dispatch (n div 2) (fft_radix2_stage ops roots (of_nat n) (of_nat s) (of_nat (n div 2))) d)"
proof -
  define res where "res = dispatch (n div 2)
      (fft_radix2_stage ops roots (of_nat n) (of_nat s) (of_nat (n div 2))) d"
  define m where "m = k - Suc s"
  have ks: "k - s = m + 1" using s by (simp add: m_def)
  have m32: "m < 32" using k by (simp add: m_def)
  from st have len: "length d = n"
    and inv: "\<And>Q t. Q < 2 ^ (m + 1) \<Longrightarrow> t < 2 ^ s \<Longrightarrow>
           d ! (Q * 2 ^ s + t)
             = dit ops roots n s (\<lambda>v. x ! (v * 2 ^ (m + 1) + reverse_bits Q (m + 1))) t"
    by (simp_all add: staged_def ks)
  note ds = dispatch_stage [OF k n s len, where ops = ops and roots = roots, folded res_def]
  have half: "n div 2 = 2 ^ s * 2 ^ m"
  proof -
    have "k = Suc (s + m)" using s by (simp add: m_def)
    then show ?thesis by (simp add: n power_add)
  qed
  have main: "res ! (Q * 2 ^ Suc s + t)
      = dit ops roots n (Suc s) (\<lambda>v. x ! (v * 2 ^ m + reverse_bits Q m)) t"
    if Q: "Q < 2 ^ m" and t: "t < 2 ^ Suc s" for Q t
  proof -
    define u where "u = t mod 2 ^ s"
    have u: "u < 2 ^ s" by (simp add: u_def)
    define g where "g = Q * 2 ^ s + u"
    have gd: "g div 2 ^ s = Q" and gm: "g mod 2 ^ s = u" using u by (simp_all add: g_def)
    have "g < Q * 2 ^ s + 2 ^ s" using u by (simp add: g_def)
    also have "\<dots> = (Q + 1) * 2 ^ s" by simp
    also have "\<dots> \<le> 2 ^ m * 2 ^ s" using Q by (intro mult_le_mono1) simp
    finally have g: "g < n div 2" by (simp add: half mult.commute)
    note b = ds(2) [OF g, unfolded gd gm]
    have q2: "2 * Q < 2 ^ (m + 1)" "2 * Q + 1 < 2 ^ (m + 1)" using Q by simp_all
    have ia: "Q * 2 ^ (s + 1) + u = (2 * Q) * 2 ^ s + u" by simp
    have ib: "Q * 2 ^ (s + 1) + u + 2 ^ s = (2 * Q + 1) * 2 ^ s + u" by simp
    note rv = reverse_bits_double [OF m32 Q]
    define z where "z = (\<lambda>v. x ! (v * 2 ^ m + reverse_bits Q m))"
    define A where "A = dit ops roots n s (\<lambda>v. z (2 * v)) u"
    define B where "B = dit ops roots n s (\<lambda>v. z (2 * v + 1)) u"
    define w where "w = roots ! (u * (n div 2 ^ (s + 1)))"
    have fa: "(\<lambda>v. x ! (v * 2 ^ (m + 1) + reverse_bits Q m)) = (\<lambda>v. z (2 * v))"
      by (rule ext) (simp add: z_def mult.assoc mult.left_commute)
    have fb: "(\<lambda>v. x ! (v * 2 ^ (m + 1) + (2 ^ m + reverse_bits Q m))) = (\<lambda>v. z (2 * v + 1))"
      by (rule ext) (simp add: z_def algebra_simps)
    have va: "d ! (Q * 2 ^ (s + 1) + u) = A"
      unfolding ia inv [OF q2(1) u] rv(1) fa A_def ..
    have vb: "d ! (Q * 2 ^ (s + 1) + u + 2 ^ s) = B"
      unfolding ib inv [OF q2(2) u] rv(2) fb B_def ..
    have tgt: "dit ops roots n (Suc s) z t
        = (if t < 2 ^ s then add ops A (mul ops w B) else sub ops A (mul ops w B))"
      by (simp add: Let_def A_def B_def w_def u_def)
    have r1: "res ! (Q * 2 ^ (s + 1) + u) = add ops A (mul ops w B)"
      using b [THEN conjunct1] unfolding va vb w_def .
    have r2: "res ! (Q * 2 ^ (s + 1) + u + 2 ^ s) = sub ops A (mul ops w B)"
      using b [THEN conjunct2] unfolding va vb w_def .
    show ?thesis
    proof (cases "t < 2 ^ s")
      case True
      then have tu: "t = u" by (simp add: u_def)
      have "res ! (Q * 2 ^ Suc s + t) = res ! (Q * 2 ^ (s + 1) + u)" by (simp add: tu)
      also note r1
      finally show ?thesis unfolding z_def [symmetric] tgt using True by simp
    next
      case False
      have "t - 2 ^ s < 2 ^ s" using t False by simp
      then have "(t - 2 ^ s) mod 2 ^ s = t - 2 ^ s" by simp
      moreover have "t mod 2 ^ s = (t - 2 ^ s) mod 2 ^ s"
        using False by (simp add: le_mod_geq)
      ultimately have tu: "t = u + 2 ^ s"
        using False by (simp add: u_def)
      have "res ! (Q * 2 ^ Suc s + t) = res ! (Q * 2 ^ (s + 1) + u + 2 ^ s)"
        by (simp add: tu add.assoc)
      also note r2
      finally show ?thesis unfolding z_def [symmetric] tgt using False by simp
    qed
  qed
  have "k - Suc s = m" by (simp add: m_def)
  then show ?thesis
    unfolding res_def [symmetric] staged_def using ds(1) main by simp
qed

lemma staged_start:
  assumes k: "k < 32" and n: "n = 2 ^ k" and len: "length x = n"
  shows "staged ops roots n k x 0 (dispatch n (bit_reversal (of_nat n) (of_nat k)) x)"
  using dispatch_bit_reversal [OF k n len] by (simp add: staged_def n)

lemma word_of_nat_less32:
  "s < k \<Longrightarrow> k < 32 \<Longrightarrow> (of_nat s :: uint) < of_nat k"
proof -
  assume a: "s < k" "k < 32"
  have "k < 2 ^ 32" "s < 2 ^ 32" using a by simp_all
  then show ?thesis using a(1) by (simp add: word_less_nat_alt unat_of_nat_uint)
qed

lemma fft_stages_staged:
  fixes ops :: "'a field_ops" and roots d x :: "'a list"
  assumes k: "k < 32" and n: "n = 2 ^ k" and s: "s \<le> k" and st: "staged ops roots n k x s d"
  shows "staged ops roots n k x k (fft_stages ops roots n (of_nat k) (of_nat s) d)"
  using s st
proof (induction "k - s" arbitrary: s d)
  case 0
  then have "s = k" by simp
  then show ?case using 0(3) by (subst fft_stages.simps) simp
next
  case (Suc m)
  then have s: "s < k" by simp
  have lt: "(of_nat s :: uint) < of_nat k" using s k by (rule word_of_nat_less32)
  have nx: "(of_nat s :: uint) + 1 = of_nat (Suc s)" by simp
  have step: "fft_stages ops roots n (of_nat k) (of_nat s) d
      = fft_stages ops roots n (of_nat k) (of_nat (Suc s))
          (dispatch (n div 2) (fft_radix2_stage ops roots (of_nat n) (of_nat s) (of_nat (n div 2))) d)"
    by (subst fft_stages.simps) (simp only: lt if_True nx)
  have m: "m = k - Suc s" using Suc.hyps(2) by simp
  have le: "Suc s \<le> k" using s by simp
  show ?case
    unfolding step using m le staged_step [OF k n s Suc.prems(2)] by (rule Suc.hyps(1))
qed

lemma log2_uint_loop_exp:
  "k < 32 \<Longrightarrow> log2_uint_loop (2 ^ k) r = r + of_nat k"
proof (induction k arbitrary: r)
  case 0
  show ?case by (subst log2_uint_loop.simps) simp
next
  case (Suc k)
  have k32: "Suc k < 32" using Suc.prems .
  have u: "unat ((2 :: uint) ^ Suc k) = 2 ^ Suc k"
    using unat_exp32 [OF k32] by (simp add: push_bit_eq_mult)
  have "(1::nat) < 2 ^ Suc k" by (rule one_less_power) simp_all
  then have gt: "(2 :: uint) ^ Suc k > 1" unfolding word_less_nat_alt u by simp
  have u0: "unat ((2 :: uint) ^ k) = 2 ^ k"
    using unat_exp32 [of k] k32 by (simp add: push_bit_eq_mult)
  have dr: "drop_bit 1 ((2 :: uint) ^ Suc k) = 2 ^ k"
  proof -
    have "unat (drop_bit 1 ((2 :: uint) ^ Suc k)) = drop_bit 1 ((2::nat) ^ Suc k)"
      unfolding unat_drop_bit_eq u ..
    also have "\<dots> = 2 ^ k" by (simp add: drop_bit_eq_div)
    finally have "unat (drop_bit 1 ((2 :: uint) ^ Suc k)) = unat ((2 :: uint) ^ k)"
      by (simp only: u0)
    then show ?thesis by (simp only: word_unat_eq_iff)
  qed
  have "log2_uint_loop (2 ^ Suc k) r = log2_uint_loop (2 ^ k) (r + 1)"
    by (subst log2_uint_loop.simps) (simp only: gt if_True dr)
  also have "\<dots> = r + 1 + of_nat k" using Suc.prems by (intro Suc.IH) simp
  finally show ?case by simp
qed

lemma log2_uint_exp: "k < 32 \<Longrightarrow> log2_uint (of_nat (2 ^ k)) = of_nat k"
  using log2_uint_loop_exp [of k 0] by (simp add: log2_uint_def)

lemma dispatch_scale:
  fixes ops :: "'a field_ops" and d :: "'a list"
  assumes n32: "n < 2 ^ 32" and len: "length d = n"
  shows "dispatch n (scale_elements ops c (of_nat n)) d = map (\<lambda>a. mul ops a c) d"
proof -
  have un: "unat (of_nat n :: uint) = n" using n32 by (rule unat_of_nat_uint)
  have th: "scale_elements ops c (of_nat n) (of_nat g) y = y[g := mul ops (y ! g) c]"
    if "g < n" for g and y :: "'a list"
  proof -
    have ug: "unat (of_nat g :: uint) = g" using n32 that by (intro unat_of_nat_uint) simp
    have "\<not> (of_nat g :: uint) \<ge> of_nat n" using that by (simp add: word_le_nat_alt un ug)
    then show ?thesis by (simp add: scale_elements_def ug)
  qed
  have f: "g \<le> n \<Longrightarrow> fold (\<lambda>g. scale_elements ops c (of_nat n) (of_nat g)) [0..<g] d
      = map (\<lambda>a. mul ops a c) (take g d) @ drop g d" for g
  proof (induction g)
    case 0
    show ?case by simp
  next
    case (Suc g)
    then have g: "g < n" by simp
    have gl: "g < length d" using g len by simp
    have "fold (\<lambda>g. scale_elements ops c (of_nat n) (of_nat g)) [0..<Suc g] d
        = (map (\<lambda>a. mul ops a c) (take g d) @ drop g d)[g := mul ops (d ! g) c]"
      using Suc.IH g gl by (simp add: th nth_append)
    also have "\<dots> = map (\<lambda>a. mul ops a c) (take g d) @ (drop g d)[0 := mul ops (d ! g) c]"
      using gl by (simp add: list_update_append)
    also have "(drop g d)[0 := mul ops (d ! g) c] = mul ops (d ! g) c # drop (Suc g) d"
      using gl by (simp add: Cons_nth_drop_Suc [symmetric])
    also have "map (\<lambda>a. mul ops a c) (take g d) @ mul ops (d ! g) c # drop (Suc g) d
        = map (\<lambda>a. mul ops a c) (take (Suc g) d) @ drop (Suc g) d"
      using gl by (simp add: take_Suc_conv_app_nth)
    finally show ?case .
  qed
  show ?thesis using f [of n] len by (simp add: dispatch_def)
qed

lemma forward_commands:
  fixes ops :: "'a field_ops" and roots x :: "'a list"
  assumes k: "k < 32" and n: "n = 2 ^ k" and len: "length x = n"
  shows "metal_fft_commands ops roots n False x
     = map (dit ops roots n k (\<lambda>v. x ! v)) [0..<n]"
    and "metal_fft_commands ops roots n True x
     = map (\<lambda>t. mul ops (dit ops roots n k (\<lambda>v. x ! v) t) (inv_of_n ops n)) [0..<n]"
proof -
  define d where "d = fft_stages ops roots n (of_nat k) 0
      (dispatch n (bit_reversal (of_nat n) (of_nat k)) x)"
  have "staged ops roots n k x k d"
    unfolding d_def
    using fft_stages_staged [OF k n _ staged_start [OF k n len], of ops roots] by simp
  then have dl: "length d = n" and dv: "\<And>t. t < n \<Longrightarrow> d ! t = dit ops roots n k (\<lambda>v. x ! v) t"
    using reverse_bits_less [of 0 0] by (simp_all add: staged_def n)
  have de: "d = map (dit ops roots n k (\<lambda>v. x ! v)) [0..<n]"
    by (rule nth_equalityI) (simp_all add: dl dv)
  have lg: "log2_uint (of_nat n) = of_nat k" unfolding n using k by (rule log2_uint_exp)
  show "metal_fft_commands ops roots n False x = map (dit ops roots n k (\<lambda>v. x ! v)) [0..<n]"
    by (simp add: metal_fft_commands_def lg Let_def d_def [symmetric] de)
  have n32: "n < 2 ^ 32" using k n by (simp only: pow_lt_32)
  show "metal_fft_commands ops roots n True x
     = map (\<lambda>t. mul ops (dit ops roots n k (\<lambda>v. x ! v) t) (inv_of_n ops n)) [0..<n]"
    by (simp add: metal_fft_commands_def lg Let_def d_def [symmetric] dispatch_scale [OF n32 dl])
      (simp add: de)
qed

lemma sum_even_odd:
  fixes f :: "nat \<Rightarrow> 'a :: comm_monoid_add"
  shows "(\<Sum>w<2 * m. f w) = (\<Sum>v<m. f (2 * v)) + (\<Sum>v<m. f (2 * v + 1))"
proof (induction m)
  case 0
  show ?case by simp
next
  case (Suc m)
  have "(\<Sum>w<2 * Suc m. f w) = (\<Sum>w<2 * m. f w) + f (2 * m) + f (2 * m + 1)"
    by (simp add: add.assoc)
  then show ?case by (simp add: Suc.IH add.assoc add.left_commute)
qed

lemma dit_exact:
  fixes w :: "'a :: comm_ring_1"
  assumes n: "n = 2 ^ k" and rt: "\<And>i. i < n div 2 \<Longrightarrow> roots ! i = w ^ i"
    and h: "w ^ (n div 2) = - 1"
  shows "s \<le> k \<Longrightarrow> t < 2 ^ s \<Longrightarrow>
     dit (exact_ops c) roots n s y t = (\<Sum>v<2 ^ s. y v * w ^ (2 ^ (k - s) * v * t))"
proof (induction s arbitrary: y t)
  case 0
  then show ?case by simp
next
  case (Suc s)
  define u where "u = t mod 2 ^ s"
  define H :: nat where "H = 2 ^ s"
  define M :: nat where "M = 2 ^ (k - Suc s)"
  have sk: "s < k" using Suc.prems(1) by simp
  have u: "u < 2 ^ s" by (simp add: u_def)
  have ks: "k - s = Suc (k - Suc s)" using sk by simp
  have M2: "2 ^ (k - s) = 2 * M" by (simp add: ks M_def)
  have kd: "k = Suc s + (k - Suc s)" using sk by simp
  have nM: "n = 2 * H * M" by (subst n, subst kd) (simp add: power_add H_def M_def)
  have half: "n div 2 = H * M" by (simp add: nM)
  have st: "n div 2 ^ Suc s = M" by (simp add: nM H_def)
  have wn: "w ^ n = 1"
  proof -
    have "n = n div 2 + n div 2" by (simp add: nM)
    then have "w ^ n = w ^ (n div 2) * w ^ (n div 2)" by (metis power_add)
    then show ?thesis by (simp add: h)
  qed
  have idx: "u * M < n div 2" unfolding half using u by (simp add: H_def M_def)
  have rw: "roots ! (u * M) = w ^ (u * M)" using idx by (rule rt)
  have sl: "s \<le> k" using sk by simp
  have a: "dit (exact_ops c) roots n s (\<lambda>v. y (2 * v)) u = (\<Sum>v<H. y (2 * v) * w ^ (2 * M * v * u))"
    using Suc.IH [OF sl u] by (simp add: M2 H_def)
  have b: "dit (exact_ops c) roots n s (\<lambda>v. y (2 * v + 1)) u
      = (\<Sum>v<H. y (2 * v + 1) * w ^ (2 * M * v * u))"
    using Suc.IH [OF sl u] by (simp add: M2 H_def)
  have lhs: "dit (exact_ops c) roots n (Suc s) y t
      = (if t < H then (\<Sum>v<H. y (2 * v) * w ^ (2 * M * v * u))
                        + w ^ (u * M) * (\<Sum>v<H. y (2 * v + 1) * w ^ (2 * M * v * u))
         else (\<Sum>v<H. y (2 * v) * w ^ (2 * M * v * u))
                        - w ^ (u * M) * (\<Sum>v<H. y (2 * v + 1) * w ^ (2 * M * v * u)))"
    unfolding dit.simps Let_def u_def [symmetric] a b st rw
    by (simp add: exact_ops_def H_def)
  have rhs: "(\<Sum>v<2 ^ Suc s. y v * w ^ (2 ^ (k - Suc s) * v * t))
      = (\<Sum>v<H. y (2 * v) * w ^ (M * (2 * v) * t)) + (\<Sum>v<H. y (2 * v + 1) * w ^ (M * (2 * v + 1) * t))"
    using sum_even_odd [of "\<lambda>v. y v * w ^ (M * v * t)" H] by (simp add: H_def M_def)
  show ?case
  proof (cases "t < H")
    case True
    then have tu: "t = u" by (simp add: u_def H_def)
    have e1: "w ^ (M * (2 * v) * t) = w ^ (2 * M * v * u)" for v
      by (simp add: tu mult.assoc mult.left_commute)
    have e2: "w ^ (M * (2 * v + 1) * t) = w ^ (u * M) * w ^ (2 * M * v * u)" for v
    proof -
      have "M * (2 * v + 1) * t = u * M + 2 * M * v * u" by (simp add: tu algebra_simps)
      then show ?thesis by (simp only: power_add)
    qed
    have "(\<Sum>v<H. y (2 * v) * w ^ (M * (2 * v) * t)) + (\<Sum>v<H. y (2 * v + 1) * w ^ (M * (2 * v + 1) * t))
        = (\<Sum>v<H. y (2 * v) * w ^ (2 * M * v * u))
          + w ^ (u * M) * (\<Sum>v<H. y (2 * v + 1) * w ^ (2 * M * v * u))"
      unfolding e1 e2 by (simp add: sum_distrib_left mult.assoc mult.left_commute)
    then show ?thesis
      unfolding lhs rhs using True by (simp only: if_True)
  next
    case False
    have "t - H < H" using Suc.prems(2) False by (simp add: H_def)
    then have "(t - H) mod H = t - H" by simp
    moreover have "t mod H = (t - H) mod H" using False by (simp add: le_mod_geq)
    ultimately have tu: "t = u + H" using False by (simp add: u_def H_def)
    have e1: "w ^ (M * (2 * v) * t) = w ^ (2 * M * v * u)" for v
    proof -
      have "M * (2 * v) * t = 2 * M * v * u + n * v" by (simp add: tu nM algebra_simps)
      then have "w ^ (M * (2 * v) * t) = w ^ (2 * M * v * u) * (w ^ n) ^ v"
        by (simp only: power_add power_mult)
      then show ?thesis by (simp add: wn)
    qed
    have e2: "w ^ (M * (2 * v + 1) * t) = - (w ^ (u * M) * w ^ (2 * M * v * u))" for v
    proof -
      have "M * (2 * v + 1) * t = u * M + 2 * M * v * u + n * v + n div 2"
        by (simp add: tu nM algebra_simps)
      then have "w ^ (M * (2 * v + 1) * t)
          = w ^ (u * M) * w ^ (2 * M * v * u) * (w ^ n) ^ v * w ^ (n div 2)"
        by (simp only: power_add power_mult)
      then show ?thesis by (simp add: wn h)
    qed
    have "(\<Sum>v<H. y (2 * v) * w ^ (M * (2 * v) * t)) + (\<Sum>v<H. y (2 * v + 1) * w ^ (M * (2 * v + 1) * t))
        = (\<Sum>v<H. y (2 * v) * w ^ (2 * M * v * u))
          - w ^ (u * M) * (\<Sum>v<H. y (2 * v + 1) * w ^ (2 * M * v * u))"
      unfolding e1 e2 by (simp add: sum_distrib_left sum_negf mult.assoc mult.left_commute)
    then show ?thesis
      unfolding lhs rhs using False by (simp only: if_False)
  qed
qed

lemma forward_exact:
  fixes w :: "'a :: comm_ring_1"
  assumes k: "k < 32" and n: "n = 2 ^ k" and len: "length x = n"
    and rt: "\<And>i. i < n div 2 \<Longrightarrow> roots ! i = w ^ i" and h: "w ^ (n div 2) = - 1"
  shows "metal_fft_commands (exact_ops c) roots n False x = map (dft w n (\<lambda>v. x ! v)) [0..<n]"
    and "metal_fft_commands (exact_ops c) roots n True x
           = map (\<lambda>t. dft w n (\<lambda>v. x ! v) t * c n) [0..<n]"
proof -
  have d: "dit (exact_ops c) roots n k (\<lambda>v. x ! v) t = dft w n (\<lambda>v. x ! v) t" if "t < n" for t
    using dit_exact [OF n rt h, of k t c "\<lambda>v. x ! v"] that by (simp add: n dft_def)
  show "metal_fft_commands (exact_ops c) roots n False x = map (dft w n (\<lambda>v. x ! v)) [0..<n]"
    unfolding forward_commands(1) [OF k n len] using d by simp
  show "metal_fft_commands (exact_ops c) roots n True x
           = map (\<lambda>t. dft w n (\<lambda>v. x ! v) t * c n) [0..<n]"
    unfolding forward_commands(2) [OF k n len] using d by (simp add: exact_ops_def)
qed

lemma sum_split_add:
  fixes g :: "nat \<Rightarrow> 'a :: comm_monoid_add"
  shows "(\<Sum>t<a + b. g t) = (\<Sum>t<a. g t) + (\<Sum>t<b. g (a + t))"
  by (induction b) (simp_all add: add.assoc)

lemma sum_blocks:
  fixes g :: "nat \<Rightarrow> 'a :: comm_monoid_add"
  shows "(\<Sum>t<a * b. g t) = (\<Sum>j<a. \<Sum>t<b. g (j * b + t))"
proof (induction a)
  case 0
  show ?case by simp
next
  case (Suc a)
  have "(\<Sum>t<Suc a * b. g t) = (\<Sum>t<a * b + b. g t)" by (simp add: add.commute)
  also have "\<dots> = (\<Sum>t<a * b. g t) + (\<Sum>t<b. g (a * b + t))" by (rule sum_split_add)
  finally show ?case by (simp add: Suc.IH)
qed

lemma two_adic: "0 < d \<Longrightarrow> \<exists>e m. d = 2 ^ e * m \<and> odd m" for d :: nat
proof (induction d rule: less_induct)
  case (less d)
  show ?case
  proof (cases "odd d")
    case True
    then have "d = 2 ^ 0 * d \<and> odd d" by simp
    then show ?thesis by blast
  next
    case False
    then obtain c where c: "d = 2 * c" by (auto elim: evenE)
    with less.prems have "c < d" "0 < c" by simp_all
    from less.IH [OF this] obtain e m where "c = 2 ^ e * m" "odd m" by blast
    then have "d = 2 ^ Suc e * m \<and> odd m" using c by simp
    then show ?thesis by blast
  qed
qed

lemma roots_orthogonal:
  fixes z :: "'a :: comm_ring_1"
  assumes n: "n = 2 ^ k" and h: "z ^ (n div 2) = - 1" and d: "0 < d" "d < n"
  shows "(\<Sum>t<n. z ^ (d * t)) = 0"
proof -
  from two_adic [OF d(1)] obtain e m where dm: "d = 2 ^ e * m" and m: "odd m" by blast
  have "(2::nat) ^ e \<le> d" using m by (simp add: dm) (metis dm d(1) mult_eq_0_iff not_gr_zero Suc_leI One_nat_def)
  then have "(2::nat) ^ e < 2 ^ k" using d(2) unfolding n by (rule le_less_trans)
  then have ek: "e < k" by simp
  define P :: nat where "P = 2 ^ (k - 1 - e)"
  have kd: "k = e + Suc (k - 1 - e)" using ek by simp
  have nP: "n = 2 ^ e * (P + P)" by (subst n, subst kd) (simp add: power_add P_def)
  have "n = 2 * (2 ^ e * P)" by (simp add: nP algebra_simps)
  then have half: "n div 2 = 2 ^ e * P" by simp
  have dP: "d * P = m * (n div 2)" by (simp add: dm half)
  have zP: "z ^ (d * P) = - 1"
  proof -
    have "z ^ (d * P) = (z ^ (n div 2)) ^ m" by (simp only: dP mult.commute [of m] power_mult)
    also have "\<dots> = (- 1) ^ m" by (simp only: h)
    also have "\<dots> = - 1" using m by simp
    finally show ?thesis .
  qed
  have neg: "z ^ (d * (c + (P + t))) = - (z ^ (d * (c + t)))" for c t
  proof -
    have "d * (c + (P + t)) = d * (c + t) + d * P" by (simp add: algebra_simps)
    then show ?thesis by (simp only: power_add zP) simp
  qed
  have blk: "(\<Sum>t<P + P. z ^ (d * (c + t))) = 0" for c
    unfolding sum_split_add neg by (simp add: sum_negf)
  have "(\<Sum>t<n. z ^ (d * t)) = (\<Sum>j<2 ^ e. \<Sum>t<P + P. z ^ (d * (j * (P + P) + t)))"
    unfolding nP by (rule sum_blocks)
  also have "\<dots> = 0" by (simp only: blk sum.neutral_const)
  finally show ?thesis .
qed

lemma inverse_root_half:
  fixes w wi :: "'a :: comm_ring_1"
  assumes "w * wi = 1" and "w ^ h = - 1"
  shows "wi ^ h = - 1"
proof -
  have "w ^ h * wi ^ h = (w * wi) ^ h" by (simp only: power_mult_distrib)
  then have "- (wi ^ h) = 1" using assms by simp
  then have "- (- (wi ^ h)) = - 1" by (simp only:)
  then show ?thesis by simp
qed

lemma dft_inverse:
  fixes w wi ninv :: "'a :: comm_ring_1"
  assumes n: "n = 2 ^ k" and h: "w ^ (n div 2) = - 1" and wi: "w * wi = 1"
    and ni: "of_nat n * ninv = 1" and u: "u < n"
  shows "dft wi n (dft w n x) u * ninv = x u"
proof -
  have hi: "wi ^ (n div 2) = - 1" using wi h by (rule inverse_root_half)
  have one: "w ^ a * wi ^ a = 1" for a
    using wi by (simp add: power_mult_distrib [symmetric])
  have inner: "(\<Sum>t<n. w ^ (v * t) * wi ^ (t * u)) = (if v = u then of_nat n else 0)" if v: "v < n" for v
  proof -
    consider "v = u" | "u < v" | "v < u" by linarith
    then show ?thesis
    proof cases
      case 1
      then show ?thesis using one [of "u * _"] by (simp add: mult.commute)
    next
      case 2
      have "w ^ (v * t) * wi ^ (t * u) = w ^ ((v - u) * t)" for t
      proof -
        have "v * t = (v - u) * t + t * u" using 2 by (simp add: algebra_simps)
        then have "w ^ (v * t) * wi ^ (t * u) = w ^ ((v - u) * t) * (w ^ (t * u) * wi ^ (t * u))"
          by (simp only: power_add mult.assoc)
        then show ?thesis by (simp only: one mult_1_right)
      qed
      moreover have "(\<Sum>t<n. w ^ ((v - u) * t)) = 0"
        using n h by (rule roots_orthogonal) (use 2 v in simp_all)
      ultimately show ?thesis using 2 by simp
    next
      case 3
      have "w ^ (v * t) * wi ^ (t * u) = wi ^ ((u - v) * t)" for t
      proof -
        have "t * u = (u - v) * t + v * t" using 3 by (simp add: algebra_simps)
        then have "w ^ (v * t) * wi ^ (t * u) = wi ^ ((u - v) * t) * (w ^ (v * t) * wi ^ (v * t))"
          by (simp only: power_add mult.assoc mult.left_commute)
        then show ?thesis by (simp only: one mult_1_right)
      qed
      moreover have "(\<Sum>t<n. wi ^ ((u - v) * t)) = 0"
        using n hi by (rule roots_orthogonal) (use 3 u in simp_all)
      ultimately show ?thesis using 3 by simp
    qed
  qed
  have "dft wi n (dft w n x) u = (\<Sum>t<n. \<Sum>v<n. x v * (w ^ (v * t) * wi ^ (t * u)))"
    by (simp add: dft_def sum_distrib_right mult.assoc)
  also have "\<dots> = (\<Sum>v<n. \<Sum>t<n. x v * (w ^ (v * t) * wi ^ (t * u)))"
    by (rule sum.swap)
  also have "\<dots> = (\<Sum>v<n. x v * (\<Sum>t<n. w ^ (v * t) * wi ^ (t * u)))"
    by (simp only: sum_distrib_left)
  also have "\<dots> = (\<Sum>v<n. x v * (if v = u then of_nat n else 0))"
    by (rule sum.cong [OF refl]) (simp add: inner)
  also have "\<dots> = (\<Sum>v<n. if v = u then x u * of_nat n else 0)"
    by (rule sum.cong [OF refl]) simp
  also have "\<dots> = x u * of_nat n" using u by (simp add: sum.delta)
  finally have "dft wi n (dft w n x) u * ninv = x u * (of_nat n * ninv)"
    by (simp only: mult.assoc)
  then show ?thesis by (simp only: ni mult_1_right)
qed

lemma dft_cong: "(\<And>v. v < n \<Longrightarrow> y v = y' v) \<Longrightarrow> dft w n y t = dft w n y' t"
  by (simp add: dft_def)

lemma metal_fr_fft_runs:
  assumes "MIN_GPU_FFT_SIZE \<le> n" and "length x = n"
    and "data_buffer_ok c" "roots_malloc_ok c" "roots_buffer_ok c" "command_buffer_ok c"
      "command_status_ok c"
  shows "metal_fr_fft ops (Some c) False (Some x) n (Some rts) st inv_fft
     = Inr (metal_fft_commands ops (map (\<lambda>i. rts ! (i * st)) [0..<n]) n inv_fft x)"
  using assms by (simp add: metal_fr_fft_def Let_def)

section \<open>A transform of length 256 with the shipped kernels\<close>

lemma digit_step:
  fixes B a X :: nat
  assumes "a < B"
  shows "(a + B * X) mod B = a" and "(a + B * X) div B = X"
  using assms by simp_all

lemma fr_val_base:
  "fr_val a = unat (l0 a) + 2 ^ 64 * (unat (l1 a) + 2 ^ 64 * (unat (l2 a) + 2 ^ 64 * unat (l3 a)))"
  by (simp add: fr_val_def)

lemma fr_val_inject:
  assumes "fr_val x = fr_val y"
  shows "x = y"
proof -
  define B :: nat where "B = 2 ^ 64"
  have lt: "unat (w :: ulong) < B" for w unfolding B_def by (rule unat_lt64)
  have v: "fr_val a = unat (l0 a) + B * (unat (l1 a) + B * (unat (l2 a) + B * unat (l3 a)))" for a
    unfolding B_def by (rule fr_val_base)
  have d0: "unat (l0 a) = fr_val a mod B" for a
    unfolding v by (rule digit_step(1) [symmetric]) (rule lt)
  have q1: "fr_val a div B = unat (l1 a) + B * (unat (l2 a) + B * unat (l3 a))" for a
    unfolding v by (rule digit_step(2)) (rule lt)
  have d1: "unat (l1 a) = fr_val a div B mod B" for a
    unfolding q1 by (rule digit_step(1) [symmetric]) (rule lt)
  have q2: "fr_val a div B div B = unat (l2 a) + B * unat (l3 a)" for a
    unfolding q1 by (rule digit_step(2)) (rule lt)
  have d2: "unat (l2 a) = fr_val a div B div B mod B" for a
    unfolding q2 by (rule digit_step(1) [symmetric]) (rule lt)
  have d3: "unat (l3 a) = fr_val a div B div B div B" for a
    unfolding q2 by (rule digit_step(2) [symmetric]) (rule lt)
  have "unat (l0 x) = unat (l0 y)" "unat (l1 x) = unat (l1 y)" "unat (l2 x) = unat (l2 y)"
    "unat (l3 x) = unat (l3 y)"
    unfolding d0 d1 d2 d3 assms by (rule refl)+
  then have "l0 x = l0 y" "l1 x = l1 y" "l2 x = l2 y" "l3 x = l3 y"
    by (simp_all only: word_unat_eq_iff)
  then show ?thesis by simp
qed

lemma fr_val_of_nat:
  assumes "v < 2 ^ 256"
  shows "fr_val (fr_of_nat v) = v"
proof -
  define B :: nat where "B = 2 ^ 64"
  have B0: "0 < B" by (simp add: B_def)
  have u: "unat (of_nat w :: ulong) = w mod B" for w
    unfolding B_def by (simp add: unat_of_nat)
  have p: "(2::nat) ^ 128 = 2 ^ 64 * 2 ^ 64" "(2::nat) ^ 192 = 2 ^ 64 * 2 ^ 64 * 2 ^ 64"
    "(2::nat) ^ 256 = 2 ^ 64 * 2 ^ 64 * 2 ^ 64 * 2 ^ 64"
    by simp_all
  have "v < B * B * B * B" using assms unfolding p B_def .
  then have "v div B div B div B < B"
    by (simp add: less_mult_imp_div_less mult.commute)
  then have top: "v div B div B div B mod B = v div B div B div B" by simp
  have "fr_val (fr_of_nat v) = unat (of_nat v :: ulong)
      + 2 ^ 64 * (unat (of_nat (v div 2 ^ 64) :: ulong)
      + 2 ^ 64 * (unat (of_nat (v div 2 ^ 128) :: ulong)
      + 2 ^ 64 * unat (of_nat (v div 2 ^ 192) :: ulong)))"
    by (simp only: fr_val_base fr_of_nat_def Fr.select_convs)
  also have "\<dots> = v mod B + B * (v div B mod B + B * (v div (B * B) mod B
      + B * (v div (B * B * B) mod B)))"
    unfolding p u B_def ..
  also have "\<dots> = v mod B + B * (v div B mod B + B * (v div B div B mod B
      + B * (v div B div B div B)))"
    by (simp only: div_mult2_eq top)
  also have "\<dots> = v"
    by (simp only: mult_div_mod_eq add.commute [of "_ mod B"])
  finally show ?thesis .
qed


lemma fr_val_zero: "fr_val fr_zero = 0"
  by (simp add: fr_val_def fr_zero_def)

lemma fr_add_zero:
  assumes "fr_val a < r_modulus"
  shows "fr_add a fr_zero = a" and "fr_add fr_zero a = a"
proof -
  have z: "fr_val fr_zero < r_modulus" by (simp add: fr_val_zero r_modulus_pos)
  have "fr_val (fr_add a fr_zero) = fr_val a"
    using fr_add_correct [OF assms z] assms by (simp add: fr_val_zero)
  then show "fr_add a fr_zero = a" by (rule fr_val_inject)
  have "fr_val (fr_add fr_zero a) = fr_val a"
    using fr_add_correct [OF z assms] assms by (simp add: fr_val_zero)
  then show "fr_add fr_zero a = a" by (rule fr_val_inject)
qed

lemma fr_sub_zero: "fr_sub a fr_zero = a"
  by (simp add: fr_sub_def fr_zero_def Let_def)

lemma fr_sub_zero_b: "fr_sub fr_zero ex_b = ex_c"
  by (simp add: fr_sub_def Let_def fr_zero_def ex_b_def ex_c_def)

lemma fr_mul_zero:
  assumes "fr_val w < r_modulus"
  shows "fr_mul w fr_zero = fr_zero"
proof -
  have "fr_val (fr_mul w fr_zero) = fr_val fr_zero"
    using fr_mul_montgomery [OF assms, of fr_zero] by (simp add: fr_val_zero)
  then show ?thesis by (rule fr_val_inject)
qed

lemma fr_mul_one_val:
  assumes w: "fr_val w = 2 ^ 256 mod r_modulus" and a: "fr_val a < r_modulus"
  shows "fr_val (fr_mul w a) = fr_val a"
proof -
  have wl: "fr_val w < r_modulus" unfolding w using r_modulus_pos by simp
  have "fr_val (fr_mul w a) = (2 ^ 256 mod r_modulus * fr_val a * mont_R_inv) mod r_modulus"
    using fr_mul_montgomery [OF wl, of a] by (simp only: w)
  also have "\<dots> = (fr_val a * (2 ^ 256 mod r_modulus * mont_R_inv)) mod r_modulus"
    by (simp only: mult.commute mult.left_commute mult.assoc)
  also have "\<dots> = (fr_val a * ((2 ^ 256 mod r_modulus * mont_R_inv) mod r_modulus)) mod r_modulus"
    by (simp only: mod_mult_right_eq)
  also have "(2 ^ 256 mod r_modulus * mont_R_inv) mod r_modulus = (2 ^ 256 * mont_R_inv) mod r_modulus"
    by (simp only: mod_mult_left_eq)
  also have "\<dots> = 1" by (rule mont_R_inv)
  finally show ?thesis using a by simp
qed

lemma fr_mul_one:
  assumes w: "fr_val w = 2 ^ 256 mod r_modulus" and a: "fr_val a < r_modulus"
  shows "fr_mul w a = a"
  using fr_mul_one_val [OF w a] by (rule fr_val_inject)

lemma ex_values:
  "fr_val ex_b < r_modulus" "fr_val ex_c < r_modulus"
  "fr_val ex_b = 0xffffffffffffffff0000000000000001" "fr_val ex_c = 0xffffffffffffffff"
  by (simp_all add: fr_val_def ex_b_def ex_c_def r_modulus_def)


lemma dit_cong:
  "(\<And>v. v < 2 ^ s \<Longrightarrow> y v = y' v) \<Longrightarrow> dit ops roots n s y t = dit ops roots n s y' t"
proof (induction s arbitrary: y y' t)
  case 0
  then show ?case by simp
next
  case (Suc s)
  have a: "dit ops roots n s (\<lambda>v. y (2 * v)) u = dit ops roots n s (\<lambda>v. y' (2 * v)) u" for u
    by (rule Suc.IH) (simp add: Suc.prems)
  have b: "dit ops roots n s (\<lambda>v. y (2 * v + 1)) u = dit ops roots n s (\<lambda>v. y' (2 * v + 1)) u" for u
    by (rule Suc.IH) (simp add: Suc.prems)
  show ?case by (simp only: dit.simps a b)
qed

lemma twiddle_index:
  assumes "s < k"
  shows "(t mod 2 ^ s) * (2 ^ k div 2 ^ Suc s) < (2::nat) ^ k div 2"
proof -
  have "(2::nat) ^ s \<le> 2 ^ (k - 1)" using assms by (intro power_increasing) simp_all
  then have "t mod 2 ^ s < (2::nat) ^ (k - 1)"
    by (meson less_le_trans mod_less_divisor zero_less_numeral zero_less_power)
  moreover have "(2::nat) ^ k div 2 = 2 ^ (k - 1)"
  proof -
    have "k = Suc (k - 1)" using assms by simp
    then have "(2::nat) ^ k = 2 * 2 ^ (k - 1)" by (metis power_Suc)
    then show ?thesis by simp
  qed
  ultimately have g: "t mod 2 ^ s < (2::nat) ^ k div 2" by simp
  from butterfly_bounds(2) [OF assms g] show ?thesis by simp
qed

lemma dit_zero:
  assumes n: "n = 2 ^ k"
    and cn: "\<And>i. i < n div 2 \<Longrightarrow> fr_val (roots ! i) < r_modulus"
  shows "s \<le> k \<Longrightarrow> dit (metal_ops c) roots n s (\<lambda>v. fr_zero) t = fr_zero"
proof (induction s arbitrary: t)
  case 0
  show ?case by simp
next
  case (Suc s)
  then have sk: "s < k" and sl: "s \<le> k" by simp_all
  have w: "fr_val (roots ! ((t mod 2 ^ s) * (n div 2 ^ Suc s))) < r_modulus"
    using twiddle_index [OF sk, of t] by (intro cn) (simp add: n)
  have z: "fr_val fr_zero < r_modulus" by (simp add: fr_val_zero r_modulus_pos)
  have "dit (metal_ops c) roots n (Suc s) (\<lambda>v. fr_zero) t
      = (let wb = fr_mul (roots ! ((t mod 2 ^ s) * (n div 2 ^ Suc s))) fr_zero
         in if t < 2 ^ s then fr_add fr_zero wb else fr_sub fr_zero wb)"
    unfolding dit.simps(2) Suc.IH [OF sl] by (simp add: Let_def metal_ops_def)
  also have "\<dots> = fr_zero"
    by (simp only: Let_def fr_mul_zero [OF w] fr_add_zero(1) [OF z] fr_sub_zero if_cancel)
  finally show ?case .
qed

lemma dit_impulse:
  assumes n: "n = 2 ^ k"
    and cn: "\<And>i. i < n div 2 \<Longrightarrow> fr_val (roots ! i) < r_modulus"
    and r0: "fr_val (roots ! 0) = 2 ^ 256 mod r_modulus"
  shows "Suc s \<le> k \<Longrightarrow> t < 2 ^ Suc s \<Longrightarrow>
     dit (metal_ops c) roots n (Suc s) (\<lambda>v. if v = 2 ^ s then ex_b else fr_zero) t
       = (if even t then ex_b else ex_c)"
proof (induction s arbitrary: t)
  case 0
  then have t: "t = 0 \<or> t = 1" by auto
  have m: "fr_mul (roots ! 0) ex_b = ex_b" using r0 ex_values(1) by (rule fr_mul_one)
  from t show ?case
    by (auto simp add: Let_def metal_ops_def m fr_add_zero(2) [OF ex_values(1)] fr_sub_zero_b)
next
  case (Suc s)
  then have sk: "Suc s < k" and sl: "Suc s \<le> k" by simp_all
  define u where "u = t mod 2 ^ Suc s"
  have u: "u < 2 ^ Suc s" by (simp add: u_def)
  have ev: "even u = even t"
    unfolding u_def by (simp add: dvd_mod_iff)
  have fe: "(\<lambda>v :: nat. if 2 * v = 2 ^ Suc s then ex_b else fr_zero)
      = (\<lambda>v. if v = 2 ^ s then ex_b else fr_zero)"
    by (rule ext) simp
  have fo: "(\<lambda>v :: nat. if 2 * v + 1 = 2 ^ Suc s then ex_b else fr_zero) = (\<lambda>v. fr_zero)"
  proof (rule ext)
    fix v :: nat
    have "odd (2 * v + 1)" by simp
    moreover have "even ((2::nat) ^ Suc s)" by simp
    ultimately have "2 * v + 1 \<noteq> 2 ^ Suc s" by metis
    then show "(if 2 * v + 1 = 2 ^ Suc s then ex_b else fr_zero) = fr_zero" by simp
  qed
  have w: "fr_val (roots ! (u * (n div 2 ^ Suc (Suc s)))) < r_modulus"
    using twiddle_index [OF sk, of t] by (intro cn) (simp add: n u_def)
  have a: "dit (metal_ops c) roots n (Suc s) (\<lambda>v. if v = 2 ^ s then ex_b else fr_zero) u
      = (if even t then ex_b else ex_c)"
    using Suc.IH [OF sl u] by (simp only: ev)
  have b: "dit (metal_ops c) roots n (Suc s) (\<lambda>v. fr_zero) u = fr_zero"
    using n cn sl by (rule dit_zero)
  have "dit (metal_ops c) roots n (Suc (Suc s)) (\<lambda>v. if v = 2 ^ Suc s then ex_b else fr_zero) t
      = (let wb = fr_mul (roots ! (u * (n div 2 ^ Suc (Suc s)))) fr_zero
         in if t < 2 ^ Suc s then fr_add (if even t then ex_b else ex_c) wb
            else fr_sub (if even t then ex_b else ex_c) wb)"
    unfolding dit.simps(2) [of _ _ _ "Suc s"] u_def [symmetric] fe fo a b
    by (simp add: Let_def metal_ops_def)
  also have "\<dots> = (if even t then ex_b else ex_c)"
  proof -
    have az: "fr_add (if even t then ex_b else ex_c) fr_zero = (if even t then ex_b else ex_c)"
      by (cases "even t")
        (simp_all only: if_True if_False fr_add_zero(1) [OF ex_values(1)]
          fr_add_zero(1) [OF ex_values(2)])
    show ?thesis
      by (simp only: Let_def fr_mul_zero [OF w] fr_sub_zero az if_cancel)
  qed
  finally show ?case .
qed

lemma dit_const:
  assumes r0: "fr_val (roots ! 0) = 2 ^ 256 mod r_modulus" and a: "fr_val a < r_modulus"
  shows "fr_val (dit (metal_ops c) roots n s (\<lambda>v. a) 0) = (2 ^ s * fr_val a) mod r_modulus"
proof (induction s)
  case 0
  show ?case using a by simp
next
  case (Suc s)
  define A where "A = dit (metal_ops c) roots n s (\<lambda>v. a) 0"
  have Av: "fr_val A = (2 ^ s * fr_val a) mod r_modulus" unfolding A_def by (rule Suc.IH)
  have Al: "fr_val A < r_modulus" unfolding Av using r_modulus_pos by simp
  have M: "fr_val (fr_mul (roots ! 0) A) = fr_val A" using r0 Al by (rule fr_mul_one_val)
  have Ml: "fr_val (fr_mul (roots ! 0) A) < r_modulus" unfolding M by (rule Al)
  have "dit (metal_ops c) roots n (Suc s) (\<lambda>v. a) 0 = fr_add A (fr_mul (roots ! 0) A)"
    by (simp add: Let_def metal_ops_def A_def)
  then have "fr_val (dit (metal_ops c) roots n (Suc s) (\<lambda>v. a) 0)
      = (fr_val A + fr_val A) mod r_modulus"
    using fr_add_correct [OF Al Ml] by (simp only: M)
  also have "\<dots> = (2 * ((2 ^ s * fr_val a) mod r_modulus)) mod r_modulus"
    by (simp only: Av mult_2)
  also have "\<dots> = (2 * (2 ^ s * fr_val a)) mod r_modulus"
    by (simp only: mod_mult_right_eq)
  also have "\<dots> = (2 ^ Suc s * fr_val a) mod r_modulus"
    by (simp only: power_Suc mult.assoc)
  finally show ?case .
qed


lemma to_mont_less: "to_mont v < r_modulus"
  unfolding to_mont_def using r_modulus_pos by simp

lemma fr_val_mont: "fr_val (fr_of_nat (to_mont v)) = to_mont v"
proof -
  have "to_mont v < 2 * r_modulus" using to_mont_less [of v] by simp
  then have "to_mont v < 2 ^ 256" using r_modulus_lt by (rule less_trans)
  then show ?thesis by (rule fr_val_of_nat)
qed

lemma mont_roots:
  fixes w :: nat
  assumes rts_def: "rts = map (\<lambda>i. fr_of_nat (to_mont (w ^ i mod r_modulus))) [0..<256]"
  shows "length rts = 256"
    and "map (\<lambda>i. rts ! (i * 1)) [0..<256] = rts"
    and "\<And>i. i < 256 div 2 \<Longrightarrow> fr_val (rts ! i) < r_modulus"
    and "fr_val (rts ! 0) = 2 ^ 256 mod r_modulus"
proof -
  show l: "length rts = 256" by (simp add: rts_def)
  show "map (\<lambda>i. rts ! (i * 1)) [0..<256] = rts"
    using map_nth [of rts] by (simp add: l)
  show "fr_val (rts ! i) < r_modulus" if "i < 256 div 2" for i
  proof -
    from that have "i < 256" by simp
    then show ?thesis by (simp add: rts_def fr_val_mont to_mont_less)
  qed
  have "(1::nat) mod r_modulus = 1" by (simp add: r_modulus_def)
  then show "fr_val (rts ! 0) = 2 ^ 256 mod r_modulus"
    by (simp add: rts_def fr_val_mont) (simp add: to_mont_def)
qed

lemma ex_context_ok:
  "data_buffer_ok ex_context" "roots_malloc_ok ex_context" "roots_buffer_ok ex_context"
  "command_buffer_ok ex_context" "command_status_ok ex_context"
  by (simp_all add: ex_context_def)

lemma ex_impulse_nth: "v < 256 \<Longrightarrow> ex_impulse ! v = (if v = 128 then ex_b else fr_zero)"
  by (simp add: ex_impulse_def nth_list_update)

lemma ex_spectrum_nth: "t < 256 \<Longrightarrow> ex_spectrum ! t = (if even t then ex_b else ex_c)"
  by (simp add: ex_spectrum_def)

lemma ex_forward:
  "metal_fr_fft ex_ops_256 (Some ex_context) False (Some ex_impulse) 256 (Some ex_roots) 1 False
     = Inr ex_spectrum"
proof -
  note rt = mont_roots [OF ex_roots_def]
  have n8: "(256::nat) = 2 ^ 8" by simp
  have k: "(8::nat) < 32" by simp
  have len: "length ex_impulse = 256" by (simp add: ex_impulse_def)
  have big: "MIN_GPU_FFT_SIZE \<le> 256" by (simp add: MIN_GPU_FFT_SIZE_def)
  have e8: "(8::nat) = Suc 7" by simp
  have p7: "(2::nat) ^ 7 = 128" by simp
  have d: "dit ex_ops_256 ex_roots 256 8 (\<lambda>v. ex_impulse ! v) t = (if even t then ex_b else ex_c)"
    if t: "t < 256" for t
  proof -
    have "dit ex_ops_256 ex_roots 256 8 (\<lambda>v. ex_impulse ! v) t
        = dit ex_ops_256 ex_roots 256 8 (\<lambda>v. if v = 2 ^ 7 then ex_b else fr_zero) t"
      by (rule dit_cong) (simp add: ex_impulse_nth)
    also have "\<dots> = (if even t then ex_b else ex_c)"
      unfolding e8 ex_ops_256_def
    proof (rule dit_impulse [where k = 8])
      show "(256::nat) = 2 ^ 8" by simp
      show "fr_val (ex_roots ! i) < r_modulus" if "i < 256 div 2" for i using that by (rule rt(3))
      show "fr_val (ex_roots ! 0) = 2 ^ 256 mod r_modulus" by (rule rt(4))
      show "Suc 7 \<le> 8" by simp
      show "t < 2 ^ Suc 7" using t by simp
    qed
    finally show ?thesis .
  qed
  have "metal_fr_fft ex_ops_256 (Some ex_context) False (Some ex_impulse) 256 (Some ex_roots) 1 False
      = Inr (metal_fft_commands ex_ops_256 ex_roots 256 False ex_impulse)"
    unfolding metal_fr_fft_runs [OF big len ex_context_ok] rt(2) ..
  also have "metal_fft_commands ex_ops_256 ex_roots 256 False ex_impulse
      = map (dit ex_ops_256 ex_roots 256 8 (\<lambda>v. ex_impulse ! v)) [0..<256]"
    using k n8 len by (rule forward_commands(1))
  also have "\<dots> = ex_spectrum"
    unfolding ex_spectrum_def by (rule map_cong [OF refl]) (simp add: d)
  finally show ?thesis .
qed


lemma ex_inv_256_val: "fr_val ex_inv_256 = 2 ^ 248"
  unfolding ex_inv_256_def fr_val_mont by (simp add: to_mont_def ex_ninv_def r_modulus_def)

lemma ex_inverse_first:
  "fr_val (fr_mul (dit ex_ops_256 ex_reverse_roots 256 8 (\<lambda>v. ex_spectrum ! v) 0) ex_inv_256)
     = 0x80000000000000000000000000000000"
proof -
  note rt = mont_roots [OF ex_reverse_roots_def]
  define De where "De = dit ex_ops_256 ex_reverse_roots 256 7 (\<lambda>v. ex_b) 0"
  define Do where "Do = dit ex_ops_256 ex_reverse_roots 256 7 (\<lambda>v. ex_c) 0"
  define D where "D = dit ex_ops_256 ex_reverse_roots 256 8 (\<lambda>v. ex_spectrum ! v) 0"
  have e8: "(8::nat) = Suc 7" by simp
  have ce: "dit ex_ops_256 ex_reverse_roots 256 7 (\<lambda>v. ex_spectrum ! (2 * v)) 0 = De"
    unfolding De_def by (rule dit_cong) (simp add: ex_spectrum_nth)
  have co: "dit ex_ops_256 ex_reverse_roots 256 7 (\<lambda>v. ex_spectrum ! Suc (2 * v)) 0 = Do"
    unfolding Do_def by (rule dit_cong) (simp add: ex_spectrum_nth)
  have Dv: "D = fr_add De (fr_mul (ex_reverse_roots ! 0) Do)"
    unfolding D_def e8 dit.simps(2) by (simp add: ce co Let_def) (simp add: ex_ops_256_def metal_ops_def)
  have ve: "fr_val De = (2 ^ 7 * fr_val ex_b) mod r_modulus"
    unfolding De_def ex_ops_256_def using rt(4) ex_values(1) by (rule dit_const)
  have vo: "fr_val Do = (2 ^ 7 * fr_val ex_c) mod r_modulus"
    unfolding Do_def ex_ops_256_def using rt(4) ex_values(2) by (rule dit_const)
  have le: "fr_val De < r_modulus" unfolding ve using r_modulus_pos by simp
  have lo: "fr_val Do < r_modulus" unfolding vo using r_modulus_pos by simp
  have vm: "fr_val (fr_mul (ex_reverse_roots ! 0) Do) = fr_val Do"
    using rt(4) lo by (rule fr_mul_one_val)
  have lm: "fr_val (fr_mul (ex_reverse_roots ! 0) Do) < r_modulus" unfolding vm by (rule lo)
  have vD: "fr_val D = (fr_val De + fr_val Do) mod r_modulus"
    unfolding Dv using fr_add_correct [OF le lm] by (simp only: vm)
  have lD: "fr_val D < r_modulus" unfolding vD using r_modulus_pos by simp
  have "fr_val (fr_mul D ex_inv_256) = (fr_val D * fr_val ex_inv_256 * mont_R_inv) mod r_modulus"
    using lD by (rule fr_mul_montgomery)
  also have "\<dots> = 0x80000000000000000000000000000000"
    unfolding vD ve vo ex_values(3,4) ex_inv_256_val
    by (simp add: r_modulus_def mont_R_inv_def)
  finally show ?thesis unfolding D_def .
qed

lemma ex_omega_order: "ex_omega ^ 128 mod r_modulus = r_modulus - 1"
proof -
  have sq: "(a ^ (2 * m)) mod r_modulus = ((a ^ m) mod r_modulus) ^ 2 mod r_modulus" for a m :: nat
    by (simp only: power_mod power_mult [symmetric] mult.commute [of 2])
  have p2: "ex_omega ^ 2 mod r_modulus = 0x6898111413588742b7c68b4d7fdd60d098d0caac87f5713c5130c2c1660125be"
    by (simp add: ex_omega_def r_modulus_def power2_eq_square)
  have p4: "ex_omega ^ 4 mod r_modulus = 0x45af6345ec055e4d14a1e27164d8fdbd2d967f4be2f951558140d032f0a9ee53"
    using sq [of ex_omega 2] unfolding p2 by (simp add: r_modulus_def power2_eq_square)
  have p8: "ex_omega ^ 8 mod r_modulus = 0x50e0903a157988bab4bcd40e22f55448bf6e88fb4c38fb8a360c60997369df4e"
    using sq [of ex_omega 4] unfolding p4 by (simp add: r_modulus_def power2_eq_square)
  have p16: "ex_omega ^ 16 mod r_modulus = 0x20b1ce9140267af9dd1c0af834cec32c17beb312f20b6f7653ea61d87742bcce"
    using sq [of ex_omega 8] unfolding p8 by (simp add: r_modulus_def power2_eq_square)
  have p32: "ex_omega ^ 32 mod r_modulus = 0x345766f603fa66e78c0625cd70d77ce2b38b21c28713b7007228fd3397743f7a"
    using sq [of ex_omega 16] unfolding p16 by (simp add: r_modulus_def power2_eq_square)
  have p64: "ex_omega ^ 64 mod r_modulus = 0x8d51ccce760304d0ec030002760300000001000000000000"
    using sq [of ex_omega 32] unfolding p32 by (simp add: r_modulus_def power2_eq_square)
  have p128: "ex_omega ^ 128 mod r_modulus = 0x73eda753299d7d483339d80809a1d80553bda402fffe5bfeffffffff00000000"
    using sq [of ex_omega 64] unfolding p64 by (simp add: r_modulus_def power2_eq_square)
  show ?thesis unfolding p128 by (simp add: r_modulus_def)
qed

lemma ex_roots_inverse:
  "(ex_omega * ex_omega_inv) mod r_modulus = 1"
  "(256 * ex_ninv) mod r_modulus = 1"
  by (simp_all add: ex_omega_def ex_omega_inv_def ex_ninv_def r_modulus_def)


text \<open>
  With the three field operations computed exactly, the two calls of \<open>metal_fr_fft\<close>
  are inverse to each other for every power-of-two length from 256 to 8192.
\<close>

lemma metal_fr_fft_exact_round_trip:
  fixes w wi ninv :: "'a :: comm_ring_1"
  assumes k: "8 \<le> k" "k \<le> 13" and n: "n = 2 ^ k" and len: "length x = n"
    and h: "w ^ (n div 2) = - 1" and wi: "w * wi = 1" and ni: "of_nat n * ninv = 1"
    and rt: "\<And>i. i < n \<Longrightarrow> rts ! (i * st) = w ^ i"
    and rr: "\<And>i. i < n \<Longrightarrow> rrts ! (i * rst) = wi ^ i"
    and c: "data_buffer_ok c" "roots_malloc_ok c" "roots_buffer_ok c" "command_buffer_ok c"
      "command_status_ok c"
  shows "metal_fr_fft (exact_ops (\<lambda>m. ninv)) (Some c) False (Some x) n (Some rts) st False
           = Inr (map (dft w n (\<lambda>v. x ! v)) [0..<n])
         \<and> metal_fr_fft (exact_ops (\<lambda>m. ninv)) (Some c) False
              (Some (map (dft w n (\<lambda>v. x ! v)) [0..<n])) n (Some rrts) rst True
           = Inr x
         \<and> (m < 256 \<longrightarrow>
              metal_fr_fft ops (Some c) False (Some y) m (Some r) s inv_fft = Inl C_KZG_ERROR)"
proof (intro conjI impI)
  have k32: "k < 32" using k(2) by simp
  have "(2::nat) ^ 8 \<le> 2 ^ k" using k(1) by (rule power_increasing) simp
  then have big: "MIN_GPU_FFT_SIZE \<le> n" by (simp add: n MIN_GPU_FFT_SIZE_def)
  define X where "X = map (dft w n (\<lambda>v. x ! v)) [0..<n]"
  have lX: "length X = n" by (simp add: X_def)
  have r1: "(map (\<lambda>i. rts ! (i * st)) [0..<n]) ! i = w ^ i" if "i < n div 2" for i
  proof -
    from that have "i < n" by simp
    then show ?thesis by (simp add: rt)
  qed
  have r2: "(map (\<lambda>i. rrts ! (i * rst)) [0..<n]) ! i = wi ^ i" if "i < n div 2" for i
  proof -
    from that have "i < n" by simp
    then show ?thesis by (simp add: rr)
  qed
  have hi: "wi ^ (n div 2) = - 1" using wi h by (rule inverse_root_half)
  show f: "metal_fr_fft (exact_ops (\<lambda>m. ninv)) (Some c) False (Some x) n (Some rts) st False
           = Inr (map (dft w n (\<lambda>v. x ! v)) [0..<n])"
    unfolding metal_fr_fft_runs [OF big len c]
    by (simp only: forward_exact(1) [OF k32 n len r1 h])
  have "metal_fr_fft (exact_ops (\<lambda>m. ninv)) (Some c) False (Some X) n (Some rrts) rst True
      = Inr (map (\<lambda>t. dft wi n (\<lambda>v. X ! v) t * ninv) [0..<n])"
    unfolding metal_fr_fft_runs [OF big lX c]
    by (simp only: forward_exact(2) [OF k32 n lX r2 hi])
  also have "map (\<lambda>t. dft wi n (\<lambda>v. X ! v) t * ninv) [0..<n] = x"
  proof (rule nth_equalityI)
    show "length (map (\<lambda>t. dft wi n (\<lambda>v. X ! v) t * ninv) [0..<n]) = length x"
      by (simp add: len)
    fix t assume "t < length (map (\<lambda>t. dft wi n (\<lambda>v. X ! v) t * ninv) [0..<n])"
    then have t: "t < n" by simp
    have "dft wi n (\<lambda>v. X ! v) t = dft wi n (dft w n (\<lambda>v. x ! v)) t"
      by (rule dft_cong) (simp add: X_def)
    then show "map (\<lambda>t. dft wi n (\<lambda>v. X ! v) t * ninv) [0..<n] ! t = x ! t"
      using t dft_inverse [OF n h wi ni t, of "\<lambda>v. x ! v"] by simp
  qed
  finally show "metal_fr_fft (exact_ops (\<lambda>m. ninv)) (Some c) False
              (Some (map (dft w n (\<lambda>v. x ! v)) [0..<n])) n (Some rrts) rst True = Inr x"
    unfolding X_def .
next
  assume "m < 256"
  then show "metal_fr_fft ops (Some c) False (Some y) m (Some r) s inv_fft = Inl C_KZG_ERROR"
    by (rule metal_fr_fft_small)
qed


section \<open>The claims about the field arithmetic\<close>

text \<open>
  Claim C2. For all field elements \<open>a\<close> and \<open>b\<close>, stored as four 64-bit little-endian limbs
  whose integer values are below the scalar prime \<open>r\<close>, \<open>fr_mul a b\<close> is the Montgomery
  product \<open>a * b * 2^(-256) mod r\<close>, and the result is again a canonical representative
  below \<open>r\<close>. The constant \<open>mont_R_inv\<close> is the inverse of \<open>2^256\<close> modulo \<open>r\<close>.
\<close>

theorem fr_mul_montgomery_product:
  assumes "fr_val a < r_modulus" and "fr_val b < r_modulus"
  shows "fr_val (fr_mul a b) = (fr_val a * fr_val b * mont_R_inv) mod r_modulus
    \<and> fr_val (fr_mul a b) < r_modulus
    \<and> (2 ^ 256 * mont_R_inv) mod r_modulus = 1"
proof (intro conjI)
  show "fr_val (fr_mul a b) = (fr_val a * fr_val b * mont_R_inv) mod r_modulus"
    using assms(1) by (rule fr_mul_montgomery)
  show "fr_val (fr_mul a b) < r_modulus"
    using assms(1) by (rule fr_mul_value(1))
  show "(2 ^ 256 * mont_R_inv) mod r_modulus = 1"
    by (rule mont_R_inv)
qed

theorem fr_mul_montgomery_product_witness:
  "fr_val \<lparr>l0 = 3, l1 = 0, l2 = 0, l3 = 1\<rparr> < r_modulus
   \<and> fr_val \<lparr>l0 = 5, l1 = 7, l2 = 0, l3 = 0\<rparr> < r_modulus
   \<and> fr_val (fr_mul \<lparr>l0 = 3, l1 = 0, l2 = 0, l3 = 1\<rparr> \<lparr>l0 = 5, l1 = 7, l2 = 0, l3 = 0\<rparr>)
       = 0x41c3e60f90f2662b14461deca4c7675024a399674fd113d734e7d75c36402b1f
   \<and> fr_val (fr_mul \<lparr>l0 = 3, l1 = 0, l2 = 0, l3 = 1\<rparr> \<lparr>l0 = 5, l1 = 7, l2 = 0, l3 = 0\<rparr>)
       < r_modulus"
proof -
  have h1: "fr_val \<lparr>l0 = 3, l1 = 0, l2 = 0, l3 = 1\<rparr> < r_modulus"
    by (simp add: fr_val_def r_modulus_def)
  have h2: "fr_val \<lparr>l0 = 5, l1 = 7, l2 = 0, l3 = 0\<rparr> < r_modulus"
    by (simp add: fr_val_def r_modulus_def)
  show ?thesis
    using fr_mul_montgomery_product [OF h1 h2] h1 h2
    by (simp add: fr_val_def r_modulus_def mont_R_inv_def)
qed

text \<open>
  Claim C3. For all field elements \<open>a\<close> and \<open>b\<close> with integer values below \<open>r\<close>,
  \<open>fr_add a b\<close> is \<open>(a + b) mod r\<close> and \<open>fr_sub a b\<close> is \<open>(a - b) mod r\<close>. The addition
  half holds (\<open>fr_add_correct\<close>). The subtraction half fails: \<open>fr_sub\<close> computes the
  borrow out of limbs 1, 2 and 3 as \<open>a.l[k] < b.l[k] + borrow\<close>, and \<open>b.l[k] + borrow\<close> wraps
  to \<open>0\<close> when \<open>b.l[k] = 2^64 - 1\<close> and a borrow comes in, so the borrow is lost. At
  \<open>a = 0\<close> and \<open>b = 1 + (2^64 - 1) * 2^64\<close>, both canonical, \<open>fr_sub\<close> returns \<open>2^64 - 1\<close>,
  which is not \<open>(a - b) mod r\<close>.
\<close>

theorem fr_sub_lost_borrow:
  "fr_val \<lparr>l0 = 0, l1 = 0, l2 = 0, l3 = 0\<rparr> < r_modulus
   \<and> fr_val \<lparr>l0 = 1, l1 = 0xffffffffffffffff, l2 = 0, l3 = 0\<rparr> < r_modulus
   \<and> fr_sub \<lparr>l0 = 0, l1 = 0, l2 = 0, l3 = 0\<rparr> \<lparr>l0 = 1, l1 = 0xffffffffffffffff, l2 = 0, l3 = 0\<rparr>
       = \<lparr>l0 = 0xffffffffffffffff, l1 = 0, l2 = 0, l3 = 0\<rparr>
   \<and> int (fr_val \<lparr>l0 = 0xffffffffffffffff, l1 = 0, l2 = 0, l3 = 0\<rparr>)
       \<noteq> (int (fr_val \<lparr>l0 = 0, l1 = 0, l2 = 0, l3 = 0\<rparr>)
           - int (fr_val \<lparr>l0 = 1, l1 = 0xffffffffffffffff, l2 = 0, l3 = 0\<rparr>)) mod int r_modulus"
  by (simp add: fr_sub_def Let_def fr_val_def r_modulus_def unsigned_minus_1_eq_mask
      mask_eq_exp_minus_1)

section \<open>The claims about the settings\<close>

text \<open>
  Claim C6. On one platform, for a fully constructed settings object \<open>s\<close> (every array
  readable, sizes that are values of \<open>size_t\<close>), \<open>serialize_settings\<close> succeeds, and
  \<open>deserialize_settings\<close> applied to its output and length returns \<open>C_KZG_OK\<close> with a
  settings object that has the \<open>wbits\<close>, \<open>scratch_size\<close> and \<open>table_size\<close> of \<open>s\<close> and
  whose arrays (the three arrays of roots, the two G1 arrays, the G2 array, every
  column and, when \<open>wbits\<close> is not zero, every table) hold the bytes that the arrays
  of \<open>s\<close> hold; \<open>s\<close> itself is left as it was. The allocator has to have room for the
  arrays of the copy.
\<close>

theorem serialize_deserialize_round_trip:
  assumes pk: "platform_ok p" and hk: "heap_ok h" and ok: "settings_ok p h s"
    and av: "deserialize_allocs p s < avail h"
  shows "\<exists>out len h1 s' h2.
       serialize_settings p h s = Some (C_KZG_OK, Some out, len, h1)
     \<and> deserialize_settings p h1 (Some out) len = Some (C_KZG_OK, s', h2)
     \<and> wbits s' = wbits s \<and> scratch_size s' = scratch_size s \<and> table_size s' = table_size s
     \<and> settings_arrays p h2 s' = settings_arrays p h s
     \<and> settings_arrays p h2 s = settings_arrays p h s"
proof -
  define h1 where "h1 = heap_add h (Bytes (ser_bytes p h s))"
  have av0: "0 < avail h" using av by simp
  have ser: "serialize_settings p h s
      = Some (C_KZG_OK, Some (next_addr h), compute_serialized_size p s, h1)"
    unfolding h1_def heap_add_def using hk ok av0 by (rule serialize_settings_ok)
  have hk1: "heap_ok h1" unfolding h1_def using hk by (rule heap_add_ok)
  have fr1: "frame h h1" unfolding h1_def by (rule heap_add_frame)
  have cell: "cells h1 (next_addr h) = Some (Bytes (ser_bytes p h s))"
    by (simp add: h1_def heap_add_def)
  from settings_arrays_split [OF ok] obtain r1 r2 r3 m1 m2 g2 cols tabs where
    arr: "settings_arrays p h s = map Some [r1, r2, r3, m1, m2, g2] @ map Some cols @ map Some tabs"
    and l: "length r1 = FEPEB1 p * sizeof_fr_t p" "length r2 = FEPEB0 p * sizeof_fr_t p"
      "length r3 = FEPEB1 p * sizeof_fr_t p" "length m1 = NUM_G1_POINTS p * sizeof_g1_t p"
      "length m2 = NUM_G1_POINTS p * sizeof_g1_t p" "length g2 = NUM_G2_POINTS * sizeof_g2_t p"
    and lc: "length cols = CELLS_PER_EXT_BLOB p"
      "\<forall>r\<in>set cols. length r = FIELD_ELEMENTS_PER_CELL p * sizeof_g1_t p"
    and lt: "if wbits s \<noteq> 0 then length tabs = CELLS_PER_EXT_BLOB p \<and> (\<forall>r\<in>set tabs. length r = table_size s)
         else tabs = []"
    by blast
  have buf: "ser_bytes p h s = [0x4B, 0x5A, 0x47, 0x00, 1, get_endianness p, get_wordsize p]
        @ size_t_bytes p (wbits s) @ size_t_bytes p (scratch_size s) @ size_t_bytes p (table_size s)
        @ r1 @ r2 @ r3 @ m1 @ m2 @ g2 @ concat cols @ concat tabs"
    by (simp add: ser_bytes_eq [OF ok] arr comp_def)
  from ok have sz: "wbits s < 256 ^ sizeof_size_t p" "scratch_size s < 256 ^ sizeof_size_t p"
      "table_size s < 256 ^ sizeof_size_t p"
    and tp: "wbits s \<noteq> 0 \<longrightarrow> 0 < table_size s"
    by (simp_all add: settings_ok_def)
  have lt': "if wbits s \<noteq> 0 then length tabs = CELLS_PER_EXT_BLOB p \<and> 0 < table_size s
               \<and> (\<forall>r\<in>set tabs. length r = table_size s)
             else tabs = []"
    using lt tp by auto
  have av1: "7 + CELLS_PER_EXT_BLOB p + (if wbits s \<noteq> 0 then 1 + CELLS_PER_EXT_BLOB p else 0)
      \<le> avail h1"
    using av by (simp add: h1_def heap_add_def deserialize_allocs_def)
  have dl: "7 \<le> compute_serialized_size p s"
    by (simp add: compute_serialized_size_def sizeof_header_t_def)
  from deserialize_wellformed [OF pk hk1 cell buf sz l lc(1) _ lt' av1 dl] lc(2)
  obtain s' h2 where
    de: "deserialize_settings p h1 (Some (next_addr h)) (compute_serialized_size p s)
       = Some (C_KZG_OK, s', h2)"
    and f: "wbits s' = wbits s" "scratch_size s' = scratch_size s" "table_size s' = table_size s"
    and ar: "settings_arrays p h2 s' = map Some [r1, r2, r3, m1, m2, g2] @ map Some cols @ map Some tabs"
    and fr2: "frame h1 h2"
    by blast
  have e1: "settings_arrays p h1 s = settings_arrays p h s"
    using fr1 hk ok by (rule settings_ok_frame(2))
  have ok1: "settings_ok p h1 s"
    using fr1 hk ok by (rule settings_ok_frame(1))
  have e2: "settings_arrays p h2 s = settings_arrays p h1 s"
    using fr2 hk1 ok1 by (rule settings_ok_frame(2))
  show ?thesis
    using ser de f ar arr e1 e2 by auto
qed

theorem serialize_deserialize_round_trip_witness:
  "platform_ok ex_platform \<and> heap_ok ex_heap \<and> settings_ok ex_platform ex_heap ex_settings
   \<and> deserialize_allocs ex_platform ex_settings < avail ex_heap
   \<and> (\<exists>out len h1 s' h2.
       serialize_settings ex_platform ex_heap ex_settings = Some (C_KZG_OK, Some out, len, h1)
     \<and> deserialize_settings ex_platform h1 (Some out) len = Some (C_KZG_OK, s', h2)
     \<and> wbits s' = 8 \<and> scratch_size s' = 3 \<and> table_size s' = 2
     \<and> settings_arrays ex_platform h2 s'
         = map Some [[1, 2], [3], [4, 5], [6], [7], replicate 65 8, [9], [10], [11, 12], [13, 14]])"
proof -
  have a: "deserialize_allocs ex_platform ex_settings < avail ex_heap"
    by (simp add: deserialize_allocs_def ex_platform_def ex_settings_def ex_heap_def)
  have v: "settings_arrays ex_platform ex_heap ex_settings
      = map Some [[1, 2], [3], [4, 5], [6], [7], replicate 65 8, [9], [10], [11, 12], [13, 14]]"
    by (simp add: settings_arrays_def read_rows_def read_bytes_def load_ptr_def
      ex_platform_def ex_heap_def ex_cells_def ex_settings_def FEPEB1_def FEPEB0_def
      NUM_G1_POINTS_def NUM_G2_POINTS_def upt_conv_Cons)
  have f: "wbits ex_settings = 8" "scratch_size ex_settings = 3" "table_size ex_settings = 2"
    by (simp_all add: ex_settings_def)
  from serialize_deserialize_round_trip [OF ex_platform_ok ex_heap_ok ex_settings_ok a]
  show ?thesis
    unfolding v f using ex_platform_ok ex_heap_ok ex_settings_ok a by blast
qed


text \<open>
  Claim C7. The buffer that a successful \<open>serialize_settings\<close> returns starts with the
  seven bytes \<open>'K'\<close>, \<open>'Z'\<close>, \<open>'G'\<close>, \<open>0\<close>, the version \<open>1\<close>, the byte of the platform's
  endianness (\<open>2\<close> on a little-endian platform, \<open>1\<close> on a big-endian one) and the byte of
  its word size (the size of a pointer). \<open>deserialize_settings\<close>, given at least seven
  bytes, returns \<open>C_KZG_BADARGS\<close> (and leaves the output initialised and the heap as it
  was) whenever the magic is not \<open>"KZG\\0"\<close>, the version is not \<open>1\<close>, or the endianness or
  the word size is not that of the platform.
\<close>

theorem serialize_header_deserialize_rejects:
  "(serialize_settings p h s = Some (C_KZG_OK, out, len, h') \<longrightarrow>
      read_bytes h' out 0 7
        = Some [0x4B, 0x5A, 0x47, 0x00, 1, if little_endian p then 2 else 1, of_nat (sizeof_ptr p)])
   \<and> (7 \<le> data_len \<and> read_bytes h2 data 0 7 = Some hb
        \<and> (take 4 hb \<noteq> [0x4B, 0x5A, 0x47, 0x00] \<or> hb ! 4 \<noteq> 1
             \<or> hb ! 5 \<noteq> (if little_endian p then 2 else 1)
             \<or> hb ! 6 \<noteq> of_nat (sizeof_ptr p)) \<longrightarrow>
      deserialize_settings p h2 data data_len = Some (C_KZG_BADARGS, init_settings, h2))"
proof (intro conjI impI)
  have e: "get_endianness p = (if little_endian p then 2 else 1)"
    by (simp add: get_endianness_def ENDIANNESS_LITTLE_def ENDIANNESS_BIG_def)
  have w: "get_wordsize p = of_nat (sizeof_ptr p)"
    by (simp add: get_wordsize_def)
  {
    assume "serialize_settings p h s = Some (C_KZG_OK, out, len, h')"
    then have "read_bytes h' out 0 7
        = Some [0x4B, 0x5A, 0x47, 0x00, 1, get_endianness p, get_wordsize p]"
      by (rule serialize_settings_header)
    then show "read_bytes h' out 0 7
        = Some [0x4B, 0x5A, 0x47, 0x00, 1, if little_endian p then 2 else 1, of_nat (sizeof_ptr p)]"
      by (simp only: e w)
  }
  {
    assume a: "7 \<le> data_len \<and> read_bytes h2 data 0 7 = Some hb
        \<and> (take 4 hb \<noteq> [0x4B, 0x5A, 0x47, 0x00] \<or> hb ! 4 \<noteq> 1
             \<or> hb ! 5 \<noteq> (if little_endian p then 2 else 1)
             \<or> hb ! 6 \<noteq> of_nat (sizeof_ptr p))"
    then have "take 4 hb \<noteq> KZG_MAGIC \<or> hb ! 4 \<noteq> 1 \<or> hb ! 5 \<noteq> get_endianness p
         \<or> hb ! 6 \<noteq> get_wordsize p"
      by (simp only: e w KZG_MAGIC_def)
    moreover from a have "sizeof_header_t \<le> data_len" "read_bytes h2 data 0 sizeof_header_t = Some hb"
      by (simp_all add: sizeof_header_t_def)
    ultimately show "deserialize_settings p h2 data data_len = Some (C_KZG_BADARGS, init_settings, h2)"
      by (intro deserialize_settings_bad_header [where hb = hb])
  }
qed

theorem serialize_header_deserialize_rejects_witness:
  "serialize_settings ex_platform ex_heap ex_settings
     = Some (C_KZG_OK, Some 12, 109, heap_add ex_heap (Bytes (ser_bytes ex_platform ex_heap ex_settings)))
   \<and> read_bytes (heap_add ex_heap (Bytes (ser_bytes ex_platform ex_heap ex_settings))) (Some 12) 0 7
       = Some [0x4B, 0x5A, 0x47, 0x00, 1, 2, 8]
   \<and> (7::nat) \<le> 9
   \<and> read_bytes ex_foreign_heap (Some 0) 0 7 = Some [0x4B, 0x5A, 0x47, 0x00, 1, 1, 8]
   \<and> [0x4B, 0x5A, 0x47, 0x00, 1, 1, 8] ! 5 \<noteq> (if little_endian ex_platform then 2 else 1 :: byte)
   \<and> deserialize_settings ex_platform ex_foreign_heap (Some 0) 9
       = Some (C_KZG_BADARGS, init_settings, ex_foreign_heap)"
proof -
  have sz: "compute_serialized_size ex_platform ex_settings = 109"
    by (simp add: compute_serialized_size_def ex_platform_def ex_settings_def sizeof_header_t_def
        FEPEB1_def FEPEB0_def NUM_G1_POINTS_def NUM_G2_POINTS_def)
  have ser: "serialize_settings ex_platform ex_heap ex_settings
     = Some (C_KZG_OK, Some 12, 109, heap_add ex_heap (Bytes (ser_bytes ex_platform ex_heap ex_settings)))"
    using serialize_settings_ok [OF ex_heap_ok ex_settings_ok]
    by (simp add: sz heap_add_def ex_heap_def)
  have e: "(if little_endian ex_platform then 2 else 1 :: byte) = 2"
    "(of_nat (sizeof_ptr ex_platform) :: byte) = 8"
    by (simp_all add: ex_platform_def)
  have rd: "read_bytes ex_foreign_heap (Some 0) 0 7 = Some [0x4B, 0x5A, 0x47, 0x00, 1, 1, 8]"
    by (simp add: read_bytes_def ex_foreign_heap_def)
  have ne: "[0x4B, 0x5A, 0x47, 0x00, 1, 1, 8 :: byte] ! 5
      \<noteq> (if little_endian ex_platform then 2 else 1 :: byte)"
    by (simp add: e)
  note t = serialize_header_deserialize_rejects [of ex_platform ex_heap ex_settings "Some 12" 109
      "heap_add ex_heap (Bytes (ser_bytes ex_platform ex_heap ex_settings))" 9 ex_foreign_heap
      "Some 0" "[0x4B, 0x5A, 0x47, 0x00, 1, 1, 8]"]
  from t ser have a: "read_bytes (heap_add ex_heap (Bytes (ser_bytes ex_platform ex_heap ex_settings)))
      (Some 12) 0 7 = Some [0x4B, 0x5A, 0x47, 0x00, 1, 2, 8]"
    unfolding e by blast
  from t rd ne have b: "deserialize_settings ex_platform ex_foreign_heap (Some 0) 9
       = Some (C_KZG_BADARGS, init_settings, ex_foreign_heap)"
    by simp
  show ?thesis using ser a rd ne b by simp
qed

text \<open>
  Claim C8 says that a failed length check returns the code for bad arguments, in
  particular for a buffer shorter than the header. On a buffer of three bytes
  \<open>deserialize_settings\<close> returns \<open>C_KZG_ERROR\<close>, the code that \<open>ret.h\<close> documents as an
  internal error that should never occur, where the checks of the header that follow
  return \<open>C_KZG_BADARGS\<close>.
\<close>

theorem deserialize_settings_short_buffer:
  "deserialize_settings ex_platform ex_short_heap (Some 0) 3
     = Some (C_KZG_ERROR, init_settings, ex_short_heap)
   \<and> read_bytes ex_short_heap (Some 0) 0 3 = Some [0x4B, 0x5A, 0x47]
   \<and> C_KZG_ERROR \<noteq> C_KZG_BADARGS"
  by (simp add: deserialize_settings_def sizeof_header_t_def read_bytes_def ex_short_heap_def)

text \<open>
  Claim C10. When \<open>deserialize_settings\<close> returns a code other than \<open>C_KZG_OK\<close>, the output
  object is the initialized one (every pointer \<open>NULL\<close>, the three sizes zero), the heap
  holds the blocks it held before the call and no other (everything allocated on the
  way has been released), and \<open>free_settings\<close> on the output succeeds and changes nothing.
  Whatever the code returned, no block that was live before the call, the input buffer
  among them, has changed.
\<close>

theorem deserialize_settings_failure_cleanup:
  assumes hk: "heap_ok h"
    and de: "deserialize_settings p h data data_len = Some (ret, out, h')"
  shows "(ret \<noteq> C_KZG_OK \<longrightarrow>
            out = init_settings \<and> cells h' = cells h
            \<and> free_settings p h' out = Some (init_settings, h'))
         \<and> (\<forall>a<next_addr h. cells h' a = cells h a)"
proof -
  define f where "f = run_steps (deserialize_steps p data) (Cont init_settings h sizeof_header_t)"
  have fl: "flow_ok p h 8 f" unfolding f_def using hk by (rule deserialize_steps_flow)
  have early: ?thesis if "out = init_settings" "h' = h"
    using that by (simp add: free_settings_init)
  show ?thesis
  proof (cases "data_len < sizeof_header_t")
    case True
    then show ?thesis using de by (intro early) (simp_all add: deserialize_settings_def)
  next
    case long: False
    show ?thesis
    proof (cases "read_bytes h data 0 sizeof_header_t")
      case None
      then show ?thesis using de long by (simp add: deserialize_settings_def)
    next
      case (Some hb)
      show ?thesis
      proof (cases "magic (header_of_bytes hb) \<noteq> KZG_MAGIC \<or> version (header_of_bytes hb) \<noteq> 1
          \<or> endianness (header_of_bytes hb) \<noteq> get_endianness p
          \<or> wordsize (header_of_bytes hb) \<noteq> get_wordsize p")
        case True
        then show ?thesis using de long Some
          by (intro early) (auto simp add: deserialize_settings_def Let_def split: if_splits)
      next
        case False
        then have run: "(case f of
               Cont out h offset \<Rightarrow> Some (C_KZG_OK, out, h)
             | Goto_error ret out h \<Rightarrow>
                 (case free_settings p h out of
                    None \<Rightarrow> None
                  | Some (out, h) \<Rightarrow> Some (ret, out, h))
             | Fault \<Rightarrow> None) = Some (ret, out, h')"
          using de long Some by (simp add: deserialize_settings_def Let_def f_def)
        show ?thesis
        proof (cases f)
          case (Cont s h2 off)
          with run have r: "ret = C_KZG_OK" "h' = h2" by simp_all
          from fl Cont have "frame h h2" by (simp add: flow_ok_def building_def)
          then show ?thesis using r by (simp add: frame_def)
        next
          case (Goto_error e s h2)
          with fl have b: "building p h s h2" by (simp add: flow_ok_def)
          from free_settings_building [OF b hk] obtain h3 where
            fs: "free_settings p h2 s = Some (init_settings, h3)" and c: "cells h3 = cells h"
            by blast
          from run Goto_error fs have r: "out = init_settings" "h' = h3" by simp_all
          show ?thesis using r c by (simp add: free_settings_init)
        next
          case Fault
          with run show ?thesis by simp
        qed
      qed
    qed
  qed
qed

theorem deserialize_settings_failure_cleanup_witness:
  "heap_ok ex_low_heap
   \<and> (\<exists>out h'. deserialize_settings ex_platform ex_low_heap (Some 0) 109
                  = Some (C_KZG_MALLOC, out, h')
        \<and> C_KZG_MALLOC \<noteq> C_KZG_OK \<and> out = init_settings \<and> cells h' = cells ex_low_heap
        \<and> free_settings ex_platform h' out = Some (init_settings, h')
        \<and> cells h' 0 = Some (Bytes ex_buffer))"
proof -
  from ex_low_run obtain out h' where
    r: "deserialize_settings ex_platform ex_low_heap (Some 0) 109 = Some (C_KZG_MALLOC, out, h')"
    by blast
  note t = deserialize_settings_failure_cleanup [OF ex_low_heap_ok r]
  have ne: "C_KZG_MALLOC \<noteq> C_KZG_OK" by simp
  from t ne have a: "out = init_settings" "cells h' = cells ex_low_heap"
    "free_settings ex_platform h' out = Some (init_settings, h')"
    by blast+
  have "cells h' 0 = Some (Bytes ex_buffer)" unfolding a(2) by (simp add: ex_low_heap_def)
  with r ne a ex_low_heap_ok show ?thesis by blast
qed

section \<open>The claims about the host code\<close>

text \<open>
  Claim C9 as stated fails: on a single element, with every pointer valid and a
  context whose every request succeeds, \<open>metal_fr_fft\<close> does not return the input but
  \<open>C_KZG_ERROR\<close>.
\<close>

theorem metal_fr_fft_single_rejected:
  "metal_fr_fft ex_ops (Some ex_context) False (Some [ex_fr]) 1 (Some [ex_fr]) 1 False
     = Inl C_KZG_ERROR
   \<and> metal_fr_fft ex_ops (Some ex_context) False (Some [ex_fr]) 1 (Some [ex_fr]) 1 False
     \<noteq> Inr [ex_fr]"
  by (simp add: metal_fr_fft_def MIN_GPU_FFT_SIZE_def)

text \<open>
  Claim C9, amended. For a single-element input (\<open>N = 1\<close>, below \<open>MIN_GPU_FFT_SIZE\<close>),
  \<open>metal_fr_fft\<close> with valid pointers returns \<open>C_KZG_ERROR\<close>, for the caller to fall back
  to the CPU, and writes no output; the sequence of GPU commands of a forward transform
  (the bit-reversal pass and the \<open>log2 N = 0\<close> stages) returns a single element unchanged.
\<close>

theorem metal_fr_fft_single:
  "metal_fr_fft ops (Some c) False (Some [x]) 1 (Some rts) stride False = Inl C_KZG_ERROR
   \<and> metal_fft_commands ops roots_contiguous 1 False [x] = [x]"
proof
  show "metal_fr_fft ops (Some c) False (Some [x]) 1 (Some rts) stride False = Inl C_KZG_ERROR"
    by (rule metal_fr_fft_small) simp
  show "metal_fft_commands ops roots_contiguous 1 False [x] = [x]"
    by (rule commands_single)
qed




text \<open>
  Claim C1 fails for the shipped kernels at the length 256. The input \<open>ex_impulse\<close>
  holds zero everywhere except the canonical element \<open>ex_b\<close>, with limbs
  \<open>1, 2^64 - 1, 0, 0\<close>, at index 128; \<open>ex_roots\<close> holds the powers of a primitive 256th
  root of unity \<open>w\<close> (\<open>w^128 = -1\<close> modulo \<open>r\<close>) and \<open>ex_reverse_roots\<close> the powers of its
  inverse, both in Montgomery form, and the scale factor is the inverse of 256. The
  forward call of \<open>metal_fr_fft\<close> succeeds and returns \<open>ex_b\<close> at the even indices and
  \<open>ex_c\<close>, of value \<open>2^64 - 1\<close>, at the odd ones, where the transform has \<open>r - ex_b\<close>: the
  first stage subtracts \<open>ex_b\<close> from zero with \<open>fr_sub\<close>, which loses the borrow. The
  inverse call on that output does not return the input.
\<close>

theorem metal_fr_fft_round_trip_lost_borrow:
  "metal_fr_fft ex_ops_256 (Some ex_context) False (Some ex_impulse) 256 (Some ex_roots) 1 False
     = Inr ex_spectrum
   \<and> metal_fr_fft ex_ops_256 (Some ex_context) False (Some ex_spectrum) 256
         (Some ex_reverse_roots) 1 True
     \<noteq> Inr ex_impulse
   \<and> fr_val ex_b < r_modulus \<and> fr_val fr_zero < r_modulus
   \<and> fr_val ex_c \<noteq> r_modulus - fr_val ex_b
   \<and> ex_omega ^ 128 mod r_modulus = r_modulus - 1
   \<and> (ex_omega * ex_omega_inv) mod r_modulus = 1
   \<and> (256 * ex_ninv) mod r_modulus = 1"
proof (intro conjI)
  show "metal_fr_fft ex_ops_256 (Some ex_context) False (Some ex_impulse) 256 (Some ex_roots) 1 False
     = Inr ex_spectrum"
    by (rule ex_forward)
  note rt = mont_roots [OF ex_reverse_roots_def]
  have n8: "(256::nat) = 2 ^ 8" by simp
  have k: "(8::nat) < 32" by simp
  have len: "length ex_spectrum = 256" by (simp add: ex_spectrum_def)
  have big: "MIN_GPU_FFT_SIZE \<le> 256" by (simp add: MIN_GPU_FFT_SIZE_def)
  define Y where "Y = map (\<lambda>t. fr_mul (dit ex_ops_256 ex_reverse_roots 256 8 (\<lambda>v. ex_spectrum ! v) t)
      ex_inv_256) [0..<256]"
  have "metal_fr_fft ex_ops_256 (Some ex_context) False (Some ex_spectrum) 256
         (Some ex_reverse_roots) 1 True
      = Inr (metal_fft_commands ex_ops_256 ex_reverse_roots 256 True ex_spectrum)"
    unfolding metal_fr_fft_runs [OF big len ex_context_ok] rt(2) ..
  also have "metal_fft_commands ex_ops_256 ex_reverse_roots 256 True ex_spectrum
      = map (\<lambda>t. mul ex_ops_256 (dit ex_ops_256 ex_reverse_roots 256 8 (\<lambda>v. ex_spectrum ! v) t)
          (inv_of_n ex_ops_256 256)) [0..<256]"
    using k n8 len by (rule forward_commands(2))
  also have "\<dots> = Y"
    by (simp add: Y_def ex_ops_256_def metal_ops_def)
  finally have run: "metal_fr_fft ex_ops_256 (Some ex_context) False (Some ex_spectrum) 256
         (Some ex_reverse_roots) 1 True = Inr Y" .
  have "fr_val (Y ! 0) = 0x80000000000000000000000000000000"
    unfolding Y_def using ex_inverse_first by simp
  moreover have "fr_val (ex_impulse ! 0) = 0"
    by (simp add: ex_impulse_nth fr_val_zero)
  ultimately have "Y \<noteq> ex_impulse" by auto
  then show "metal_fr_fft ex_ops_256 (Some ex_context) False (Some ex_spectrum) 256
         (Some ex_reverse_roots) 1 True \<noteq> Inr ex_impulse"
    unfolding run by simp
  show "fr_val ex_b < r_modulus"
    by (rule ex_values(1))
  show "fr_val fr_zero < r_modulus"
    unfolding fr_val_zero by (rule r_modulus_pos)
  show "fr_val ex_c \<noteq> r_modulus - fr_val ex_b"
    unfolding ex_values(3,4) by (simp add: r_modulus_def)
  show "ex_omega ^ 128 mod r_modulus = r_modulus - 1"
    by (rule ex_omega_order)
  show "(ex_omega * ex_omega_inv) mod r_modulus = 1"
    by (rule ex_roots_inverse(1))
  show "(256 * ex_ninv) mod r_modulus = 1"
    by (rule ex_roots_inverse(2))
qed

end
